(* ===== verification/Dynt_Prelude.thy ===== *)
theory Dynt_Prelude
  imports Main "HOL-Library.Word" "HOL-Library.Monad_Syntax"
begin

text \<open>
  Shared vocabulary of the development: the C integer types as words of their width, the
  byte-addressed physical memory of the kernel (the kernel runs identity mapped, so a pointer is a
  physical address), little-endian 64-bit loads and stores with their aliasing laws, and the
  generic facts on words, lists and counting that the component theories share.
\<close>

unbundle bit_operations_syntax

section \<open>Machine types\<close>

type_synonym u8 = "8 word"
type_synonym u16 = "16 word"
type_synonym u32 = "32 word"
type_synonym u64 = "64 word"

text \<open>Byte-addressed memory, and a readable C pointer seen as the function \<open>i \<mapsto> p[i]\<close>.\<close>

type_synonym mem = "u64 \<Rightarrow> u8"
type_synonym ptr = "nat \<Rightarrow> u8"

text \<open>A C string as the list of its bytes before the terminating NUL.\<close>

type_synonym cstring = "u8 list"

named_theorems mem_simps \<open>rewriting of loads after stores\<close>
named_theorems word_nat \<open>word arithmetic moved to natural numbers\<close>
named_theorems const_defs \<open>the numeric macros of the source\<close>

definition cstr :: "cstring \<Rightarrow> ptr" where
  "cstr s = (\<lambda>i. if i < length s then s ! i else 0)"

definition cstring_ok :: "cstring \<Rightarrow> bool" where
  "cstring_ok s \<longleftrightarrow> 0 \<notin> set s"

definition str :: "string \<Rightarrow> cstring" where
  "str s = map of_char s"

text \<open>The C string a buffer holds.\<close>

definition buf_str :: "u8 list \<Rightarrow> cstring" where
  "buf_str b = takeWhile (\<lambda>c. c \<noteq> 0) b"

lemma cstr_nth [simp]: "i < length s \<Longrightarrow> cstr s i = s ! i"
  by (simp add: cstr_def)

lemma cstr_end [simp]: "length s \<le> i \<Longrightarrow> cstr s i = 0"
  by (simp add: cstr_def)

lemma cstr_Cons [simp]: "cstr (c # s) (Suc i) = cstr s i"
  by (simp add: cstr_def)

lemma cstr_Cons_0 [simp]: "cstr (c # s) 0 = c"
  by (simp add: cstr_def)

lemma cstring_ok_Cons [simp]: "cstring_ok (c # s) \<longleftrightarrow> c \<noteq> 0 \<and> cstring_ok s"
  by (auto simp: cstring_ok_def)

lemma cstring_ok_Nil [simp]: "cstring_ok []"
  by (simp add: cstring_ok_def)

lemma cstring_ok_nth: "cstring_ok s \<Longrightarrow> i < length s \<Longrightarrow> s ! i \<noteq> 0"
  by (auto simp: cstring_ok_def in_set_conv_nth)

section \<open>Counting loops over words\<close>

lemma unat_inc [word_nat]: "f < lim \<Longrightarrow> unat (f + 1) = Suc (unat f)" for f lim :: "'a::len word"
proof -
  assume "f < lim"
  then have "unat f < unat lim" by (simp add: word_less_nat_alt)
  moreover have "unat lim < 2 ^ LENGTH('a)" by (rule unsigned_less)
  ultimately have "unat f + 1 < 2 ^ LENGTH('a)" by linarith
  then have "unat f + unat (1 :: 'a word) < 2 ^ LENGTH('a)" by simp
  then have "unat (f + 1) = unat f + unat (1 :: 'a word)"
    by (simp only: unat_add_lem)
  then show ?thesis by simp
qed

lemma unat_of_nat_small [word_nat]: "n < 2 ^ LENGTH('a) \<Longrightarrow> unat (of_nat n :: 'a::len word) = n"
  by (simp add: unat_of_nat take_bit_nat_eq_self)

text \<open>The measure of every loop \<open>for (f = f0; f < lim; f++)\<close>.\<close>

lemma word_loop_less [simp]: "f < lim \<Longrightarrow> unat lim - unat (f + 1) < unat lim - unat f"
  for f lim :: "'a::len word"
  by (simp add: unat_inc word_less_nat_alt)

lemma word_loop_split: "f < lim \<Longrightarrow> f \<le> x \<longleftrightarrow> x = f \<or> f + 1 \<le> x"
  for f lim x :: "'a::len word"
proof -
  assume "f < lim"
  then have "unat (f + 1) = Suc (unat f)" by (rule unat_inc)
  moreover have "x = f \<longleftrightarrow> unat x = unat f" by (simp add: word_unat_eq_iff)
  ultimately show ?thesis
    unfolding word_le_nat_alt by auto
qed

text \<open>A loop whose body may leave the function with failure.\<close>

fun for_ok :: "('a \<Rightarrow> 's \<Rightarrow> bool \<times> 's) \<Rightarrow> 'a list \<Rightarrow> 's \<Rightarrow> bool \<times> 's" where
  "for_ok body [] s = (True, s)"
| "for_ok body (i # is) s =
     (case body i s of (ok, s) \<Rightarrow> if ok then for_ok body is s else (False, s))"

text \<open>A property every turn of the loop keeps.\<close>

lemma for_ok_inv:
  assumes "\<And>i s ok s'. i \<in> set is \<Longrightarrow> I s \<Longrightarrow> body i s = (ok, s') \<Longrightarrow> I s'"
    and "I s" "for_ok body is s = (ok, s')"
  shows "I s'"
  using assms
proof (induction "is" arbitrary: s)
  case (Cons i "is")
  obtain b t where t: "body i s = (b, t)" by force
  with Cons.prems have "I t" by (metis list.set_intros(1))
  show ?case
  proof (cases b)
    case True
    then have "for_ok body is t = (ok, s')" using Cons.prems(3) t by simp
    then show ?thesis
      using Cons.IH [of t] Cons.prems(1) \<open>I t\<close> by (meson list.set_intros(2))
  next
    case False
    then show ?thesis using t Cons.prems \<open>I t\<close> by simp
  qed
qed simp

section \<open>Loads and stores\<close>

definition rd64 :: "mem \<Rightarrow> u64 \<Rightarrow> u64" where
  "rd64 m a =
     ucast (m a) OR push_bit 8 (ucast (m (a + 1))) OR
     push_bit 16 (ucast (m (a + 2))) OR push_bit 24 (ucast (m (a + 3))) OR
     push_bit 32 (ucast (m (a + 4))) OR push_bit 40 (ucast (m (a + 5))) OR
     push_bit 48 (ucast (m (a + 6))) OR push_bit 56 (ucast (m (a + 7)))"

definition wr64 :: "mem \<Rightarrow> u64 \<Rightarrow> u64 \<Rightarrow> mem" where
  "wr64 m a v =
     m(a := ucast v, a + 1 := ucast (drop_bit 8 v),
       a + 2 := ucast (drop_bit 16 v), a + 3 := ucast (drop_bit 24 v),
       a + 4 := ucast (drop_bit 32 v), a + 5 := ucast (drop_bit 40 v),
       a + 6 := ucast (drop_bit 48 v), a + 7 := ucast (drop_bit 56 v))"

text \<open>Two 8-byte cells that do not overlap (modulo the address space).\<close>

definition cells_apart :: "u64 \<Rightarrow> u64 \<Rightarrow> bool" where
  "cells_apart a b \<longleftrightarrow> 8 \<le> a - b \<and> 8 \<le> b - a"

lemma rd64_wr64_same [simp, mem_simps]: "rd64 (wr64 m a v) a = v"
proof (rule bit_word_eqI)
  fix n assume "n < LENGTH(64)"
  then have n: "n < 64" by simp
  consider "n < 8" | "8 \<le> n" "n < 16" | "16 \<le> n" "n < 24" | "24 \<le> n" "n < 32"
    | "32 \<le> n" "n < 40" | "40 \<le> n" "n < 48" | "48 \<le> n" "n < 56" | "56 \<le> n"
    using n by linarith
  then show "bit (rd64 (wr64 m a v) a) n \<longleftrightarrow> bit v n"
    using n by cases (auto simp: rd64_def wr64_def bit_simps)
qed

lemma add_of_nat_eq_iff:
  fixes x d :: u64
  assumes "i < 2 ^ 64"
  shows "x = d + of_nat i \<longleftrightarrow> unat (x - d) = i"
proof
  assume "x = d + of_nat i"
  then show "unat (x - d) = i" using assms by (simp add: unat_of_nat)
next
  assume "unat (x - d) = i"
  then have "x - d = of_nat i" by auto
  then show "x = d + of_nat i" by (simp add: algebra_simps)
qed

lemma add_offset_neq: "8 \<le> x - a \<Longrightarrow> k < 8 \<Longrightarrow> x \<noteq> a + k"
  for x a k :: u64
  by auto

lemma wr64_other: "8 \<le> x - a \<Longrightarrow> wr64 m a v x = m x"
  using add_offset_neq [of x a 0] add_offset_neq [of x a 1] add_offset_neq [of x a 2]
    add_offset_neq [of x a 3] add_offset_neq [of x a 4] add_offset_neq [of x a 5]
    add_offset_neq [of x a 6] add_offset_neq [of x a 7]
  by (simp add: wr64_def)

lemma cells_apart_offset:
  assumes "cells_apart a b" "k < 8"
  shows "8 \<le> b + k - a"
proof -
  have "8 \<le> b - a" "8 \<le> a - b" using assms(1) by (auto simp: cells_apart_def)
  with assms(2) have "b - a \<le> b - a + k"
    by unat_arith
  with \<open>8 \<le> b - a\<close> show ?thesis by (simp add: algebra_simps)
qed

lemma rd64_wr64_other [mem_simps]:
  assumes "cells_apart a b"
  shows "rd64 (wr64 m a v) b = rd64 m b"
proof -
  have "wr64 m a v (b + k) = m (b + k)" if "k < 8" for k
    using cells_apart_offset [OF assms that] by (rule wr64_other)
  from this [of 0] this [of 1] this [of 2] this [of 3] this [of 4] this [of 5] this [of 6]
    this [of 7] show ?thesis
    by (simp add: rd64_def)
qed

end
