(* ===== verification/Mem_Lib.thy ===== *)
theory Mem_Lib
  imports Dynt_Prelude
begin

text \<open>
  The freestanding memory and string routines of \<^verbatim>\<open>mem/lib/memory.c\<close> and
  \<^verbatim>\<open>mem/lib/memory.h\<close>. Routines that write take the memory and return it updated; routines
  that only read take pointers as functions \<open>i \<mapsto> p[i]\<close>. Every loop of the source is a loop
  function here, in the same order, and is followed by its closed form.
\<close>

section \<open>Definitions\<close>

fun k_memset_loop :: "mem \<Rightarrow> u64 \<Rightarrow> u32 \<Rightarrow> nat \<Rightarrow> nat \<Rightarrow> mem" where
  "k_memset_loop m d v i 0 = m"
| "k_memset_loop m d v i (Suc n) = k_memset_loop (m(d + of_nat i := ucast v)) d v (Suc i) n"

definition k_memset :: "mem \<Rightarrow> u64 \<Rightarrow> u32 \<Rightarrow> u64 \<Rightarrow> mem" where
  "k_memset m dst value len = k_memset_loop m dst value 0 (unat len)"

fun k_memcpy_loop :: "mem \<Rightarrow> u64 \<Rightarrow> u64 \<Rightarrow> nat \<Rightarrow> nat \<Rightarrow> mem" where
  "k_memcpy_loop m d s i 0 = m"
| "k_memcpy_loop m d s i (Suc n) =
     k_memcpy_loop (m(d + of_nat i := m (s + of_nat i))) d s (Suc i) n"

definition k_memcpy :: "mem \<Rightarrow> u64 \<Rightarrow> u64 \<Rightarrow> u64 \<Rightarrow> mem" where
  "k_memcpy m dst src len = k_memcpy_loop m dst src 0 (unat len)"

fun k_memcmp_loop :: "ptr \<Rightarrow> ptr \<Rightarrow> nat \<Rightarrow> nat \<Rightarrow> int" where
  "k_memcmp_loop a b i 0 = 0"
| "k_memcmp_loop a b i (Suc n) =
     (if a i \<noteq> b i then uint (a i) - uint (b i) else k_memcmp_loop a b (Suc i) n)"

definition k_memcmp :: "ptr \<Rightarrow> ptr \<Rightarrow> nat \<Rightarrow> int" where
  "k_memcmp a b len = k_memcmp_loop a b 0 len"

text \<open>
  \<open>k_strlen\<close> only stops at a NUL, so it may not return: the value is then \<open>None\<close>. A null
  pointer is \<open>None\<close> as an argument.
\<close>

partial_function (option) k_strlen_loop :: "ptr \<Rightarrow> nat \<Rightarrow> nat option" where
  "k_strlen_loop p len = (if p len \<noteq> 0 then k_strlen_loop p (Suc len) else Some len)"

definition k_strlen :: "ptr option \<Rightarrow> nat option" where
  "k_strlen p = (case p of None \<Rightarrow> Some 0 | Some q \<Rightarrow> k_strlen_loop q 0)"

fun k_strncmp_loop :: "ptr \<Rightarrow> ptr \<Rightarrow> nat \<Rightarrow> nat \<Rightarrow> int" where
  "k_strncmp_loop a b i 0 = 0"
| "k_strncmp_loop a b i (Suc n) =
     (let ca = a i; cb = b i
      in if ca \<noteq> cb \<or> ca = 0 \<or> cb = 0 then uint ca - uint cb
         else k_strncmp_loop a b (Suc i) n)"

definition k_strncmp :: "ptr \<Rightarrow> ptr \<Rightarrow> nat \<Rightarrow> int" where
  "k_strncmp a b len = k_strncmp_loop a b 0 len"

text \<open>
  \<open>k_strncpy\<close> fills a buffer of \<open>len\<close> bytes; the model returns the bytes of the buffer. The
  first loop copies, the second pads with NULs.
\<close>

function k_strncpy_copy :: "ptr option \<Rightarrow> nat \<Rightarrow> nat \<Rightarrow> u8 list" where
  "k_strncpy_copy src i len =
     (if i + 1 < len then
        (case src of None \<Rightarrow> []
         | Some p \<Rightarrow> if p i \<noteq> 0 then p i # k_strncpy_copy src (Suc i) len else [])
      else [])"
  by pat_completeness auto
termination
  by (relation "measure (\<lambda>(src, i, len). len - i)") auto

declare k_strncpy_copy.simps [simp del]

definition k_strncpy :: "ptr option \<Rightarrow> nat \<Rightarrow> u8 list" where
  "k_strncpy src len =
     (if len = 0 then []
      else let c = k_strncpy_copy src 0 len in c @ replicate (len - length c) 0)"

definition k_le16 :: "ptr \<Rightarrow> u16" where
  "k_le16 p = ucast (p 0) OR push_bit 8 (ucast (p 1))"

definition k_le32 :: "ptr \<Rightarrow> u32" where
  "k_le32 p = ucast (p 0) OR push_bit 8 (ucast (p 1)) OR
     push_bit 16 (ucast (p 2)) OR push_bit 24 (ucast (p 3))"

definition k_le64 :: "ptr \<Rightarrow> u64" where
  "k_le64 p = ucast (k_le32 p) OR push_bit 32 (ucast (k_le32 (\<lambda>i. p (i + 4))))"

section \<open>Closed forms\<close>

lemma k_memset_loop_eq:
  assumes "i + n \<le> 2 ^ 64"
  shows "k_memset_loop m d v i n x =
     (if i \<le> unat (x - d) \<and> unat (x - d) < i + n then ucast v else m x)"
  using assms
proof (induction n arbitrary: m i)
  case 0
  then show ?case by auto
next
  case (Suc n)
  have eq: "x = d + of_nat i \<longleftrightarrow> unat (x - d) = i"
    using Suc.prems by (intro add_of_nat_eq_iff) simp
  show ?case using Suc.IH [of "Suc i"] Suc.prems eq by auto
qed

lemma k_memset_apply [mem_simps]:
  "k_memset m d v n x = (if x - d < n then ucast v else m x)"
  using k_memset_loop_eq [of 0 "unat n" m d v x] unsigned_less [of n, where 'a = nat]
  by (simp add: k_memset_def word_less_nat_alt)

text \<open>A forward copy between regions that do not overlap.\<close>

definition regions_apart :: "u64 \<Rightarrow> u64 \<Rightarrow> u64 \<Rightarrow> bool" where
  "regions_apart d s n \<longleftrightarrow> (\<forall>i < unat n. \<forall>j < unat n. d + of_nat i \<noteq> s + of_nat j)"

lemma k_memcpy_loop_eq:
  assumes "i + n \<le> 2 ^ 64"
    and "\<And>k j. k < i + n \<Longrightarrow> j < i + n \<Longrightarrow> d + of_nat k \<noteq> s + of_nat j"
  shows "k_memcpy_loop m d s i n x =
     (if i \<le> unat (x - d) \<and> unat (x - d) < i + n then m (s + (x - d)) else m x)"
  using assms
proof (induction n arbitrary: m i)
  case 0
  then show ?case by auto
next
  case (Suc n)
  let ?m = "m(d + of_nat i := m (s + of_nat i))"
  have eq: "x = d + of_nat i \<longleftrightarrow> unat (x - d) = i"
    using Suc.prems by (intro add_of_nat_eq_iff) simp
  have src: "s + (x - d) \<noteq> d + of_nat i" if "unat (x - d) < Suc i + n"
  proof
    assume "s + (x - d) = d + of_nat i"
    then have "d + of_nat i = s + of_nat (unat (x - d))" by simp
    then show False using Suc.prems(2) [of i "unat (x - d)"] that by simp
  qed
  have "k_memcpy_loop ?m d s (Suc i) n x =
      (if Suc i \<le> unat (x - d) \<and> unat (x - d) < Suc i + n then ?m (s + (x - d)) else ?m x)"
    using Suc.prems by (intro Suc.IH) auto
  then show ?case using eq src by (auto simp: algebra_simps)
qed

lemma k_memcpy_apply [mem_simps]:
  assumes "regions_apart d s n"
  shows "k_memcpy m d s n x = (if x - d < n then m (s + (x - d)) else m x)"
  using k_memcpy_loop_eq [of 0 "unat n" d s m x] unsigned_less [of n, where 'a = nat] assms
  by (simp add: k_memcpy_def word_less_nat_alt regions_apart_def)

lemma k_memcmp_loop_eq_0:
  "k_memcmp_loop a b i n = 0 \<longleftrightarrow> (\<forall>j. i \<le> j \<and> j < i + n \<longrightarrow> a j = b j)"
proof (induction n arbitrary: i)
  case 0
  then show ?case by auto
next
  case (Suc n)
  have split: "(\<forall>j. i \<le> j \<and> j < i + Suc n \<longrightarrow> a j = b j) \<longleftrightarrow>
      a i = b i \<and> (\<forall>j. Suc i \<le> j \<and> j < Suc i + n \<longrightarrow> a j = b j)"
    by (metis Suc_leD Suc_le_eq add_Suc_right add_Suc le_add1 le_eq_less_or_eq le_imp_less_Suc)
  show ?case
    using Suc.IH [of "Suc i"] split by (auto simp: word_uint_eq_iff)
qed

lemma k_memcmp_eq_0: "k_memcmp a b n = 0 \<longleftrightarrow> (\<forall>i < n. a i = b i)"
  by (simp add: k_memcmp_def k_memcmp_loop_eq_0)

lemma k_strlen_loop_cstr:
  assumes "cstring_ok s" "i \<le> length s"
  shows "k_strlen_loop (cstr s) i = Some (length s)"
  using assms(2)
proof (induction "length s - i" arbitrary: i)
  case 0
  then show ?case by (subst k_strlen_loop.simps) simp
next
  case (Suc n)
  then have "i < length s" by simp
  moreover have "k_strlen_loop (cstr s) (Suc i) = Some (length s)"
    using Suc by simp
  ultimately show ?case
    using cstring_ok_nth [OF assms(1)] by (subst k_strlen_loop.simps) simp
qed

lemma k_strlen_cstr [simp]: "cstring_ok s \<Longrightarrow> k_strlen (Some (cstr s)) = Some (length s)"
  by (simp add: k_strlen_def k_strlen_loop_cstr)

lemma buf_str_id: "cstring_ok s \<Longrightarrow> buf_str s = s"
  by (simp add: buf_str_def cstring_ok_def takeWhile_eq_all_conv) metis

lemma k_strncpy_copy_cstr:
  assumes "cstring_ok s" "i \<le> length s"
  shows "k_strncpy_copy (Some (cstr s)) i len = take (len - 1 - i) (drop i s)"
  using assms(2)
proof (induction "len - i" arbitrary: i)
  case 0
  then show ?case by (subst k_strncpy_copy.simps) simp
next
  case (Suc n)
  show ?case
  proof (cases "i + 1 < len \<and> i < length s")
    case True
    then have "cstr s i = s ! i" "s ! i \<noteq> 0" using cstring_ok_nth [OF assms(1)] by simp_all
    moreover have "k_strncpy_copy (Some (cstr s)) (Suc i) len = take (len - 1 - Suc i) (drop (Suc i) s)"
      using Suc True by simp
    moreover have "take (len - 1 - i) (drop i s) = s ! i # take (len - 1 - Suc i) (drop (Suc i) s)"
    proof -
      have "len - 1 - i = Suc (len - 1 - Suc i)" using True by arith
      then show ?thesis using True by (simp only: Cons_nth_drop_Suc [symmetric] take_Suc_Cons)
    qed
    ultimately show ?thesis using True by (subst k_strncpy_copy.simps) simp
  next
    case False
    then show ?thesis using Suc.prems by (subst k_strncpy_copy.simps) auto
  qed
qed

lemma buf_str_append_0: "cstring_ok s \<Longrightarrow> buf_str (s @ 0 # t) = s"
  unfolding buf_str_def cstring_ok_def by (induction s) auto

text \<open>The string a bounded copy leaves in its buffer: the source, cut to fit, always terminated.\<close>

lemma k_strncpy_str:
  assumes "cstring_ok s" "0 < len"
  shows "buf_str (k_strncpy (Some (cstr s)) len) = take (len - 1) s"
proof -
  have "length (take (len - 1) s) < len" using assms(2) by simp
  then obtain m where "len - length (take (len - 1) s) = Suc m" by (metis Suc_diff_Suc)
  moreover have "cstring_ok (take (len - 1) s)"
    using assms(1) by (auto simp: cstring_ok_def dest: in_set_takeD)
  ultimately show ?thesis
    using assms by (simp add: k_strncpy_def k_strncpy_copy_cstr Let_def buf_str_append_0)
qed


section \<open>Properties\<close>

text \<open>
  \<open>k_strncpy\<close> never writes more than the buffer and always leaves a terminated string in it: the
  result has exactly \<open>len\<close> bytes, ends with a NUL, and holds the source string cut to \<open>len - 1\<close> bytes.
\<close>

theorem k_strncpy_bounded:
  assumes "0 < len" "cstring_ok s"
  shows "length (k_strncpy (Some (cstr s)) len) = len \<and> last (k_strncpy (Some (cstr s)) len) = 0 \<and>
    buf_str (k_strncpy (Some (cstr s)) len) = take (len - 1) s"
proof -
  let ?c = "take (len - 1) s"
  have l: "length ?c < len" using assms(1) by simp
  then obtain m where m: "len - length ?c = Suc m" by (metis Suc_diff_Suc)
  have e: "k_strncpy (Some (cstr s)) len = ?c @ replicate (len - length ?c) 0"
    using assms by (simp add: k_strncpy_def k_strncpy_copy_cstr Let_def)
  have "length (?c @ replicate (len - length ?c) 0) = len" using l by simp
  moreover have "last (?c @ replicate (len - length ?c) (0 :: u8)) = 0" unfolding m by simp
  ultimately show ?thesis using k_strncpy_str [OF assms(2,1)] by (simp only: e)
qed

theorem k_strncpy_bounded_witness:
  "last (k_strncpy (Some (cstr (str ''a very long name''))) 8) = 0 \<and>
   buf_str (k_strncpy (Some (cstr (str ''a very long name''))) 8) = take 7 (str ''a very long name'')"
proof -
  have "cstring_ok (str ''a very long name'')" by code_simp
  then show ?thesis using k_strncpy_bounded [of 8 "str ''a very long name''"] by simp
qed

end
