(* ===== verification/Block.thy ===== *)
theory Block
  imports Mem_Lib
begin

text \<open>
  The block layer of \<^verbatim>\<open>driver/stacks/storage/block.c\<close>: the registry of block devices and the
  bounds-checked \<open>block_read\<close> and \<open>block_write\<close> that dispatch to a device driver or, for a
  partition, to its parent device.

  A device pointer is the number of the object (0 is the null pointer); objects live in the typed
  store \<open>devs\<close>. A function pointer is modelled together with the driver data it works on. A buffer
  argument becomes a byte list that is returned or passed, so the null check on it has no
  counterpart. A disk is an array of 512-byte sectors, each of which may be unreadable or
  unwritable. The outcomes of the coming \<open>kheap_alloc\<close> calls are the list \<open>alloc_ok\<close>; when it is
  used up they succeed.
\<close>

section \<open>Definitions\<close>

record disk =
  content :: "u64 \<Rightarrow> u8 list"
  rfault :: "u64 \<Rightarrow> bool"
  wfault :: "u64 \<Rightarrow> bool"

definition disk_read :: "disk \<Rightarrow> u64 \<Rightarrow> nat \<Rightarrow> u8 list option" where
  "disk_read d lba n =
     (if list_ex (\<lambda>k. rfault d (lba + of_nat k)) [0..<n] then None
      else Some (concat (map (\<lambda>k. content d (lba + of_nat k)) [0..<n])))"

fun disk_write :: "disk \<Rightarrow> u64 \<Rightarrow> nat \<Rightarrow> u8 list \<Rightarrow> bool \<times> disk" where
  "disk_write d lba 0 b = (True, d)"
| "disk_write d lba (Suc n) b =
     (if wfault d lba then (False, d)
      else disk_write (d\<lparr>content := (content d)(lba := take 512 b)\<rparr>) (lba + 1) n (drop 512 b))"

datatype block_fn = Driver_fn nat | Partition_fn nat u64

record block_device =
  bname :: cstring
  sector_count :: u64
  sector_size :: u32
  removable :: bool
  is_partition :: bool
  parent :: nat
  parent_lba :: u64
  read_fn :: "block_fn option"
  write_fn :: "block_fn option"
  next_dev :: nat

record storage =
  disks :: "nat \<Rightarrow> disk"
  devs :: "nat \<Rightarrow> block_device"
  fresh_dev :: nat
  first_device :: nat
  last_device :: nat
  device_count :: u32
  alloc_ok :: "bool list"

definition kalloc :: "storage \<Rightarrow> bool \<times> storage" where
  "kalloc st = (case alloc_ok st of [] \<Rightarrow> (True, st) | ok # rest \<Rightarrow> (ok, st\<lparr>alloc_ok := rest\<rparr>))"

definition block_stack_init :: "storage \<Rightarrow> storage" where
  "block_stack_init st = st\<lparr>first_device := 0, last_device := 0, device_count := 0\<rparr>"

definition blank_device :: block_device where
  "blank_device = \<lparr>bname = [], sector_count = 0, sector_size = 0, removable = False,
     is_partition = False, parent = 0, parent_lba = 0, read_fn = None, write_fn = None,
     next_dev = 0\<rparr>"

definition block_device_alloc :: "storage \<Rightarrow> nat \<times> storage" where
  "block_device_alloc st =
     (case kalloc st of (ok, st) \<Rightarrow>
        if ok then (fresh_dev st, st\<lparr>devs := (devs st)(fresh_dev st := blank_device\<lparr>sector_size := 512\<rparr>),
                                     fresh_dev := Suc (fresh_dev st)\<rparr>)
        else (0, st))"

definition block_device_register :: "storage \<Rightarrow> nat \<Rightarrow> bool \<times> storage" where
  "block_device_register st dev =
     (if dev = 0 \<or> read_fn (devs st dev) = None \<or> sector_size (devs st dev) = 0 \<or>
         sector_count (devs st dev) = 0 then (False, st)
      else let st = st\<lparr>devs := (devs st)(dev := devs st dev\<lparr>next_dev := 0\<rparr>)\<rparr>;
               st = (if first_device st = 0 then st\<lparr>first_device := dev\<rparr>
                     else st\<lparr>devs := (devs st)(last_device st :=
                             devs st (last_device st)\<lparr>next_dev := dev\<rparr>)\<rparr>)
           in (True, st\<lparr>last_device := dev, device_count := device_count st + 1\<rparr>))"

definition block_device_first :: "storage \<Rightarrow> nat" where
  "block_device_first st = first_device st"

definition block_device_next :: "storage \<Rightarrow> nat \<Rightarrow> nat" where
  "block_device_next st dev = (if dev \<noteq> 0 then next_dev (devs st dev) else 0)"

text \<open>
  \<open>None\<close> is a call that does not return (a device that is its own ancestor); \<open>Some None\<close> is the
  result false. The partition branch is \<open>partition_read\<close> of \<^verbatim>\<open>partition.c\<close>.
\<close>

partial_function (option) block_read :: "storage \<Rightarrow> nat \<Rightarrow> u64 \<Rightarrow> u32 \<Rightarrow> u8 list option option" where
  "block_read st dev lba count =
     (if dev = 0 \<or> read_fn (devs st dev) = None \<or> count = 0 then Some None
      else if lba \<ge> sector_count (devs st dev) \<or> ucast count > sector_count (devs st dev) - lba
      then Some None
      else case the (read_fn (devs st dev)) of
             Driver_fn i \<Rightarrow> Some (disk_read (disks st i) lba (unat count))
           | Partition_fn par start \<Rightarrow> block_read st par (start + lba) count)"

declare block_read.simps [code]

partial_function (option) block_write ::
  "storage \<Rightarrow> nat \<Rightarrow> u64 \<Rightarrow> u32 \<Rightarrow> u8 list \<Rightarrow> (bool \<times> storage) option" where
  "block_write st dev lba count buffer =
     (if dev = 0 \<or> write_fn (devs st dev) = None \<or> count = 0 then Some (False, st)
      else if lba \<ge> sector_count (devs st dev) \<or> ucast count > sector_count (devs st dev) - lba
      then Some (False, st)
      else case the (write_fn (devs st dev)) of
             Driver_fn i \<Rightarrow> (case disk_write (disks st i) lba (unat count) buffer of
                 (ok, d) \<Rightarrow> Some (ok, st\<lparr>disks := (disks st)(i := d)\<rparr>))
           | Partition_fn par start \<Rightarrow> block_write st par (start + lba) count buffer)"

declare block_write.simps [code]

section \<open>Disks\<close>

lemma disk_write_fields:
  "disk_write d lba n b = (ok, d') \<Longrightarrow> rfault d' = rfault d \<and> wfault d' = wfault d"
  by (induction d lba n b rule: disk_write.induct) (auto split: if_splits)

lemma disk_write_outside:
  assumes "disk_write d lba n b = (ok, d')" "\<forall>k < n. x \<noteq> lba + of_nat k"
  shows "content d' x = content d x"
  using assms
proof (induction d lba n b rule: disk_write.induct)
  case (2 d lba n b)
  have "x \<noteq> lba" using 2(3) [rule_format, of 0] by simp
  moreover have "\<forall>k < n. x \<noteq> lba + 1 + of_nat k"
  proof (intro allI impI)
    fix k assume "k < n"
    then have "x \<noteq> lba + of_nat (Suc k)" using 2(3) by blast
    then show "x \<noteq> lba + 1 + of_nat k" by (simp add: algebra_simps)
  qed
  ultimately show ?case
    using 2(1) 2(2) by (cases "wfault d lba") simp_all
qed simp

lemma disk_write_inside:
  assumes "disk_write d lba n b = (True, d')" "k < n" "n \<le> 2 ^ 64"
  shows "content d' (lba + of_nat k) = take 512 (drop (512 * k) b)"
  using assms
proof (induction d lba n b arbitrary: k rule: disk_write.induct)
  case (2 d lba n b)
  note step = 2(2)
  have nf: "\<not> wfault d lba" using step by (auto split: if_splits)
  show ?case
  proof (cases k)
    case 0
    have "content d' lba = content (d\<lparr>content := (content d)(lba := take 512 b)\<rparr>) lba"
    proof (rule disk_write_outside)
      show "disk_write (d\<lparr>content := (content d)(lba := take 512 b)\<rparr>) (lba + 1) n (drop 512 b) = (True, d')"
        using step nf by simp
      show "\<forall>k < n. lba \<noteq> lba + 1 + of_nat k"
      proof (intro allI impI notI)
        fix k assume k: "k < n" and "lba = lba + 1 + of_nat k"
        then have "(of_nat (Suc k) :: u64) = 0" by (simp add: algebra_simps)
        moreover have "unat (of_nat (Suc k) :: u64) = Suc k"
          using k 2(4) by (intro unat_of_nat_small) simp
        ultimately show False by simp
      qed
    qed
    then show ?thesis using 0 by simp
  next
    case (Suc j)
    then have "content d' (lba + 1 + of_nat j) = take 512 (drop (512 * j) (drop 512 b))"
      using 2(1) [OF nf, of j] step nf 2(3,4) by simp
    then show ?thesis using Suc by (simp add: algebra_simps)
  qed
qed simp

lemma disk_write_ok: "\<forall>x. \<not> wfault d x \<Longrightarrow> \<exists>d'. disk_write d lba n b = (True, d')"
  by (induction d lba n b rule: disk_write.induct) auto


lemma disk_read_ok:
  "\<forall>x. \<not> rfault d x \<Longrightarrow> disk_read d lba n = Some (concat (map (\<lambda>k. content d (lba + of_nat k)) [0..<n]))"
  by (simp add: disk_read_def list_ex_iff)

section \<open>Devices and their sectors\<close>

text \<open>
  A sound device is a disk, or a partition that lies inside a disk. \<open>dev_disk\<close> and \<open>dev_base\<close> say
  on which disk, and from which sector on, it stores its sectors.
\<close>

definition is_disk :: "storage \<Rightarrow> nat \<Rightarrow> nat \<Rightarrow> bool" where
  "is_disk st dev i \<longleftrightarrow> dev \<noteq> 0 \<and> read_fn (devs st dev) = Some (Driver_fn i) \<and>
     write_fn (devs st dev) \<in> {None, Some (Driver_fn i)}"

definition is_part :: "storage \<Rightarrow> nat \<Rightarrow> nat \<Rightarrow> u64 \<Rightarrow> bool" where
  "is_part st dev par start \<longleftrightarrow> dev \<noteq> 0 \<and> read_fn (devs st dev) = Some (Partition_fn par start) \<and>
     write_fn (devs st dev) = (if write_fn (devs st par) = None then None else Some (Partition_fn par start)) \<and>
     (\<exists>i. is_disk st par i) \<and>
     unat start + unat (sector_count (devs st dev)) \<le> unat (sector_count (devs st par))"

definition dev_ok :: "storage \<Rightarrow> nat \<Rightarrow> bool" where
  "dev_ok st dev \<longleftrightarrow> (\<exists>i. is_disk st dev i) \<or> (\<exists>par start. is_part st dev par start)"

definition dev_disk :: "storage \<Rightarrow> nat \<Rightarrow> nat" where
  "dev_disk st dev = (case read_fn (devs st dev) of
      Some (Driver_fn i) \<Rightarrow> i
    | Some (Partition_fn par start) \<Rightarrow>
        (case read_fn (devs st par) of Some (Driver_fn i) \<Rightarrow> i | _ \<Rightarrow> 0)
    | None \<Rightarrow> 0)"

definition dev_base :: "storage \<Rightarrow> nat \<Rightarrow> u64" where
  "dev_base st dev = (case read_fn (devs st dev) of Some (Partition_fn par start) \<Rightarrow> start | _ \<Rightarrow> 0)"

definition in_dev :: "storage \<Rightarrow> nat \<Rightarrow> u64 \<Rightarrow> u32 \<Rightarrow> bool" where
  "in_dev st dev lba count \<longleftrightarrow> count \<noteq> 0 \<and> unat lba + unat count \<le> unat (sector_count (devs st dev))"

lemma in_dev_guard:
  fixes lba n :: u64 and count :: u32
  assumes "count \<noteq> 0"
  shows "\<not> (lba \<ge> n \<or> ucast count > n - lba) \<longleftrightarrow> unat lba + unat count \<le> unat n"
proof -
  have c: "unat (ucast count :: u64) = unat count"
    using unsigned_less [of count, where 'a = nat] by (simp add: unsigned_ucast_eq take_bit_nat_eq_self)
  have p: "unat count > 0" using assms by (simp add: unat_gt_0)
  show ?thesis
  proof (cases "lba < n")
    case True
    then have "unat (n - lba) = unat n - unat lba" by (intro unat_sub) simp
    then show ?thesis using True c by (auto simp: word_le_nat_alt word_less_nat_alt)
  next
    case False
    then show ?thesis using p by (auto simp: word_le_nat_alt word_less_nat_alt)
  qed
qed

lemma part_in_parent:
  assumes "is_part st dev par start" "in_dev st dev lba count"
  shows "in_dev st par (start + lba) count"
proof -
  have b: "unat start + unat lba + unat count \<le> unat (sector_count (devs st par))"
    using assms by (simp add: is_part_def in_dev_def)
  then have "unat start + unat lba < 2 ^ LENGTH(64)"
    using assms(2) unsigned_less [of "sector_count (devs st par)", where 'a = nat] by (simp add: in_dev_def)
  then have "unat (start + lba) = unat start + unat lba" by (simp only: unat_add_lem)
  then show ?thesis using b assms(2) by (simp add: in_dev_def)
qed

lemma block_read_disk:
  assumes "is_disk st dev i"
  shows "block_read st dev lba count = Some (if in_dev st dev lba count
     then disk_read (disks st i) lba (unat count) else None)"
proof (cases "count = 0")
  case False
  then show ?thesis
    using assms in_dev_guard [OF False, where lba = lba and n = "sector_count (devs st dev)"]
    by (subst block_read.simps) (auto simp: is_disk_def in_dev_def)
qed (subst block_read.simps, simp add: in_dev_def)

lemma block_write_disk:
  assumes "is_disk st dev i"
  shows "block_write st dev lba count b = Some (if write_fn (devs st dev) \<noteq> None \<and> in_dev st dev lba count
     then (case disk_write (disks st i) lba (unat count) b of
             (ok, d) \<Rightarrow> (ok, st\<lparr>disks := (disks st)(i := d)\<rparr>)) else (False, st))"
proof (cases "count = 0")
  case False
  then show ?thesis
    using assms in_dev_guard [OF False, where lba = lba and n = "sector_count (devs st dev)"]
    by (subst block_write.simps) (auto simp: is_disk_def in_dev_def split: prod.splits)
qed (subst block_write.simps, simp add: in_dev_def)

lemma block_read_part:
  assumes "is_part st dev par start"
  shows "block_read st dev lba count = (if in_dev st dev lba count
     then block_read st par (start + lba) count else Some None)"
proof (cases "count = 0")
  case False
  then show ?thesis
    using assms in_dev_guard [OF False, where lba = lba and n = "sector_count (devs st dev)"]
    by (subst block_read.simps) (auto simp: is_part_def in_dev_def)
qed (subst block_read.simps, simp add: in_dev_def)

lemma block_write_part:
  assumes "is_part st dev par start"
  shows "block_write st dev lba count b = (if write_fn (devs st dev) \<noteq> None \<and> in_dev st dev lba count
     then block_write st par (start + lba) count b else Some (False, st))"
proof (cases "count = 0")
  case False
  then show ?thesis
    using assms in_dev_guard [OF False, where lba = lba and n = "sector_count (devs st dev)"]
    by (subst block_write.simps) (auto simp: is_part_def in_dev_def split: if_splits)
qed (subst block_write.simps, simp add: in_dev_def)

lemma dev_map_disk: "is_disk st dev i \<Longrightarrow> dev_disk st dev = i \<and> dev_base st dev = 0"
  by (simp add: is_disk_def dev_disk_def dev_base_def)

lemma dev_map_part:
  "is_part st dev par start \<Longrightarrow> dev_disk st dev = dev_disk st par \<and> dev_base st dev = start"
  by (auto simp: is_part_def is_disk_def dev_disk_def dev_base_def)

text \<open>On a sound device both operations return, and they work on exactly its own part of one disk.\<close>

lemma block_read_dev:
  assumes "dev_ok st dev"
  shows "block_read st dev lba count = Some (if in_dev st dev lba count
     then disk_read (disks st (dev_disk st dev)) (dev_base st dev + lba) (unat count) else None)"
proof (cases "\<exists>i. is_disk st dev i")
  case True
  then show ?thesis by (auto simp: block_read_disk dev_map_disk)
next
  case False
  then obtain par start where p: "is_part st dev par start" using assms by (auto simp: dev_ok_def)
  then obtain i where i: "is_disk st par i" by (auto simp: is_part_def)
  show ?thesis
    using part_in_parent [OF p] by (simp add: block_read_part [OF p] block_read_disk [OF i] dev_map_part [OF p] dev_map_disk [OF i])
qed

lemma block_write_dev:
  assumes "dev_ok st dev"
  shows "block_write st dev lba count b =
     Some (if write_fn (devs st dev) \<noteq> None \<and> in_dev st dev lba count
       then (case disk_write (disks st (dev_disk st dev)) (dev_base st dev + lba) (unat count) b of
               (ok, d) \<Rightarrow> (ok, st\<lparr>disks := (disks st)(dev_disk st dev := d)\<rparr>)) else (False, st))"
proof (cases "\<exists>i. is_disk st dev i")
  case True
  then show ?thesis by (auto simp: block_write_disk dev_map_disk)
next
  case False
  then obtain par start where p: "is_part st dev par start" using assms by (auto simp: dev_ok_def)
  then obtain i where i: "is_disk st par i" by (auto simp: is_part_def)
  have "write_fn (devs st dev) \<noteq> None \<Longrightarrow> write_fn (devs st par) \<noteq> None"
    using p by (auto simp: is_part_def split: if_splits)
  then show ?thesis
    using part_in_parent [OF p]
    by (simp add: block_write_part [OF p] block_write_disk [OF i] dev_map_part [OF p] dev_map_disk [OF i])
qed

section \<open>The sector interface\<close>

text \<open>
  What a client of the block layer relies on: a healthy device is an array of 512-byte sectors, a
  read returns the stored bytes, a write replaces exactly the sectors named and nothing else.
\<close>

locale sector_store =
  fixes ready :: "'s \<Rightarrow> bool"
    and cap :: "'s \<Rightarrow> nat"
    and sect :: "'s \<Rightarrow> u64 \<Rightarrow> u8 list"
    and rest :: "'s \<Rightarrow> 'f"
    and rd :: "'s \<Rightarrow> u64 \<Rightarrow> u32 \<Rightarrow> u8 list option option"
    and wr :: "'s \<Rightarrow> u64 \<Rightarrow> u32 \<Rightarrow> u8 list \<Rightarrow> (bool \<times> 's) option"
  assumes sect_length: "ready s \<Longrightarrow> length (sect s x) = 512"
    and rd_in: "ready s \<Longrightarrow> n \<noteq> 0 \<Longrightarrow> unat x + unat n \<le> cap s \<Longrightarrow>
      rd s x n = Some (Some (concat (map (\<lambda>k. sect s (x + of_nat k)) [0..<unat n])))"
    and rd_out: "ready s \<Longrightarrow> \<not> (n \<noteq> 0 \<and> unat x + unat n \<le> cap s) \<Longrightarrow> rd s x n = Some None"
    and wr_in: "ready s \<Longrightarrow> n \<noteq> 0 \<Longrightarrow> unat x + unat n \<le> cap s \<Longrightarrow> length b = 512 * unat n \<Longrightarrow>
      \<exists>s'. wr s x n b = Some (True, s') \<and> ready s' \<and> cap s' = cap s \<and> rest s' = rest s \<and>
        (\<forall>k < unat n. sect s' (x + of_nat k) = take 512 (drop (512 * k) b)) \<and>
        (\<forall>y. (\<forall>k < unat n. y \<noteq> x + of_nat k) \<longrightarrow> sect s' y = sect s y)"
    and wr_out: "ready s \<Longrightarrow> \<not> (n \<noteq> 0 \<and> unat x + unat n \<le> cap s) \<Longrightarrow> wr s x n b = Some (False, s)"
begin

lemma rd_length:
  assumes "ready s" "rd s x n = Some (Some b)"
  shows "length b = 512 * unat n"
proof -
  have "b = concat (map (\<lambda>k. sect s (x + of_nat k)) [0..<unat n])"
    using assms rd_in [of s n x] rd_out [of s n x] by (cases "n \<noteq> 0 \<and> unat x + unat n \<le> cap s") auto
  moreover have "length (concat (map (\<lambda>k. sect s (x + of_nat k)) [0..<m])) = 512 * m" for m
    by (induction m) (simp_all add: sect_length [OF assms(1)])
  ultimately show ?thesis by simp
qed

lemma rd_wr_same:
  assumes "ready s" "wr s x n b = Some (True, s')" "length b = 512 * unat n"
  shows "rd s' x n = Some (Some b)"
proof -
  have i: "n \<noteq> 0" "unat x + unat n \<le> cap s" using assms wr_out [of s n x b] by auto
  obtain s'' where w: "wr s x n b = Some (True, s'')" "ready s''" "cap s'' = cap s"
    "\<forall>k < unat n. sect s'' (x + of_nat k) = take 512 (drop (512 * k) b)"
    using wr_in [OF assms(1) i assms(3)] by blast
  have s: "s'' = s'" using w(1) assms(2) by simp
  have "concat (map (\<lambda>k. sect s' (x + of_nat k)) [0..<m]) = take (512 * m) b" if "m \<le> unat n" for m
    using that
  proof (induction m)
    case (Suc m)
    then show ?case using w(4) s by (simp add: take_add [symmetric] algebra_simps)
  qed simp
  from this [of "unat n"] show ?thesis
    using rd_in [of s' n x] w i s assms(3) by simp
qed

lemma rd_wr_other:
  assumes "ready s" "wr s x n b = Some (True, s')" "length b = 512 * unat n"
    and "\<forall>j < unat m. \<forall>k < unat n. y + of_nat j \<noteq> x + of_nat k"
  shows "rd s' y m = rd s y m"
proof -
  have i: "n \<noteq> 0" "unat x + unat n \<le> cap s" using assms(1,2) wr_out [of s n x b] by auto
  obtain s'' where w: "wr s x n b = Some (True, s'')" "ready s''" "cap s'' = cap s"
    "\<forall>y. (\<forall>k < unat n. y \<noteq> x + of_nat k) \<longrightarrow> sect s'' y = sect s y"
    using wr_in [OF assms(1) i assms(3)] by blast
  have s: "s'' = s'" using w(1) assms(2) by simp
  have "map (\<lambda>k. sect s' (y + of_nat k)) [0..<unat m] = map (\<lambda>k. sect s (y + of_nat k)) [0..<unat m]"
    using w(4) s assms(4) by simp
  then show ?thesis
    using rd_in [of s' m y] rd_in [OF assms(1), of m y] rd_out [of s' m y] rd_out [OF assms(1), of m y] w(2,3) s
    by (cases "m \<noteq> 0 \<and> unat y + unat m \<le> cap s") (simp only: simp_thms, metis)+
qed

end

text \<open>A sound device without bad sectors provides the interface.\<close>

definition dev_ready :: "nat \<Rightarrow> storage \<Rightarrow> bool" where
  "dev_ready dev st \<longleftrightarrow> dev_ok st dev \<and> write_fn (devs st dev) \<noteq> None \<and>
     (let d = disks st (dev_disk st dev) in
        \<forall>x. length (content d x) = 512 \<and> \<not> rfault d x \<and> \<not> wfault d x)"

definition dev_sect :: "nat \<Rightarrow> storage \<Rightarrow> u64 \<Rightarrow> u8 list" where
  "dev_sect dev st x = content (disks st (dev_disk st dev)) (dev_base st dev + x)"

definition dev_cap :: "nat \<Rightarrow> storage \<Rightarrow> nat" where
  "dev_cap dev st = unat (sector_count (devs st dev))"

definition st_rest :: "storage \<Rightarrow> storage" where
  "st_rest st = st\<lparr>disks := \<lambda>_. undefined\<rparr>"

lemma st_rest_disks [simp]: "st_rest (st\<lparr>disks := x\<rparr>) = st_rest st"
  by (simp add: st_rest_def)

lemma st_restD:
  assumes "st_rest s = st_rest t"
  shows "devs s = devs t" "alloc_ok s = alloc_ok t" "first_device s = first_device t"
    "last_device s = last_device t" "device_count s = device_count t" "fresh_dev s = fresh_dev t"
  using assms by (auto simp: st_rest_def dest: arg_cong [where f = devs] arg_cong [where f = alloc_ok]
    arg_cong [where f = first_device] arg_cong [where f = last_device] arg_cong [where f = device_count]
    arg_cong [where f = fresh_dev])

lemma dev_ok_disks [simp]: "dev_ok (st\<lparr>disks := x\<rparr>) dev = dev_ok st dev"
  by (simp add: dev_ok_def is_disk_def is_part_def)

lemma dev_map_disks [simp]:
  "dev_disk (st\<lparr>disks := x\<rparr>) dev = dev_disk st dev" "dev_base (st\<lparr>disks := x\<rparr>) dev = dev_base st dev"
  by (simp_all add: dev_disk_def dev_base_def split: option.splits block_fn.splits)

lemma disk_write_length:
  assumes "disk_write d lba n b = (True, d')" "length b = 512 * n" "\<forall>x. length (content d x) = 512"
  shows "length (content d' x) = 512"
  using assms
proof (induction d lba n b rule: disk_write.induct)
  case (2 d lba n b)
  then show ?case by (cases "wfault d lba") simp_all
qed simp

interpretation bs: sector_store "dev_ready dev" "dev_cap dev" "dev_sect dev" st_rest
    "\<lambda>st. block_read st dev" "\<lambda>st. block_write st dev" for dev
proof
  fix s x
  assume "dev_ready dev s"
  then show "length (dev_sect dev s x) = 512" by (simp add: dev_ready_def dev_sect_def Let_def)
next
  fix s and x :: u64 and n :: u32
  assume "dev_ready dev s" "n \<noteq> 0" "unat x + unat n \<le> dev_cap dev s"
  then show "block_read s dev x n = Some (Some (concat (map (\<lambda>k. dev_sect dev s (x + word_of_nat k)) [0..<unat n])))"
    by (simp add: block_read_dev dev_ready_def in_dev_def dev_cap_def Let_def disk_read_ok dev_sect_def add.assoc)
next
  fix s and x :: u64 and n :: u32
  assume "dev_ready dev s" "\<not> (n \<noteq> 0 \<and> unat x + unat n \<le> dev_cap dev s)"
  then show "block_read s dev x n = Some None"
    by (auto simp: block_read_dev dev_ready_def in_dev_def dev_cap_def)
next
  fix s b and x :: u64 and n :: u32
  assume "dev_ready dev s" "\<not> (n \<noteq> 0 \<and> unat x + unat n \<le> dev_cap dev s)"
  then show "block_write s dev x n b = Some (False, s)"
    by (auto simp: block_write_dev dev_ready_def in_dev_def dev_cap_def)
next
  fix s and x :: u64 and n :: u32 and b :: "u8 list"
  assume r: "dev_ready dev s" and i: "n \<noteq> 0" "unat x + unat n \<le> dev_cap dev s"
    and l: "length b = 512 * unat n"
  let ?i = "dev_disk s dev" and ?b = "dev_base s dev"
  obtain d where w: "disk_write (disks s ?i) (?b + x) (unat n) b = (True, d)"
    using r disk_write_ok by (metis dev_ready_def)
  let ?s = "s\<lparr>disks := (disks s)(?i := d)\<rparr>"
  have "block_write s dev x n b = Some (True, ?s)"
    using r i w by (simp add: block_write_dev dev_ready_def in_dev_def dev_cap_def)
  moreover have "dev_ready dev ?s"
    using r disk_write_fields [OF w] disk_write_length [OF w l] by (auto simp: dev_ready_def Let_def)
  moreover have "\<forall>k < unat n. dev_sect dev ?s (x + of_nat k) = take 512 (drop (512 * k) b)"
    using disk_write_inside [OF w] unsigned_less [of n, where 'a = nat] by (simp add: dev_sect_def add.assoc)
  moreover have "\<forall>y. (\<forall>k < unat n. y \<noteq> x + of_nat k) \<longrightarrow> dev_sect dev ?s y = dev_sect dev s y"
    using disk_write_outside [OF w] by (simp add: dev_sect_def add.assoc)
  ultimately show "\<exists>s'. block_write s dev x n b = Some (True, s') \<and> dev_ready dev s' \<and> dev_cap dev s' = dev_cap dev s \<and>
      st_rest s' = st_rest s \<and>
      (\<forall>k < unat n. dev_sect dev s' (x + word_of_nat k) = take 512 (drop (512 * k) b)) \<and>
      (\<forall>y. (\<forall>k < unat n. y \<noteq> x + word_of_nat k) \<longrightarrow> dev_sect dev s' y = dev_sect dev s y)"
    by (intro exI [of _ ?s]) (simp add: dev_cap_def)
qed

end
