(* ===== verification/Partition.thy ===== *)
theory Partition
  imports Block
begin

text \<open>
  Partition discovery of \<^verbatim>\<open>driver/stacks/storage/partition.c\<close>: MBR and GPT tables are read from a
  disk and every partition found is registered as a block device of its own. The static sector
  buffer is followed in memory by other data, which a GPT entry that crosses the end of the buffer
  reads; \<open>tail\<close> stands for these bytes.
\<close>

section \<open>Definitions\<close>

definition partition_name :: "cstring \<Rightarrow> u32 \<Rightarrow> cstring" where
  "partition_name pname index =
     (let name = buf_str (k_strncpy (Some (cstr pname)) 48)
      in if length name + 4 < 48 then
           buf_str (name @ [0x70] @ (if index \<ge> 10 then [ucast (48 + index div 10)] else []) @
                    [ucast (48 + index mod 10)])
         else name)"

definition register_partition :: "storage \<Rightarrow> nat \<Rightarrow> u32 \<Rightarrow> u64 \<Rightarrow> u64 \<Rightarrow> bool \<times> storage" where
  "register_partition st par index start count =
     (if par = 0 \<or> start = 0 \<or> count = 0 then (False, st)
      else if start \<ge> sector_count (devs st par) \<or> count > sector_count (devs st par) - start
      then (False, st)
      else case block_device_alloc st of (dev, st) \<Rightarrow>
        if dev = 0 then (False, st)
        else case kalloc st of (ok, st) \<Rightarrow>
          if \<not> ok then (False, st)
          else let P = devs st par;
                   d = (devs st dev)\<lparr>bname := partition_name (bname P) index,
                        sector_size := sector_size P, sector_count := count, is_partition := True,
                        parent := par, parent_lba := start, read_fn := Some (Partition_fn par start),
                        write_fn := (if write_fn P \<noteq> None then Some (Partition_fn par start) else None)\<rparr>
               in block_device_register (st\<lparr>devs := (devs st)(dev := d)\<rparr>) dev)"

definition sector_ptr :: "ptr \<Rightarrow> u8 list \<Rightarrow> ptr" where
  "sector_ptr tail sector i = (if i < length sector then sector ! i else tail i)"

fun scan_mbr_entries :: "ptr \<Rightarrow> nat \<Rightarrow> nat list \<Rightarrow> u32 \<Rightarrow> storage \<Rightarrow> u32 \<times> storage" where
  "scan_mbr_entries sector dev [] found st = (found, st)"
| "scan_mbr_entries sector dev (i # is) found st =
     (let entry = (\<lambda>j. sector (446 + i * 16 + j));
          type = entry 4;
          start = k_le32 (\<lambda>j. entry (8 + j));
          count = k_le32 (\<lambda>j. entry (12 + j))
      in if type = 0 \<or> count = 0 then scan_mbr_entries sector dev is found st
         else case register_partition st dev (of_nat i + 1) (ucast start) (ucast count) of
                (ok, st) \<Rightarrow> scan_mbr_entries sector dev is (if ok then found + 1 else found) st)"

definition scan_mbr :: "ptr \<Rightarrow> storage \<Rightarrow> nat \<Rightarrow> (u32 \<times> storage) option" where
  "scan_mbr tail st dev =
     (case block_read st dev 0 1 of None \<Rightarrow> None | Some None \<Rightarrow> Some (0, st)
      | Some (Some b) \<Rightarrow>
          (let sector = sector_ptr tail b
           in if sector 510 \<noteq> 0x55 \<or> sector 511 \<noteq> 0xAA then Some (0, st)
              else Some (scan_mbr_entries sector dev [0, 1, 2, 3] 0 st)))"

definition has_gpt :: "ptr \<Rightarrow> storage \<Rightarrow> nat \<Rightarrow> ptr option option" where
  "has_gpt tail st dev =
     (case block_read st dev 1 1 of None \<Rightarrow> None | Some None \<Rightarrow> Some None
      | Some (Some b) \<Rightarrow>
          (let sector = sector_ptr tail b
           in if k_memcmp sector (cstr (str ''EFI PART'')) 8 = 0 then Some (Some sector)
              else Some None))"

fun scan_gpt_entries :: "ptr \<Rightarrow> nat \<Rightarrow> u64 \<Rightarrow> u32 \<Rightarrow> nat \<Rightarrow> nat \<Rightarrow> u32 \<Rightarrow> storage \<Rightarrow> (u32 \<times> storage) option" where
  "scan_gpt_entries tail dev entries_lba entry_size i 0 found st = Some (found, st)"
| "scan_gpt_entries tail dev entries_lba entry_size i (Suc n) found st =
     (let pos = (of_nat i * ucast entry_size :: u64);
          lba = entries_lba + pos div ucast (sector_size (devs st dev));
          offset = unat (pos mod ucast (sector_size (devs st dev)))
      in case block_read st dev lba 1 of None \<Rightarrow> None | Some None \<Rightarrow> Some (found, st)
         | Some (Some b) \<Rightarrow>
             (let entry = (\<lambda>j. sector_ptr tail b (offset + j));
                  first_lba = k_le64 (\<lambda>j. entry (32 + j));
                  last_lba = k_le64 (\<lambda>j. entry (40 + j))
              in if list_all (\<lambda>j. entry j = 0) [0..<16] \<or> last_lba < first_lba
                 then scan_gpt_entries tail dev entries_lba entry_size (Suc i) n found st
                 else case register_partition st dev (of_nat i + 1) first_lba (last_lba - first_lba + 1) of
                        (ok, st) \<Rightarrow> scan_gpt_entries tail dev entries_lba entry_size (Suc i) n
                                      (if ok then found + 1 else found) st))"

definition scan_gpt :: "ptr \<Rightarrow> storage \<Rightarrow> nat \<Rightarrow> (u32 \<times> storage) option" where
  "scan_gpt tail st dev =
     (case has_gpt tail st dev of None \<Rightarrow> None | Some None \<Rightarrow> Some (0, st)
      | Some (Some sector) \<Rightarrow>
          (let entries_lba = k_le64 (\<lambda>j. sector (72 + j));
               entry_count = k_le32 (\<lambda>j. sector (80 + j));
               entry_size = k_le32 (\<lambda>j. sector (84 + j))
           in if entry_size < 128 \<or> entry_size > 512 then Some (0, st)
              else scan_gpt_entries tail dev entries_lba entry_size 0 (unat entry_count) 0 st))"

definition partition_scan_device :: "ptr \<Rightarrow> storage \<Rightarrow> nat \<Rightarrow> (u32 \<times> storage) option" where
  "partition_scan_device tail st dev =
     (if dev = 0 \<or> is_partition (devs st dev) \<or> sector_size (devs st dev) \<noteq> 512 then Some (0, st)
      else case block_read st dev 0 1 of None \<Rightarrow> None | Some None \<Rightarrow> Some (0, st)
         | Some (Some b) \<Rightarrow>
             (let sector = sector_ptr tail b;
                  protective = sector 510 = 0x55 \<and> sector 511 = 0xAA \<and>
                    list_ex (\<lambda>i. sector (446 + i * 16 + 4) = 0xEE) [0, 1, 2, 3]
              in if protective then scan_gpt tail st dev else scan_mbr tail st dev))"

partial_function (option) scan_all_loop :: "ptr \<Rightarrow> storage \<Rightarrow> nat \<Rightarrow> u32 \<Rightarrow> (u32 \<times> storage) option" where
  "scan_all_loop tail st dev found =
     (if dev = 0 then Some (found, st)
      else let nxt = block_device_next st dev
           in case partition_scan_device tail st dev of None \<Rightarrow> None
              | Some (n, st) \<Rightarrow> scan_all_loop tail st nxt (found + n))"

declare scan_all_loop.simps [code]

definition partition_scan_all :: "ptr \<Rightarrow> storage \<Rightarrow> (u32 \<times> storage) option" where
  "partition_scan_all tail st = scan_all_loop tail st (block_device_first st) 0"

section \<open>The device registry\<close>

text \<open>
  \<open>registry st ds\<close>: the registered devices are the list \<open>ds\<close>, linked by \<open>next\<close> from \<open>first_device\<close>
  to \<open>last_device\<close> and counted by \<open>device_count\<close>; each is a disk, or a partition inside a registered
  disk.
\<close>

definition chained :: "storage \<Rightarrow> nat list \<Rightarrow> bool" where
  "chained st ds \<longleftrightarrow>
     (\<forall>k < length ds. next_dev (devs st (ds ! k)) = (if Suc k < length ds then ds ! Suc k else 0))"

definition registered_ok :: "storage \<Rightarrow> nat list \<Rightarrow> nat \<Rightarrow> bool" where
  "registered_ok st ds d \<longleftrightarrow> d \<noteq> 0 \<and> d < fresh_dev st \<and> sector_count (devs st d) \<noteq> 0 \<and>
     (if is_partition (devs st d) then \<exists>par \<in> set ds. \<exists>start. is_part st d par start
      else \<exists>i. is_disk st d i)"

definition registry :: "storage \<Rightarrow> nat list \<Rightarrow> bool" where
  "registry st ds \<longleftrightarrow> distinct ds \<and> chained st ds \<and> (\<forall>d \<in> set ds. registered_ok st ds d) \<and>
     first_device st = (if ds = [] then 0 else hd ds) \<and>
     (ds \<noteq> [] \<longrightarrow> last_device st = last ds) \<and>
     device_count st = of_nat (length ds) \<and> 0 < fresh_dev st"

text \<open>Registration touches nothing of a device but its \<open>next\<close> pointer.\<close>

definition same_devs :: "nat list \<Rightarrow> storage \<Rightarrow> storage \<Rightarrow> bool" where
  "same_devs ds st st' \<longleftrightarrow> disks st' = disks st \<and> fresh_dev st \<le> fresh_dev st' \<and>
     (\<forall>d \<in> set ds. \<exists>n. devs st' d = (devs st d)\<lparr>next_dev := n\<rparr>)"

lemma next_dev_same [simp]: "\<exists>n. d = d\<lparr>next_dev := n\<rparr>" for d :: block_device
  by (intro exI [of _ "next_dev d"]) simp

lemma same_devs_refl [simp]: "same_devs ds st st"
  by (simp add: same_devs_def)

lemma same_devsD:
  assumes "same_devs ds st st'" "d \<in> set ds"
  shows "read_fn (devs st' d) = read_fn (devs st d)" "write_fn (devs st' d) = write_fn (devs st d)"
    "sector_count (devs st' d) = sector_count (devs st d)" "is_partition (devs st' d) = is_partition (devs st d)"
    "sector_size (devs st' d) = sector_size (devs st d)"
  using assms by (auto simp: same_devs_def dest!: bspec)

lemma same_devs_trans:
  assumes "same_devs ds st st'" "same_devs ds' st' st''" "set ds \<subseteq> set ds'"
  shows "same_devs ds st st''"
  using assms by (fastforce simp: same_devs_def)

lemma registered_ok_same:
  assumes "same_devs ds st st'" "d \<in> set ds" "registered_ok st ds d" "set ds \<subseteq> set ds'"
  shows "registered_ok st' ds' d"
proof -
  note s = same_devsD [OF assms(1)]
  have f: "fresh_dev st \<le> fresh_dev st'" using assms(1) by (simp add: same_devs_def)
  show ?thesis
  proof (cases "is_partition (devs st d)")
    case True
    then obtain par start where p: "par \<in> set ds" "is_part st d par start"
      using assms(3) by (auto simp: registered_ok_def)
    then have "is_part st' d par start"
      using s [OF assms(2)] s [OF p(1)] by (simp add: is_part_def is_disk_def)
    then show ?thesis using p(1) assms f True s [OF assms(2)] by (auto simp: registered_ok_def)
  next
    case False
    then show ?thesis
      using assms s [OF assms(2)] f by (auto simp: registered_ok_def is_disk_def)
  qed
qed

lemma chained_snoc:
  assumes "chained st ds" "distinct (ds @ [d])"
    and "next_dev (devs st' d) = 0"
    and "ds \<noteq> [] \<Longrightarrow> next_dev (devs st' (last ds)) = d"
    and "\<And>e. e \<in> set (butlast ds) \<Longrightarrow> next_dev (devs st' e) = next_dev (devs st e)"
  shows "chained st' (ds @ [d])"
  unfolding chained_def
proof (intro allI impI)
  fix k assume k: "k < length (ds @ [d])"
  consider "k = length ds" | "Suc k = length ds" | "Suc k < length ds" using k by fastforce
  then show "next_dev (devs st' ((ds @ [d]) ! k)) = (if Suc k < length (ds @ [d]) then (ds @ [d]) ! Suc k else 0)"
  proof cases
    case 1
    then show ?thesis using assms(3) by simp
  next
    case 2
    then have "ds \<noteq> []" by auto
    moreover from this 2 have "ds ! k = last ds" by (metis diff_Suc_1 last_conv_nth)
    ultimately have "ds \<noteq> []" "ds ! k = last ds" by blast+
    then show ?thesis using 2 assms(4) by (simp add: nth_append)
  next
    case 3
    then have "ds ! k \<in> set (butlast ds)"
      by (metis Suc_lessE diff_Suc_1 in_set_conv_nth length_butlast less_diff_conv nth_butlast plus_1_eq_Suc add.commute Suc_lessD)
    then show ?thesis using 3 assms(1,5) by (simp add: nth_append chained_def)
  qed
qed

lemma block_device_register_ok:
  assumes "registry st ds" "dev \<notin> set ds" "registered_ok st (dev # ds) dev" "sector_size (devs st dev) \<noteq> 0"
  shows "\<exists>st'. block_device_register st dev = (True, st') \<and> registry st' (ds @ [dev]) \<and>
    same_devs (dev # ds) st st'"
proof -
  let ?d = "devs st"
  have R: "distinct ds" "chained st ds" "\<forall>d \<in> set ds. registered_ok st ds d"
    "first_device st = (if ds = [] then 0 else hd ds)" "ds \<noteq> [] \<longrightarrow> last_device st = last ds"
    "device_count st = of_nat (length ds)" "0 < fresh_dev st"
    using assms(1) by (auto simp: registry_def)
  have nz: "dev \<noteq> 0" "sector_count (?d dev) \<noteq> 0" "read_fn (?d dev) \<noteq> None"
    using assms(3) by (auto simp: registered_ok_def is_part_def is_disk_def split: if_splits)
  have hd0: "ds \<noteq> [] \<Longrightarrow> hd ds \<noteq> 0" using R(3) by (auto simp: registered_ok_def)
  define dv where "dv = (let f = ?d(dev := ?d dev\<lparr>next_dev := 0\<rparr>)
      in if ds = [] then f else f(last ds := f (last ds)\<lparr>next_dev := dev\<rparr>))"
  define st' where "st' = st\<lparr>devs := dv, first_device := (if ds = [] then dev else hd ds),
      last_device := dev, device_count := device_count st + 1\<rparr>"
  have r: "block_device_register st dev = (True, st')"
    using nz assms(4) R(4,5) hd0 by (auto simp: block_device_register_def st'_def dv_def Let_def)
  have ld: "ds \<noteq> [] \<Longrightarrow> last ds \<noteq> dev" using assms(2) by (metis last_in_set)
  have same: "same_devs (dev # ds) st st'"
  proof -
    have "\<exists>n. dv d = (?d d)\<lparr>next_dev := n\<rparr>" for d
    proof -
      have "dv d = ?d d\<lparr>next_dev := 0\<rparr> \<or> dv d = ?d d\<lparr>next_dev := dev\<rparr> \<or> dv d = ?d d"
        using ld by (cases "ds = []") (simp_all add: dv_def Let_def)
      then show ?thesis by (metis next_dev_same)
    qed
    then show ?thesis by (simp add: same_devs_def st'_def)
  qed
  have ch: "chained st' (ds @ [dev])"
  proof (rule chained_snoc [OF R(2)])
    show "distinct (ds @ [dev])" using R(1) assms(2) by simp
    show "next_dev (devs st' dev) = 0" using ld by (auto simp: st'_def dv_def Let_def)
    show "next_dev (devs st' (last ds)) = dev" if "ds \<noteq> []"
      using that by (simp add: st'_def dv_def Let_def)
    fix e assume e: "e \<in> set (butlast ds)"
    then have "e \<noteq> dev" "ds \<noteq> []" using assms(2) in_set_butlastD by fastforce+
    moreover have "e \<noteq> last ds"
      using e R(1) \<open>ds \<noteq> []\<close> by (metis append_butlast_last_id distinct_append disjoint_iff list.set_intros(1))
    ultimately show "next_dev (devs st' e) = next_dev (devs st e)"
      by (simp add: st'_def dv_def Let_def)
  qed
  have "registered_ok st' (ds @ [dev]) d" if "d \<in> set (dev # ds)" for d
  proof (rule registered_ok_same [OF same that])
    show "registered_ok st (dev # ds) d"
      using that assms(3) R(3) by (auto simp: registered_ok_def split: if_splits)
  qed auto
  then have "registry st' (ds @ [dev])"
    using R ch assms(2) by (simp add: registry_def st'_def)
  then show ?thesis using r same by blast
qed

lemma kalloc_fields:
  assumes "kalloc st = (ok, st')"
  shows "st' = st\<lparr>alloc_ok := alloc_ok st'\<rparr>"
  using assms by (auto simp: kalloc_def split: list.splits)

lemma registry_alloc:
  assumes "registry st ds"
  shows "registry (st\<lparr>alloc_ok := a\<rparr>) ds" "same_devs ds st (st\<lparr>alloc_ok := a\<rparr>)"
proof -
  show s: "same_devs ds st (st\<lparr>alloc_ok := a\<rparr>)"
    by (simp add: same_devs_def)
  show "registry (st\<lparr>alloc_ok := a\<rparr>) ds"
    using assms registered_ok_same [OF s] by (simp add: registry_def chained_def)
qed

lemma registry_fresh:
  assumes "registry st ds" "dev = fresh_dev st"
  shows "registry (st\<lparr>devs := (devs st)(dev := d), fresh_dev := Suc dev, alloc_ok := a\<rparr>) ds \<and> dev \<notin> set ds \<and> dev \<noteq> 0 \<and>
    same_devs ds st (st\<lparr>devs := (devs st)(dev := d), fresh_dev := Suc dev, alloc_ok := a\<rparr>)"
proof -
  let ?st = "st\<lparr>devs := (devs st)(dev := d), fresh_dev := Suc dev, alloc_ok := a\<rparr>"
  have n: "dev \<notin> set ds" using assms by (auto simp: registry_def registered_ok_def)
  have s: "same_devs ds st ?st"
    using n assms(2) by (auto simp: same_devs_def)
  have "ds ! k \<noteq> dev" if "k < length ds" for k using n that nth_mem by blast
  then have "chained ?st ds" using assms(1) by (simp add: registry_def chained_def)
  then show ?thesis
    using assms registered_ok_same [OF s] n s by (auto simp: registry_def)
qed

lemma register_partition_ok:
  assumes "registry st ds" "par \<in> set ds" "\<not> is_partition (devs st par)" "sector_size (devs st par) \<noteq> 0"
    and "register_partition st par index start count = (ok, st')"
  shows "\<exists>ps. registry st' (ds @ ps) \<and> same_devs ds st st' \<and> length ps = (if ok then 1 else 0) \<and>
    (\<forall>p \<in> set ps. is_part st' p par start \<and> is_partition (devs st' p) \<and> sector_count (devs st' p) = count)"
proof -
  let ?P = "devs st par"
  let ?R = "\<lambda>ok st' ps. registry st' (ds @ ps) \<and> same_devs ds st st' \<and> length ps = (if ok then 1 else 0) \<and>
    (\<forall>p \<in> set ps. is_part st' p par start \<and> is_partition (devs st' p) \<and> sector_count (devs st' p) = count)"
  have "registered_ok st ds par" using assms(1,2) by (simp add: registry_def)
  then obtain i where i: "is_disk st par i" and p0: "par \<noteq> 0"
    using assms(3) by (auto simp: registered_ok_def)
  show ?thesis
  proof (cases "start = 0 \<or> count = 0 \<or> start \<ge> sector_count ?P \<or> count > sector_count ?P - start")
    case True
    then have "ok = False" "st' = st" using assms(5) p0 by (auto simp: register_partition_def split: if_splits)
    then have "?R ok st' []" using assms(1) by simp
    then show ?thesis by blast
  next
    case g: False
    obtain b1 s1 where k1: "kalloc st = (b1, s1)" by force
    note f1 = kalloc_fields [OF k1]
    show ?thesis
    proof (cases b1)
      case False
      then have "ok = False" "st' = s1"
        using assms(5) g k1 p0 by (auto simp: register_partition_def block_device_alloc_def)
      then have "?R ok st' []" using registry_alloc [OF assms(1), of "alloc_ok s1"] f1 by simp
      then show ?thesis by blast
    next
      case b1: True
      let ?dev = "fresh_dev st"
      have fr: "fresh_dev s1 = ?dev" "devs s1 = devs st" by (subst f1, simp)+
      let ?s2 = "s1\<lparr>devs := (devs s1)(?dev := blank_device\<lparr>sector_size := 512\<rparr>), fresh_dev := Suc ?dev\<rparr>"
      obtain b3 s3 where k3: "kalloc ?s2 = (b3, s3)" by force
      note f3 = kalloc_fields [OF k3]
      have d0: "?dev \<noteq> 0" and dn: "?dev \<notin> set ds" using registry_fresh [OF assms(1) refl] by blast+
      have ba: "block_device_alloc st = (?dev, ?s2)" using k1 b1 fr by (simp add: block_device_alloc_def)
      obtain a where s3: "s3 = st\<lparr>devs := (devs st)(?dev := blank_device\<lparr>sector_size := 512\<rparr>),
          fresh_dev := Suc ?dev, alloc_ok := a\<rparr>"
      proof
        show "s3 = st\<lparr>devs := (devs st)(?dev := blank_device\<lparr>sector_size := 512\<rparr>),
            fresh_dev := Suc ?dev, alloc_ok := alloc_ok s3\<rparr>"
          by (subst f3, subst f1) (simp add: fr)
      qed
      show ?thesis
      proof (cases b3)
        case False
        then have "ok = False" "st' = s3"
          using assms(5) g ba k3 d0 p0 by (auto simp: register_partition_def)
        then have "?R ok st' []"
          using registry_fresh [OF assms(1) refl, of a "blank_device\<lparr>sector_size := 512\<rparr>"]
          by (simp only: s3 [symmetric]) simp
        then show ?thesis by blast
      next
        case b3: True
        have pd: "par \<noteq> ?dev" using dn assms(2) by blast
        define d where "d = (devs s3 ?dev)\<lparr>bname := partition_name (bname ?P) index,
            sector_size := sector_size ?P, sector_count := count, is_partition := True,
            parent := par, parent_lba := start, read_fn := Some (Partition_fn par start),
            write_fn := (if write_fn ?P \<noteq> None then Some (Partition_fn par start) else None)\<rparr>"
        define s4 where "s4 = st\<lparr>devs := (devs st)(?dev := d), fresh_dev := Suc ?dev, alloc_ok := a\<rparr>"
        have dv3: "devs s3 par = ?P" using pd by (simp add: s3)
        have s34: "s3\<lparr>devs := (devs s3)(?dev := d)\<rparr> = s4" by (simp add: s4_def s3)
        have br: "block_device_register s4 ?dev = (ok, st')"
          using assms(5) g ba k3 d0 p0 b3 s34 by (simp add: register_partition_def dv3 d_def Let_def)
        have r4: "registry s4 ds" "same_devs ds st s4"
          using registry_fresh [OF assms(1) refl] by (auto simp: s4_def)
        have "unat start + unat count \<le> unat (sector_count ?P)"
          using g unat_sub [of start "sector_count ?P"] by (auto simp: word_le_nat_alt word_less_nat_alt not_le)
        then have isp: "is_part s4 ?dev par start"
          using i pd d0 by (auto simp: is_part_def is_disk_def s4_def d_def)
        then have "registered_ok s4 (?dev # ds) ?dev"
          using assms(2) d0 g by (auto simp: registered_ok_def s4_def d_def)
        moreover have "sector_size (devs s4 ?dev) \<noteq> 0" using assms(4) by (simp add: s4_def d_def)
        ultimately obtain st'' where st'': "block_device_register s4 ?dev = (True, st'')"
          "registry st'' (ds @ [?dev])" "same_devs (?dev # ds) s4 st''"
          using block_device_register_ok [OF r4(1) dn] by blast
        have e: "ok" "st'' = st'" using st''(1) br by auto
        have same: "same_devs ds st st'"
          by (rule same_devs_trans [OF r4(2) st''(3) [unfolded e(2)]]) auto
        have "is_part st' ?dev par start"
          using isp same_devsD [OF st''(3), of ?dev] same_devsD [OF st''(3), of par] assms(2) e(2)
          by (simp add: is_part_def is_disk_def)
        moreover have "is_partition (devs st' ?dev)" "sector_count (devs st' ?dev) = count"
          using same_devsD [OF st''(3), of ?dev] e(2) by (simp_all add: s4_def d_def)
        ultimately have "?R ok st' [?dev]" using e same st''(2) by simp
        then show ?thesis by blast
      qed
    qed
  qed
qed

text \<open>The registry has grown by the partitions \<open>ps\<close> of the disks \<open>P\<close>.\<close>

definition grown :: "nat set \<Rightarrow> storage \<Rightarrow> nat list \<Rightarrow> storage \<Rightarrow> nat list \<Rightarrow> bool" where
  "grown P st ds st' ps \<longleftrightarrow> registry st' (ds @ ps) \<and> same_devs ds st st' \<and>
     (\<forall>p \<in> set ps. is_partition (devs st' p) \<and> (\<exists>par \<in> P. \<exists>start. is_part st' p par start))"

lemma grown_refl: "registry st ds \<Longrightarrow> grown P st ds st []"
  by (simp add: grown_def)

lemma is_part_same:
  assumes "same_devs ds st st'" "p \<in> set ds" "par \<in> set ds" "is_part st p par start"
  shows "is_part st' p par start"
  using assms(4) same_devsD [OF assms(1,2)] same_devsD [OF assms(1,3)] by (simp add: is_part_def is_disk_def)

lemma grown_trans:
  assumes "grown P st ds st1 ps1" "grown P st1 (ds @ ps1) st2 ps2" "P \<subseteq> set ds"
  shows "grown P st ds st2 (ps1 @ ps2)"
proof -
  have s: "same_devs (ds @ ps1) st1 st2" using assms(2) by (simp add: grown_def)
  have "is_partition (devs st2 p) \<and> (\<exists>par \<in> P. \<exists>start. is_part st2 p par start)" if p: "p \<in> set ps1" for p
  proof -
    obtain par start where "par \<in> P" "is_part st1 p par start" "is_partition (devs st1 p)"
      using assms(1) p by (auto simp: grown_def)
    then show ?thesis
      using is_part_same [OF s, of p par start] same_devsD(4) [OF s, of p] p assms(3) by auto
  qed
  moreover have "same_devs ds st st2"
    using assms(1) by (auto simp: grown_def intro: same_devs_trans [OF _ s])
  ultimately show ?thesis using assms(2) by (auto simp: grown_def)
qed

lemma grown_register:
  assumes "registry st ds" "par \<in> set ds" "\<not> is_partition (devs st par)" "sector_size (devs st par) \<noteq> 0"
    and "register_partition st par index start count = (ok, st')"
  shows "\<exists>ps. grown {par} st ds st' ps \<and> length ps = (if ok then 1 else 0)"
  using register_partition_ok [OF assms] by (fastforce simp: grown_def)

lemma grown_parent:
  assumes "grown P st ds st' ps" "par \<in> set ds"
  shows "is_partition (devs st' par) = is_partition (devs st par)" "sector_size (devs st' par) = sector_size (devs st par)"
  using assms same_devsD [of ds st st' par] by (auto simp: grown_def)

text \<open>A registry on which one more entry is tried, and the rest of a scan after it.\<close>

lemma grown_step:
  assumes "registry st ds" "par \<in> set ds" "\<not> is_partition (devs st par)" "sector_size (devs st par) \<noteq> 0"
    and "register_partition st par index start count = (ok, st1)"
    and "\<And>ds1 f. registry st1 ds1 \<Longrightarrow> par \<in> set ds1 \<Longrightarrow> \<not> is_partition (devs st1 par) \<Longrightarrow>
      sector_size (devs st1 par) \<noteq> 0 \<Longrightarrow>
      \<exists>ps st2. R (if ok then found + 1 else found) st1 = Some (found + of_nat (if ok then 1 else 0) + of_nat (length ps), st2) \<and>
        grown {par} st1 ds1 st2 ps"
  shows "\<exists>ps st2. R (if ok then found + 1 else found) st1 = Some (found + of_nat (length ps) :: u32, st2) \<and>
     grown {par} st ds st2 ps"
proof -
  obtain ps1 where g: "grown {par} st ds st1 ps1" "length ps1 = (if ok then 1 else 0)"
    using grown_register [OF assms(1-5)] by blast
  have "registry st1 (ds @ ps1)" using g(1) by (simp add: grown_def)
  then obtain ps st2 where r: "R (if ok then found + 1 else found) st1 =
      Some (found + of_nat (if ok then 1 else 0) + of_nat (length ps), st2)" "grown {par} st1 (ds @ ps1) st2 ps"
    using assms(6) [of "ds @ ps1"] assms(2-4) grown_parent [OF g(1) assms(2)] by auto
  then have "grown {par} st ds st2 (ps1 @ ps)" using grown_trans [OF g(1)] assms(2) by simp
  moreover have "found + of_nat (if ok then 1 else 0) + of_nat (length ps) = found + of_nat (length (ps1 @ ps))"
    using g(2) by simp
  ultimately show ?thesis using r(1) by metis
qed

lemma scan_mbr_entries_ok:
  assumes "registry st ds" "dev \<in> set ds" "\<not> is_partition (devs st dev)" "sector_size (devs st dev) \<noteq> 0"
  shows "\<exists>ps st'. Some (scan_mbr_entries sector dev is found st) = Some (found + of_nat (length ps), st') \<and>
     grown {dev} st ds st' ps"
  using assms
proof (induction "is" arbitrary: found st ds)
  case Nil
  then show ?case using grown_refl [OF Nil.prems(1)] by (intro exI [of _ "[]"]) simp
next
  case (Cons i "is")
  let ?entry = "\<lambda>j. sector (446 + i * 16 + j)"
  let ?start = "k_le32 (\<lambda>j. ?entry (8 + j))" and ?count = "k_le32 (\<lambda>j. ?entry (12 + j))"
  show ?case
  proof (cases "?entry 4 = 0 \<or> ?count = 0")
    case True
    then have "scan_mbr_entries sector dev (i # is) found st = scan_mbr_entries sector dev is found st"
      by (simp only: scan_mbr_entries.simps Let_def if_True)
    then show ?thesis using Cons.IH [OF Cons.prems] by simp
  next
    case False
    obtain ok st1 where r: "register_partition st dev (of_nat i + 1) (ucast ?start) (ucast ?count) = (ok, st1)"
      by force
    have "scan_mbr_entries sector dev (i # is) found st =
        scan_mbr_entries sector dev is (if ok then found + 1 else found) st1"
      using False by (simp only: scan_mbr_entries.simps Let_def if_False r prod.case)
    moreover have "\<exists>ps st'. Some (scan_mbr_entries sector dev is (if ok then found + 1 else found) st1) =
        Some (found + of_nat (length ps), st') \<and> grown {dev} st ds st' ps"
      by (rule grown_step [OF Cons.prems r, where R = "\<lambda>f s. Some (scan_mbr_entries sector dev is f s)"])
        (use Cons.IH in \<open>cases ok; simp\<close>)
    ultimately show ?thesis by simp
  qed
qed

lemma scan_gpt_entries_ok:
  assumes "registry st ds" "dev \<in> set ds" "\<not> is_partition (devs st dev)" "sector_size (devs st dev) \<noteq> 0"
  shows "\<exists>ps st'. scan_gpt_entries tail dev el es i n found st = Some (found + of_nat (length ps), st') \<and>
     grown {dev} st ds st' ps"
  using assms
proof (induction n arbitrary: i found st ds)
  case 0
  then show ?case using grown_refl [OF 0(1)] by (intro exI [of _ "[]"]) simp
next
  case (Suc n)
  let ?pos = "of_nat i * ucast es :: u64"
  let ?lba = "el + ?pos div ucast (sector_size (devs st dev))"
  let ?off = "unat (?pos mod ucast (sector_size (devs st dev)))"
  have "registered_ok st ds dev" using Suc.prems(1,2) by (simp add: registry_def)
  then have "dev_ok st dev" using Suc.prems(3) by (auto simp: registered_ok_def dev_ok_def)
  then obtain x where x: "block_read st dev ?lba 1 = Some x" using block_read_dev by blast
  show ?case
  proof (cases x)
    case None
    then show ?thesis
      using x grown_refl [OF Suc.prems(1)] by (intro exI [of _ "[]"]) (simp add: Let_def)
  next
    case (Some b)
    let ?entry = "\<lambda>j. sector_ptr tail b (?off + j)"
    let ?first = "k_le64 (\<lambda>j. ?entry (32 + j))" and ?last = "k_le64 (\<lambda>j. ?entry (40 + j))"
    show ?thesis
    proof (cases "list_all (\<lambda>j. ?entry j = 0) [0..<16] \<or> ?last < ?first")
      case True
      then have "scan_gpt_entries tail dev el es i (Suc n) found st = scan_gpt_entries tail dev el es (Suc i) n found st"
        using x Some by (simp only: scan_gpt_entries.simps Let_def option.case if_True)
      then show ?thesis using Suc.IH [OF Suc.prems] by simp
    next
      case False
      obtain ok st1 where r: "register_partition st dev (of_nat i + 1) ?first (?last - ?first + 1) = (ok, st1)"
        by force
      have "scan_gpt_entries tail dev el es i (Suc n) found st =
          scan_gpt_entries tail dev el es (Suc i) n (if ok then found + 1 else found) st1"
        using x Some False by (simp only: scan_gpt_entries.simps Let_def option.case if_False r prod.case)
      moreover have "\<exists>ps st'. scan_gpt_entries tail dev el es (Suc i) n (if ok then found + 1 else found) st1 =
          Some (found + of_nat (length ps), st') \<and> grown {dev} st ds st' ps"
        by (rule grown_step [OF Suc.prems r, where R = "scan_gpt_entries tail dev el es (Suc i) n"])
          (use Suc.IH in \<open>cases ok; simp\<close>)
      ultimately show ?thesis by simp
    qed
  qed
qed

lemma partition_scan_device_ok:
  assumes "registry st ds" "dev \<in> set ds"
  shows "\<exists>ps st'. partition_scan_device tail st dev = Some (of_nat (length ps), st') \<and>
     grown {d \<in> set ds. \<not> is_partition (devs st d)} st ds st' ps \<and> (is_partition (devs st dev) \<longrightarrow> ps = [])"
proof (cases "is_partition (devs st dev) \<or> sector_size (devs st dev) \<noteq> 512")
  case True
  then show ?thesis
    using grown_refl [OF assms(1)] by (intro exI [of _ "[]"] exI [of _ st]) (auto simp: partition_scan_device_def)
next
  case False
  have "registered_ok st ds dev" using assms by (simp add: registry_def)
  then have ok: "dev_ok st dev" "dev \<noteq> 0" using False by (auto simp: registered_ok_def dev_ok_def)
  have b: "\<exists>x. block_read st dev lba n = Some x" for lba n using block_read_dev [OF ok(1)] by blast
  have nil: "\<exists>ps st'. Some (0, st) = Some (of_nat (length ps), st') \<and> grown {dev} st ds st' ps"
    using grown_refl [OF assms(1)] by (intro exI [of _ "[]"]) simp
  have s: "\<not> is_partition (devs st dev)" "sector_size (devs st dev) \<noteq> 0" using False by auto
  have mbr: "\<exists>ps st'. scan_mbr tail st dev = Some (of_nat (length ps), st') \<and> grown {dev} st ds st' ps"
  proof -
    obtain x where "block_read st dev 0 1 = Some x" using b by blast
    then show ?thesis
      using nil scan_mbr_entries_ok [OF assms s, where found = 0]
      by (cases x) (auto simp: scan_mbr_def Let_def simp del: scan_mbr_entries.simps)
  qed
  have gpt: "\<exists>ps st'. scan_gpt tail st dev = Some (of_nat (length ps), st') \<and> grown {dev} st ds st' ps"
  proof -
    obtain x where "block_read st dev 1 1 = Some x" using b by blast
    then show ?thesis
      using nil scan_gpt_entries_ok [OF assms s, where found = 0]
      by (cases x) (auto simp: scan_gpt_def has_gpt_def Let_def)
  qed
  obtain x where x: "block_read st dev 0 1 = Some x" using b by blast
  have "\<exists>ps st'. partition_scan_device tail st dev = Some (of_nat (length ps), st') \<and> grown {dev} st ds st' ps"
    using nil mbr gpt x False ok(2) by (cases x) (simp_all add: partition_scan_device_def Let_def)
  moreover have "grown {dev} st ds st' ps \<Longrightarrow> grown {d \<in> set ds. \<not> is_partition (devs st d)} st ds st' ps" for st' ps
    using assms(2) s(1) by (auto simp: grown_def)
  ultimately show ?thesis using s(1) by blast
qed


lemma registry_next:
  assumes "registry st (xs @ d # ys)"
  shows "block_device_next st d = (case ys of [] \<Rightarrow> 0 | y # _ \<Rightarrow> y)"
proof -
  have "registered_ok st (xs @ d # ys) d" using assms by (simp add: registry_def)
  then have "d \<noteq> 0" by (simp add: registered_ok_def)
  moreover have "next_dev (devs st ((xs @ d # ys) ! length xs)) =
      (if Suc (length xs) < length (xs @ d # ys) then (xs @ d # ys) ! Suc (length xs) else 0)"
    using assms unfolding registry_def chained_def by (metis length_append length_Cons less_add_Suc1 add_Suc_right)
  ultimately show ?thesis by (cases ys) (simp_all add: block_device_next_def nth_append)
qed

definition raws :: "storage \<Rightarrow> nat list \<Rightarrow> nat" where
  "raws st ds = length (filter (\<lambda>d. \<not> is_partition (devs st d)) ds)"

lemma raws_same: "same_devs ds st st' \<Longrightarrow> set ys \<subseteq> set ds \<Longrightarrow> raws st' ys = raws st ys"
  unfolding raws_def by (rule arg_cong [where f = length], rule filter_cong) (auto dest: same_devsD(4))

text \<open>
  The scan reaches the end of the list although the list grows while it runs: only disks add
  devices, and what they add are partitions.
\<close>

lemma scan_all_loop_ok:
  assumes "registry st (xs @ ys)"
  shows "\<exists>ps st'. scan_all_loop tail st (case ys of [] \<Rightarrow> 0 | y # _ \<Rightarrow> y) found = Some (found + of_nat (length ps), st') \<and>
     grown {d \<in> set (xs @ ys). \<not> is_partition (devs st d)} st (xs @ ys) st' ps"
  using assms
proof (induction "(raws st ys, length ys)" arbitrary: st xs ys found rule: wf_induct_rule [OF wf_lex_prod [OF wf_less_than wf_less_than]])
  case 1
  show ?case
  proof (cases ys)
    case Nil
    then show ?thesis
      using grown_refl 1(2) by (subst scan_all_loop.simps) (intro exI [of _ "[]"], simp)
  next
    case (Cons y zs)
    let ?P = "{d \<in> set (xs @ ys). \<not> is_partition (devs st d)}"
    have "registered_ok st (xs @ ys) y" using 1(2) Cons by (simp add: registry_def)
    then have y0: "y \<noteq> 0" by (simp add: registered_ok_def)
    obtain ps1 st1 where d: "partition_scan_device tail st y = Some (of_nat (length ps1), st1)"
      "grown ?P st (xs @ ys) st1 ps1" "is_partition (devs st y) \<longrightarrow> ps1 = []"
      using partition_scan_device_ok [OF 1(2), of y tail] Cons by auto
    have same: "same_devs (xs @ ys) st st1" using d(2) by (simp add: grown_def)
    have step: "scan_all_loop tail st y found =
        scan_all_loop tail st1 (case zs of [] \<Rightarrow> 0 | z # _ \<Rightarrow> z) (found + of_nat (length ps1))"
      using registry_next [of st xs y zs] 1(2) Cons y0 d(1) by (subst scan_all_loop.simps) (simp add: Let_def)
    show ?thesis
    proof (cases zs)
      case Nil
      then have "scan_all_loop tail st y found = Some (found + of_nat (length ps1), st1)"
        using step by (simp add: scan_all_loop.simps)
      then show ?thesis using d(2) Cons by auto
    next
      case (Cons z zs')
      have r1: "registry st1 ((xs @ [y]) @ (zs @ ps1))" using d(2) \<open>ys = y # zs\<close> by (simp add: grown_def)
      have rz: "raws st1 zs = raws st zs" by (rule raws_same [OF same]) (auto simp: \<open>ys = y # zs\<close>)
      have "raws st1 ps1 = 0" using d(2) by (auto simp: raws_def grown_def filter_empty_conv)
      then have ra: "raws st1 (zs @ ps1) = raws st zs" using rz by (simp add: raws_def)
      have dec: "((raws st1 (zs @ ps1), length (zs @ ps1)), raws st ys, length ys) \<in> less_than <*lex*> less_than"
        using ra d(3) \<open>ys = y # zs\<close> by (auto simp: raws_def)
      obtain ps2 st2 where i: "scan_all_loop tail st1 (case zs @ ps1 of [] \<Rightarrow> 0 | z # _ \<Rightarrow> z)
            (found + of_nat (length ps1)) = Some (found + of_nat (length ps1) + of_nat (length ps2), st2)"
          "grown {d \<in> set ((xs @ [y]) @ (zs @ ps1)). \<not> is_partition (devs st1 d)} st1 ((xs @ [y]) @ (zs @ ps1)) st2 ps2"
        using 1(1) [OF dec r1] by blast
      have P1: "{d \<in> set ((xs @ [y]) @ (zs @ ps1)). \<not> is_partition (devs st1 d)} = ?P"
        using same_devsD(4) [OF same] d(2) \<open>ys = y # zs\<close> by (auto simp: grown_def)
      have "grown ?P st (xs @ ys) st2 (ps1 @ ps2)"
        using i(2) P1 \<open>ys = y # zs\<close> by (intro grown_trans [OF d(2)]) auto
      moreover have "scan_all_loop tail st y found = Some (found + of_nat (length (ps1 @ ps2)), st2)"
        using step i(1) Cons by (simp add: add.assoc)
      ultimately show ?thesis
        using \<open>ys = y # zs\<close> by (intro exI [of _ "ps1 @ ps2"] exI [of _ st2]) simp
    qed
  qed
qed

section \<open>Properties\<close>

text \<open>
  C17: \<open>partition_scan_all\<close> on a well-formed registry returns, whatever the disks hold. It returns
  the number of partitions it found, registers exactly these behind the devices already known, leaves
  the disks and the other devices alone, and every partition lies inside the disk it was found on.
\<close>

theorem partition_scan_all_ok:
  assumes "registry st ds"
  shows "\<exists>ps st'. partition_scan_all tail st = Some (of_nat (length ps), st') \<and> registry st' (ds @ ps) \<and>
     same_devs ds st st' \<and>
     (\<forall>p \<in> set ps. \<exists>par \<in> set ds. \<exists>start. is_part st' p par start \<and>
        unat start + unat (sector_count (devs st' p)) \<le> unat (sector_count (devs st par)))"
proof -
  obtain ps st' where r: "scan_all_loop tail st (case ds of [] \<Rightarrow> 0 | y # _ \<Rightarrow> y) 0 = Some (0 + of_nat (length ps), st')"
      "grown {d \<in> set ([] @ ds). \<not> is_partition (devs st d)} st ([] @ ds) st' ps"
    using scan_all_loop_ok [of st "[]" ds tail 0] assms by auto
  have "block_device_first st = (case ds of [] \<Rightarrow> 0 | y # _ \<Rightarrow> y)"
    using assms by (cases ds) (simp_all add: block_device_first_def registry_def)
  then have s: "partition_scan_all tail st = Some (of_nat (length ps), st')"
    using r(1) by (simp add: partition_scan_all_def)
  have "\<exists>par \<in> set ds. \<exists>start. is_part st' p par start \<and>
      unat start + unat (sector_count (devs st' p)) \<le> unat (sector_count (devs st par))" if "p \<in> set ps" for p
  proof -
    obtain par start where "par \<in> set ds" "is_part st' p par start" using r(2) \<open>p \<in> set ps\<close> by (auto simp: grown_def)
    moreover from this r(2) have "sector_count (devs st' par) = sector_count (devs st par)"
      using same_devsD(3) [of ds st st' par] by (simp add: grown_def)
    ultimately show ?thesis by (auto simp: is_part_def)
  qed
  then show ?thesis using s r(2) by (auto simp: grown_def)
qed

text \<open>A machine with one empty disk of 64 sectors.\<close>

definition one_disk :: storage where
  "one_disk = \<lparr>disks = \<lambda>_. \<lparr>content = \<lambda>_. replicate 512 0, rfault = \<lambda>_. False, wfault = \<lambda>_. False\<rparr>,
     devs = \<lambda>_. blank_device\<lparr>bname := str ''ide0m'', sector_size := 512, sector_count := 64,
        read_fn := Some (Driver_fn 0), write_fn := Some (Driver_fn 0)\<rparr>,
     fresh_dev = 2, first_device = 1, last_device = 1, device_count = 1, alloc_ok = []\<rparr>"

lemma one_disk_registry: "registry one_disk [1]"
proof -
  have "is_disk one_disk 1 0" by (simp add: is_disk_def one_disk_def blank_device_def)
  then have "registered_ok one_disk [1] 1"
    unfolding registered_ok_def by (auto simp: one_disk_def blank_device_def)
  then show ?thesis by (simp add: registry_def chained_def one_disk_def blank_device_def)
qed

theorem partition_scan_all_ok_witness:
  "\<exists>ps st'. partition_scan_all (\<lambda>_. 0) one_disk = Some (of_nat (length ps), st') \<and> registry st' ([1] @ ps)"
  using partition_scan_all_ok [OF one_disk_registry, of "\<lambda>_. 0"] by blast

text \<open>
  C9: a write to a partition changes no sector of its disk outside the partition and no other disk,
  whatever sector numbers and counts the caller passes, and it returns.
\<close>

theorem partition_write_confined:
  assumes "is_part st dev par start"
  shows "\<exists>ok st'. block_write st dev lba count b = Some (ok, st') \<and> devs st' = devs st \<and>
    (\<forall>i x. content (disks st' i) x \<noteq> content (disks st i) x \<longrightarrow>
       i = dev_disk st par \<and> unat start \<le> unat x \<and> unat x < unat start + unat (sector_count (devs st dev)))"
proof -
  have ok: "dev_ok st dev" using assms by (auto simp: dev_ok_def)
  note m = dev_map_part [OF assms]
  show ?thesis
  proof (cases "write_fn (devs st dev) \<noteq> None \<and> in_dev st dev lba count")
    case True
    let ?i = "dev_disk st par"
    obtain r d where w: "disk_write (disks st ?i) (start + lba) (unat count) b = (r, d)" by force
    have e: "block_write st dev lba count b = Some (r, st\<lparr>disks := (disks st)(?i := d)\<rparr>)"
      using block_write_dev [OF ok, of lba count b] True m w by simp
    have "unat start \<le> unat x \<and> unat x < unat start + unat (sector_count (devs st dev))"
      if c: "content d x \<noteq> content (disks st ?i) x" for x
    proof -
      obtain k where k: "k < unat count" "x = start + lba + of_nat k"
        using disk_write_outside [OF w, of x] c by blast
      have b: "unat start + unat lba + unat count \<le> unat start + unat (sector_count (devs st dev))"
        "unat start + unat (sector_count (devs st dev)) \<le> unat (sector_count (devs st par))"
        using True assms by (simp_all add: in_dev_def is_part_def)
      then have "unat start + unat lba + k < 2 ^ LENGTH(64)"
        using k(1) unsigned_less [of "sector_count (devs st par)", where 'a = nat] by simp
      then have "unat (of_nat (unat start + unat lba + k) :: u64) = unat start + unat lba + k"
        by (rule unat_of_nat_small)
      moreover have "x = of_nat (unat start + unat lba + k)" using k(2) by simp
      ultimately have "unat x = unat start + unat lba + k" by (simp only:)
      then show ?thesis using b k(1) by linarith
    qed
    then show ?thesis using e by auto
  next
    case False
    then show ?thesis using block_write_dev [OF ok, of lba count b] by auto
  qed
qed

theorem partition_write_confined_witness:
  "let st = snd (register_partition one_disk 1 1 8 16); b = replicate 512 1
   in \<exists>ok st'. block_write st 2 3 1 b = Some (ok, st') \<and> content (disks st' 0) 4 = content (disks st 0) 4"
proof -
  let ?st = "snd (register_partition one_disk 1 1 8 16)"
  have "is_part ?st 2 1 8"
    by (simp add: register_partition_def one_disk_def block_device_alloc_def kalloc_def blank_device_def
        block_device_register_def Let_def is_part_def is_disk_def)
  from partition_write_confined [OF this, of 3 1 "replicate 512 1"] show ?thesis
    unfolding Let_def by (auto 4 3 dest: spec [of _ 0])
qed

end
