(* ===== verification/Fat32_Names.thy ===== *)
theory Fat32_Names
  imports Mem_Lib
begin

text \<open>
  File names in \<^verbatim>\<open>fs/fat32.c\<close>: 8.3 names and their encoding in a directory entry, long file name
  (LFN) parts of 13 UTF-16 characters, the case-insensitive comparison, and the splitting of a path
  into components. A C string is the list of its bytes; a directory entry that is read is a pointer,
  one that is written is the list of its 32 bytes.
\<close>

section \<open>Definitions\<close>

definition upc :: "u8 \<Rightarrow> u8" where
  "upc c = (if c \<ge> 0x61 \<and> c \<le> 0x7A then c - 0x61 + 0x41 else c)"

fun short_part :: "ptr \<Rightarrow> nat \<Rightarrow> nat \<Rightarrow> nat \<Rightarrow> nat \<Rightarrow> u8 list" where
  "short_part e i 0 pos out_size = []"
| "short_part e i (Suc n) pos out_size =
     (if pos + 1 < out_size then
        (if e i = 0x20 then [] else upc (e i) # short_part e (Suc i) n (pos + 1) out_size)
      else [])"

definition build_short_name :: "ptr \<Rightarrow> nat \<Rightarrow> cstring" where
  "build_short_name entry out_size =
     (let a = short_part entry 0 8 0 out_size;
          b = (if entry 8 \<noteq> 0x20 then
                 (let d = (if length a + 1 < out_size then [0x2E] else [])
                  in d @ short_part entry 8 3 (length a + length d) out_size)
               else [])
      in buf_str (a @ b))"

definition lfn_off :: "nat \<Rightarrow> nat" where
  "lfn_off i = (if i < 5 then 1 + 2 * i else if i < 11 then 14 + 2 * (i - 5) else 28 + 2 * (i - 11))"

fun lfn_parse_loop :: "ptr \<Rightarrow> nat \<Rightarrow> nat \<Rightarrow> cstring" where
  "lfn_parse_loop e i 0 = []"
| "lfn_parse_loop e i (Suc n) =
     (let off = lfn_off i;
          ch = (ucast (e off) OR push_bit 8 (ucast (e (off + 1))) :: u16)
      in if ch = 0 \<or> ch = 0xFFFF then []
         else (if e (off + 1) = 0 then e off else 0x3F) # lfn_parse_loop e (Suc i) n)"

definition lfn_parse_part :: "ptr \<Rightarrow> cstring" where
  "lfn_parse_part e = lfn_parse_loop e 0 13"

text \<open>The accumulator of LFN parts: sequence number and characters, \<open>count\<close> is the length.\<close>

type_synonym lfn_acc = "(u8 \<times> cstring) list"

definition lfn_reset :: lfn_acc where
  "lfn_reset = []"

definition lfn_add_part :: "lfn_acc \<Rightarrow> ptr \<Rightarrow> lfn_acc" where
  "lfn_add_part a e = (if length a \<ge> 20 then lfn_reset else a @ [(e 0 AND 0x3F, lfn_parse_part e)])"

fun lfn_join :: "lfn_acc \<Rightarrow> nat list \<Rightarrow> nat \<Rightarrow> cstring \<Rightarrow> cstring" where
  "lfn_join a [] out_size out = out"
| "lfn_join a (s # ss) out_size out =
     (case find (\<lambda>p. unat (fst p) = s) a of
        None \<Rightarrow> lfn_join a ss out_size out
      | Some p \<Rightarrow> lfn_join a ss out_size (out @ take (out_size - 1 - length out) (snd p)))"

definition lfn_assemble :: "lfn_acc \<Rightarrow> nat \<Rightarrow> cstring" where
  "lfn_assemble a out_size = lfn_join a [1..<Suc (length a)] out_size []"

fun name_matches :: "cstring \<Rightarrow> cstring \<Rightarrow> bool" where
  "name_matches (a # as) (b # bs) = (if upc a \<noteq> upc b then False else name_matches as bs)"
| "name_matches as bs = (as = [] \<and> bs = [])"

definition valid_short_char :: "u8 \<Rightarrow> bool" where
  "valid_short_char c = (if c \<ge> 0x41 \<and> c \<le> 0x5A then True else if c \<ge> 0x30 \<and> c \<le> 0x39 then True
     else c = 0x5F \<or> c = 0x2D \<or> c = 0x21 \<or> c = 0x24 \<or> c = 0x5E)"

fun last_dot :: "cstring \<Rightarrow> nat \<Rightarrow> nat option \<Rightarrow> nat option" where
  "last_dot [] i ext_start = ext_start"
| "last_dot (c # p) i ext_start = last_dot p (Suc i) (if c = 0x2E then Some i else ext_start)"

fun short_base :: "cstring \<Rightarrow> nat \<Rightarrow> nat option \<Rightarrow> nat \<Rightarrow> u8 list option" where
  "short_base p pos ext_start 0 = Some []"
| "short_base [] pos ext_start (Suc n) = Some []"
| "short_base (c # p) pos ext_start (Suc n) =
     (if ext_start = Some pos then Some []
      else if \<not> valid_short_char (upc c) then None
      else map_option ((#) (upc c)) (short_base p (Suc pos) ext_start n))"

fun short_ext :: "cstring \<Rightarrow> nat \<Rightarrow> u8 list option" where
  "short_ext e 0 = Some []"
| "short_ext [] (Suc n) = Some []"
| "short_ext (c # e) (Suc n) =
     (if \<not> valid_short_char (upc c) then None else map_option ((#) (upc c)) (short_ext e n))"

definition pad_to :: "nat \<Rightarrow> u8 list \<Rightarrow> u8 list" where
  "pad_to n xs = xs @ replicate (n - length xs) 0x20"

definition encode_short_name :: "cstring \<Rightarrow> u8 list option" where
  "encode_short_name name =
     (let ext_start = last_dot name 0 None
      in if ext_start = Some 0 then None
         else case short_base name 0 ext_start 8 of
                None \<Rightarrow> None
              | Some b \<Rightarrow>
                  (if b = [] then None
                   else case ext_start of
                          None \<Rightarrow> Some (pad_to 8 b @ pad_to 3 [])
                        | Some k \<Rightarrow> map_option (\<lambda>x. pad_to 8 b @ pad_to 3 x) (short_ext (drop (k + 1) name) 3)))"

definition lfn_checksum :: "u8 list \<Rightarrow> u8" where
  "lfn_checksum short11 = foldl (\<lambda>sum c. (push_bit 7 (sum AND 1) + drop_bit 1 sum) + c) 0 short11"

definition short_is_exact :: "cstring \<Rightarrow> bool" where
  "short_is_exact name =
     list_all (\<lambda>c. c = 0x2E \<or> \<not> (c \<ge> 0x61 \<and> c \<le> 0x7A) \<and> c \<noteq> 0x20 \<and> valid_short_char c) name"

definition lfn_parts_for :: "cstring \<Rightarrow> nat \<times> u8 list option" where
  "lfn_parts_for name =
     (case encode_short_name name of
        None \<Rightarrow> (0, None)
      | Some short11 \<Rightarrow> (if short_is_exact name then 0 else (length name + 12) div 13, Some short11))"

definition char_offsets :: "nat list" where
  "char_offsets = [1, 3, 5, 7, 9, 14, 16, 18, 20, 22, 24, 28, 30]"

definition lfn_fill_char :: "ptr \<Rightarrow> u32 \<Rightarrow> nat \<Rightarrow> u8 list \<Rightarrow> u8 list" where
  "lfn_fill_char name char_start i e =
     (let c = name (unat (char_start + of_nat i)); k = char_offsets ! i
      in if c = 0 then e[k := 0, k + 1 := 0] else e[k := c, k + 1 := 0])"

definition lfn_fill_part :: "ptr \<Rightarrow> u32 \<Rightarrow> u8 \<Rightarrow> bool \<Rightarrow> u8 \<Rightarrow> u8 list" where
  "lfn_fill_part name char_start seq set_first checksum =
     fold (lfn_fill_char name char_start) [0..<13]
       ((replicate 32 0xFF)[0 := (if set_first then seq OR 0x40 else seq), 11 := 0x0F, 13 := checksum,
          26 := 0, 27 := 0])"

text \<open>The LFN part number \<open>p\<close> that \<open>create_dir_entries\<close> writes, counted from the 8.3 entry upwards.\<close>

definition lfn_entry :: "ptr \<Rightarrow> nat \<Rightarrow> nat \<Rightarrow> u8 \<Rightarrow> nat \<Rightarrow> u8 list" where
  "lfn_entry name len parts checksum p =
     lfn_fill_part name (of_nat len - (of_nat p + 1) * 13) (of_nat (parts - p)) (p = 0) checksum"

definition split_component :: "cstring \<Rightarrow> nat \<Rightarrow> (cstring \<times> cstring) option" where
  "split_component path out_size =
     (let p = dropWhile (\<lambda>c. c = 0x2F) path
      in if p = [] then None
         else let out = take (out_size - 1) (takeWhile (\<lambda>c. c \<noteq> 0x2F) p)
              in if out \<noteq> [] then Some (out, dropWhile (\<lambda>c. c \<noteq> 0x2F) p) else None)"

definition valid_component_name :: "cstring \<Rightarrow> bool" where
  "valid_component_name name =
     (if name = [] then False
      else if name = [0x2E] \<or> name = [0x2E, 0x2E] then False
      else list_all (\<lambda>c. \<not> (c <s 0x20 \<or> c = 0x7F) \<and>
             c \<notin> {0x2A, 0x3F, 0x3C, 0x3E, 0x7C, 0x22, 0x3A, 0x5C}) name)"

lemma split_component_shorter:
  "split_component path n = Some (c, r) \<Longrightarrow> length r < length path"
proof -
  assume a: "split_component path n = Some (c, r)"
  let ?p = "dropWhile (\<lambda>c. c = 0x2F) path"
  have r: "r = dropWhile (\<lambda>c. c \<noteq> 0x2F) ?p" and ne: "?p \<noteq> []"
    using a by (auto simp: split_component_def Let_def split: if_splits)
  obtain x xs where x: "?p = x # xs" using ne by (cases ?p) auto
  have "x \<noteq> 0x2F" using x by (metis (mono_tags, lifting) hd_dropWhile list.sel(1) ne)
  then have "length r \<le> length xs" using r x by (simp add: length_dropWhile_le)
  then have "length r < length ?p" using x by simp
  also have "length ?p \<le> length path" by (rule length_dropWhile_le)
  finally show ?thesis .
qed

text \<open>
  The loop that collects the components of a path: \<open>None\<close> when there are more than 8, or when one
  does not satisfy \<open>ok\<close> (the check of \<open>fat32_mkdir\<close>).
\<close>

function path_components :: "(cstring \<Rightarrow> bool) \<Rightarrow> cstring \<Rightarrow> nat \<Rightarrow> cstring list option" where
  "path_components ok p depth =
     (case split_component p 256 of
        None \<Rightarrow> Some []
      | Some (c, rest) \<Rightarrow>
          (if depth \<ge> 8 then None
           else if \<not> ok c then None
           else map_option ((#) (buf_str (k_strncpy (Some (cstr c)) 256)))
                  (path_components ok rest (Suc depth))))"
  by pat_completeness auto
termination
  by (relation "measure (\<lambda>(ok, p, depth). length p)") (auto dest: split_component_shorter)

declare path_components.simps [simp del]

section \<open>Comparison\<close>

lemma name_matches_iff: "name_matches a b \<longleftrightarrow> map upc a = map upc b"
  by (induction a b rule: name_matches.induct) auto

lemma upc_idem [simp]: "upc (upc c) = upc c"
  by (auto simp: upc_def word_le_nat_alt unat_word_ariths unat_sub_if_size)

section \<open>8.3 names\<close>

lemma valid_short_char_nz: "valid_short_char c \<Longrightarrow> c \<noteq> 0 \<and> c \<noteq> 0x20 \<and> c \<noteq> 0x2E"
  by (auto simp: valid_short_char_def split: if_splits)

lemma upc_dot [simp]: "upc c = 0x2E \<longleftrightarrow> c = 0x2E"
  by (auto simp: upc_def word_le_nat_alt unat_word_ariths unat_sub_if_size word_unat_eq_iff)

lemma upc_46 [simp]: "upc 0x2E = 0x2E"
  by (simp add: upc_def)

lemma last_dot_nodot: "0x2E \<notin> set s \<Longrightarrow> last_dot s i x = x"
  by (induction s arbitrary: i) auto

lemma last_dot_append: "last_dot (a @ b) i x = last_dot b (i + length a) (last_dot a i x)"
  by (induction a arbitrary: i x) auto

lemma short_base_all:
  assumes "list_all (valid_short_char \<circ> upc) b" "length b \<le> n"
    and "case x of None \<Rightarrow> r = [] | Some k \<Rightarrow> k = pos + length b \<and> r \<noteq> []"
  shows "short_base (b @ r) pos x n = Some (map upc b)"
  using assms
proof (induction b arbitrary: pos n)
  case Nil
  then show ?case by (cases n; cases r; cases x) auto
next
  case (Cons c b)
  then obtain m where n: "n = Suc m" by (cases n) auto
  have "x \<noteq> Some pos" using Cons.prems(3) by (auto split: option.splits)
  then show ?case using Cons n by (auto split: option.splits)
qed

lemma short_ext_all:
  "list_all (valid_short_char \<circ> upc) e \<Longrightarrow> length e \<le> n \<Longrightarrow> short_ext e n = Some (map upc e)"
  by (induction e n rule: short_ext.induct) auto

text \<open>Names of the form \<open>BASE\<close> or \<open>BASE.EXT\<close> that fit a directory entry.\<close>

definition name83 :: "cstring \<Rightarrow> cstring \<Rightarrow> cstring" where
  "name83 b e = (if e = [] then b else b @ 0x2E # e)"

definition fits83 :: "cstring \<Rightarrow> cstring \<Rightarrow> bool" where
  "fits83 b e \<longleftrightarrow> b \<noteq> [] \<and> length b \<le> 8 \<and> length e \<le> 3 \<and>
     list_all (valid_short_char \<circ> upc) b \<and> list_all (valid_short_char \<circ> upc) e"

lemma valid_no_dot: "list_all (valid_short_char \<circ> upc) b \<Longrightarrow> 0x2E \<notin> set b"
  using valid_short_char_nz [of "upc 0x2E"] by (auto simp: list_all_iff)

lemma encode_short_name_83:
  assumes "fits83 b e"
  shows "encode_short_name (name83 b e) = Some (pad_to 8 (map upc b) @ pad_to 3 (map upc e))"
proof (cases "e = []")
  case True
  have "last_dot b 0 None = None" using assms valid_no_dot by (simp add: fits83_def last_dot_nodot)
  then show ?thesis
    using assms True short_base_all [where b = b and n = 8 and x = None and r = "[]" and pos = 0] by (simp add: fits83_def name83_def encode_short_name_def)
next
  case False
  have d: "0x2E \<notin> set b" "0x2E \<notin> set e" using assms valid_no_dot by (auto simp: fits83_def)
  then have "last_dot (b @ 0x2E # e) 0 None = Some (length b)"
    by (simp add: last_dot_append last_dot_nodot)
  moreover have "short_base (b @ 0x2E # e) 0 (Some (length b)) 8 = Some (map upc b)"
    using assms by (intro short_base_all) (auto simp: fits83_def)
  moreover have "short_ext e 3 = Some (map upc e)" using assms by (auto simp: fits83_def intro: short_ext_all)
  ultimately show ?thesis using assms False by (simp add: fits83_def name83_def encode_short_name_def)
qed

lemma short_part_read:
  assumes "\<forall>j < length b. f (i + j) = upc (b ! j)" "list_all (valid_short_char \<circ> upc) b"
    and "length b \<le> n" "length b < n \<Longrightarrow> f (i + length b) = 0x20" "pos + n < sz"
  shows "short_part f i n pos sz = map upc b"
  using assms
proof (induction b arbitrary: i n pos)
  case Nil
  then show ?case by (cases n) auto
next
  case (Cons c b)
  then obtain m where n: "n = Suc m" by (cases n) auto
  have "short_part f (Suc i) m (pos + 1) sz = map upc b"
    using Cons.prems n by (intro Cons.IH) (fastforce simp: nth_Cons')+
  moreover have "f i = upc c" using Cons.prems(1) by force
  moreover have "upc c \<noteq> 0x20" using Cons.prems(2) valid_short_char_nz by auto
  ultimately show ?case using n Cons.prems(5) by simp
qed




lemma pad_to_nth: "length xs \<le> n \<Longrightarrow> i < n \<Longrightarrow> pad_to n xs ! i = (if i < length xs then xs ! i else 0x20)"
  by (simp add: pad_to_def nth_append)

lemma pad_to_length: "length xs \<le> n \<Longrightarrow> length (pad_to n xs) = n"
  by (simp add: pad_to_def)

lemma build_short_name_83:
  assumes "fits83 b e" "\<forall>i < 11. entry i = (pad_to 8 (map upc b) @ pad_to 3 (map upc e)) ! i"
  shows "build_short_name entry 256 = map upc (name83 b e)"
proof -
  have l: "length b \<le> 8" "length e \<le> 3" "b \<noteq> []" and v: "list_all (valid_short_char \<circ> upc) b" "list_all (valid_short_char \<circ> upc) e"
    using assms(1) by (auto simp: fits83_def)
  have eb: "entry i = (if i < length b then upc (b ! i) else 0x20)" if "i < 8" for i
    using assms(2) that l by (simp add: nth_append pad_to_length pad_to_nth)
  have ee: "entry (8 + i) = (if i < length e then upc (e ! i) else 0x20)" if "i < 3" for i
    using assms(2) that l by (simp add: nth_append pad_to_length pad_to_nth)
  have a: "short_part entry 0 8 0 256 = map upc b"
    using l eb v by (intro short_part_read) auto
  have x: "short_part entry 8 3 (length b + 1) 256 = map upc e"
    using l ee v by (intro short_part_read) auto
  have nz: "cstring_ok (map upc (name83 b e))"
  proof -
    have "\<forall>c \<in> set (b @ e). upc c \<noteq> 0" using v valid_short_char_nz by (fastforce simp: list_all_iff)
    moreover have "upc 0x2E \<noteq> 0" by (simp add: upc_def)
    ultimately show ?thesis by (auto simp: cstring_ok_def name83_def image_iff)
  qed
  show ?thesis
  proof (cases "e = []")
    case True
    then have "entry 8 = 0x20" using ee [of 0] by simp
    then show ?thesis using a True buf_str_id [OF nz] by (simp add: build_short_name_def name83_def Let_def)
  next
    case False
    then obtain c e' where c: "e = c # e'" by (cases e) auto
    then have "entry 8 = upc c" using ee [of 0] by simp
    moreover have "upc c \<noteq> 0x20" using v(2) c valid_short_char_nz by auto
    moreover have "upc 0x2E = 0x2E" by (simp add: upc_def)
    ultimately show ?thesis
      using a x l False buf_str_id [OF nz] by (simp add: build_short_name_def name83_def Let_def)
  qed
qed

section \<open>Long names\<close>

lemma lfn_off_char: "i < 13 \<Longrightarrow> char_offsets ! i = lfn_off i"
  by (auto simp: char_offsets_def lfn_off_def less_Suc_eq numeral_eq_Suc)

text \<open>The character cells of an LFN part are apart from each other.\<close>

lemma lfn_off_apart:
  assumes "i < 13" "j < 13" "i \<noteq> j"
  shows "lfn_off i \<noteq> lfn_off j" "lfn_off i \<noteq> lfn_off j + 1" "lfn_off i + 1 \<noteq> lfn_off j"
  using assms by (auto simp: lfn_off_def)

lemma lfn_fill_char_length [simp]: "length (lfn_fill_char name s i e) = length e"
  by (simp add: lfn_fill_char_def Let_def)

lemma lfn_fill_char_cell:
  assumes "i < 13" "j < 13" "length e = 32"
  shows "lfn_fill_char name s i e ! lfn_off j = (if i = j then name (unat (s + of_nat i)) else e ! lfn_off j)"
    "lfn_fill_char name s i e ! (lfn_off j + 1) = (if i = j then 0 else e ! (lfn_off j + 1))"
proof -
  have "lfn_off j + 1 < 32" using assms(2) by (auto simp: lfn_off_def)
  then show "lfn_fill_char name s i e ! lfn_off j = (if i = j then name (unat (s + of_nat i)) else e ! lfn_off j)"
    "lfn_fill_char name s i e ! (lfn_off j + 1) = (if i = j then 0 else e ! (lfn_off j + 1))"
    using assms lfn_off_apart [OF assms(1,2)]
    by (auto simp: lfn_fill_char_def Let_def lfn_off_char nth_list_update)
qed

lemma lfn_fold_length [simp]: "length (fold (lfn_fill_char name s) is e) = length e"
  by (induction "is" arbitrary: e) simp_all

lemma lfn_fold_cells:
  assumes "j < 13" "length e = 32" "n \<le> 13"
  shows "fold (lfn_fill_char name s) [0..<n] e ! lfn_off j =
      (if j < n then name (unat (s + of_nat j)) else e ! lfn_off j) \<and>
    fold (lfn_fill_char name s) [0..<n] e ! (lfn_off j + 1) = (if j < n then 0 else e ! (lfn_off j + 1))"
  using assms(3)
proof (induction n)
  case (Suc n)
  then show ?case
    using lfn_fill_char_cell [of n j "fold (lfn_fill_char name s) [0..<n] e" name s] assms by auto
qed simp

lemma lfn_fill_part_cells:
  assumes "j < 13"
  shows "lfn_fill_part name s seq f ck ! lfn_off j = name (unat (s + of_nat j))"
    "lfn_fill_part name s seq f ck ! (lfn_off j + 1) = 0"
  using lfn_fold_cells [OF assms, of _ 13 name s] assms by (simp_all add: lfn_fill_part_def)

lemma ucast_u16_nat: "unat (ucast c :: u16) = unat c" for c :: u8
  using unsigned_less [of c, where 'a = nat] by (simp add: unsigned_ucast_eq take_bit_nat_eq_self)

lemma ucast_u16_cases: "(ucast c :: u16) = 0 \<longleftrightarrow> c = 0" "(ucast c :: u16) \<noteq> 0xFFFF" for c :: u8
  using ucast_u16_nat [of c] unsigned_less [of c, where 'a = nat] by (auto simp: word_unat_eq_iff)

lemma lfn_parse_fill:
  assumes "i + n \<le> 13"
  shows "lfn_parse_loop (\<lambda>k. lfn_fill_part name s seq f ck ! k) i n =
     takeWhile (\<lambda>c. c \<noteq> 0) (map (\<lambda>j. name (unat (s + of_nat j))) [i..<i + n])"
  using assms
proof (induction n arbitrary: i)
  case (Suc n)
  have "[i..<i + Suc n] = i # [Suc i..<Suc i + n]" by (simp add: upt_rec)
  then show ?case
    using Suc.IH [of "Suc i"] Suc.prems lfn_fill_part_cells [of i name s seq f ck] ucast_u16_cases [of "name (unat (s + of_nat i))"]
    by (simp add: Let_def del: upt_Suc)
qed simp

lemma lfn_fill_part_0: "lfn_fill_part name s seq f ck ! 0 = (if f then seq OR 0x40 else seq)"
proof -
  have "fold (lfn_fill_char name s) is e ! 0 = e ! 0" if "set is \<subseteq> {..<13}" for "is" e
    using that
  proof (induction "is" arbitrary: e)
    case (Cons i "is")
    moreover from Cons.prems have "lfn_off i > 0" by (simp add: lfn_off_def)
    ultimately show ?case by (simp add: lfn_fill_char_def Let_def lfn_off_char)
  qed simp
  from this [of "[0..<13]"] show ?thesis by (simp add: lfn_fill_part_def lessThan_def subset_iff)
qed

lemma seq_mask:
  assumes "n < 64"
  shows "(if b then of_nat n OR 0x40 else of_nat n) AND 0x3F = (of_nat n :: u8)"
proof -
  have "list_all (\<lambda>n. (of_nat n OR 0x40) AND 0x3F = (of_nat n :: u8) \<and> of_nat n AND 0x3F = (of_nat n :: u8)) [0..<64]"
    by code_simp
  then show ?thesis using assms by (auto simp: list_all_iff)
qed

lemma lfn_char_index:
  assumes "p < k" "j < 13" "13 * k \<le> 255"
  shows "unat (of_nat (13 * k) - (of_nat p + 1) * 13 + of_nat j :: u32) = 13 * (k - Suc p) + j"
proof -
  have "(of_nat (13 * k) - (of_nat p + 1) * 13 + of_nat j :: u32) = of_nat (13 * k - 13 * Suc p + j)"
    using assms by (simp add: of_nat_diff algebra_simps)
  moreover have "13 * k - 13 * Suc p + j < 2 ^ LENGTH(32)" using assms by simp
  ultimately have "unat (of_nat (13 * k) - (of_nat p + 1) * 13 + of_nat j :: u32) = 13 * k - 13 * Suc p + j"
    by (metis unat_of_nat_small)
  then show ?thesis by (simp add: diff_mult_distrib2)
qed

lemma lfn_entry_parse:
  assumes "cstring_ok name" "length name = 13 * k" "p < k" "k < 20"
  shows "lfn_parse_part ((!) (lfn_entry (cstr name) (length name) k ck p)) = take 13 (drop (13 * (k - Suc p)) name)"
proof -
  let ?q = "13 * (k - Suc p)"
  have "k - Suc p + 1 \<le> k" using assms(3) by simp
  then have q: "?q + 13 \<le> length name" using assms(2) by (metis mult_le_mono2 distrib_left mult.right_neutral)
  have "map (\<lambda>j. cstr name (unat (of_nat (length name) - (of_nat p + 1) * 13 + of_nat j :: u32))) [0..<13] =
      map (\<lambda>j. name ! (?q + j)) [0..<13]"
  proof (intro map_cong refl)
    fix j :: nat assume "j \<in> set [0..<13]"
    then have j: "j < 13" by simp
    have "?q + j < length name" using j q by linarith
    moreover have "unat (of_nat (length name) - (of_nat p + 1) * 13 + of_nat j :: u32) = ?q + j"
      unfolding assms(2) using lfn_char_index [OF assms(3) j] assms(4) by simp
    ultimately show "cstr name (unat (of_nat (length name) - (of_nat p + 1) * 13 + of_nat j :: u32)) = name ! (?q + j)"
      by (simp only: cstr_nth)
  qed
  also have "\<dots> = take 13 (drop ?q name)" using q by (intro nth_equalityI) simp_all
  finally have m: "map (\<lambda>j. cstr name (unat (of_nat (length name) - (of_nat p + 1) * 13 + of_nat j :: u32))) [0..<13] =
      take 13 (drop ?q name)" .
  have "cstring_ok (take 13 (drop ?q name))"
    using assms(1) by (auto simp: cstring_ok_def dest: in_set_takeD in_set_dropD)
  then show ?thesis
    using m lfn_parse_fill [of 0 13] buf_str_id
    by (simp add: lfn_parse_part_def lfn_entry_def buf_str_def)
qed

lemma foldl_add_parts:
  "length a + length es \<le> 20 \<Longrightarrow>
   foldl lfn_add_part a es = a @ map (\<lambda>e. (e 0 AND 0x3F, lfn_parse_part e)) es"
  by (induction es arbitrary: a) (simp_all add: lfn_add_part_def)

lemma lfn_join_all:
  assumes "\<forall>s \<in> {1..k}. find (\<lambda>p. unat (fst p) = s) a = Some (c s, take 13 (drop (13 * (s - 1)) name))"
    and "length name = 13 * k" "length name < sz" "m \<le> k"
  shows "lfn_join a [Suc m..<Suc k] sz (take (13 * m) name) = name"
  using assms(4)
proof (induction "k - m" arbitrary: m)
  case 0
  then show ?case using assms(2) by simp
next
  case (Suc n)
  then have m: "m < k" by simp
  have u: "[Suc m..<Suc k] = Suc m # [Suc (Suc m)..<Suc k]" using m by (simp add: upt_rec)
  have f: "find (\<lambda>p. unat (fst p) = Suc m) a = Some (c (Suc m), take 13 (drop (13 * m) name))"
    using assms(1) m by force
  have "take (13 * m) name @ take (sz - 1 - length (take (13 * m) name)) (take 13 (drop (13 * m) name)) =
      take (13 * Suc m) name"
  proof -
    have "13 * Suc m \<le> 13 * k" using m by (intro mult_le_mono2) simp
    then have "13 \<le> sz - 1 - length (take (13 * m) name)" using assms(2,3) by simp
    then show ?thesis by (simp add: take_add [symmetric] min_def add.commute)
  qed
  then show ?case using u f Suc.hyps m by (simp del: upt_Suc mult_Suc_right)
qed

lemma find_seq:
  assumes "distinct (map f xs)" "x \<in> set xs"
  shows "find (\<lambda>p. fst p = f x) (map (\<lambda>y. (f y, g y)) xs) = Some (f x, g x)"
  using assms by (induction xs) (auto simp: image_iff)

lemma lfn_parts_count:
  assumes "lfn_parts_for name = (k, Some short11)" "k \<noteq> 0" "13 dvd length name"
  shows "length name = 13 * k"
  using assms by (auto simp: lfn_parts_for_def split: option.splits if_splits)

lemma lfn_parts_roundtrip:
  assumes "cstring_ok name" "length name = 13 * k" "k < 20"
  shows "map (\<lambda>p. lfn_entry (cstr name) (length name) k checksum p ! 0 AND 0x3F) (rev [0..<k]) = map of_nat [1..<Suc k]"
    and "lfn_assemble (foldl lfn_add_part lfn_reset
      (map (\<lambda>p. (!) (lfn_entry (cstr name) (length name) k checksum p)) (rev [0..<k]))) 256 = name"
proof -
  let ?e = "\<lambda>p. (!) (lfn_entry (cstr name) (length name) k checksum p)"
  let ?g = "\<lambda>s. take 13 (drop (13 * (s - 1)) name)"
  let ?a = "map (\<lambda>s. (of_nat s :: u8, ?g s)) [1..<Suc k]"
  have ent: "(?e p 0 AND 0x3F, lfn_parse_part (?e p)) = (of_nat (k - p), ?g (k - p))" if "p < k" for p
    using lfn_entry_parse [OF assms(1,2) that assms(3)] assms(3)
    by (simp add: lfn_entry_def lfn_fill_part_0 seq_mask)
  have rv: "map (\<lambda>p. k - p) (rev [0..<k]) = [1..<Suc k]"
    by (intro nth_equalityI) (simp_all add: rev_nth del: upt_Suc)
  have "map (\<lambda>p. ?e p 0 AND 0x3F) (rev [0..<k]) = map (\<lambda>p. of_nat (k - p)) (rev [0..<k])" using ent by simp
  then show "map (\<lambda>p. ?e p 0 AND 0x3F) (rev [0..<k]) = map of_nat [1..<Suc k]"
    unfolding rv [symmetric] by (simp add: comp_def)
  have "map (\<lambda>e. (e 0 AND 0x3F, lfn_parse_part e)) (map ?e (rev [0..<k])) =
      map (\<lambda>p. (of_nat (k - p), ?g (k - p))) (rev [0..<k])"
    using ent by (simp add: comp_def)
  also have "\<dots> = ?a" unfolding rv [symmetric] by (simp add: comp_def)
  finally have acc: "foldl lfn_add_part lfn_reset (map ?e (rev [0..<k])) = ?a"
    using foldl_add_parts [of "[]" "map ?e (rev [0..<k])"] assms(3) by (simp add: lfn_reset_def)
  have un: "unat (of_nat s :: u8) = s" if "s \<le> k" for s
    using that assms(3) by (intro unat_of_nat_small) simp
  have "find (\<lambda>p. unat (fst p) = s) ?a = Some (of_nat s, ?g s)" if s: "s \<in> {1..k}" for s
  proof -
    have "unat p = s \<longleftrightarrow> p = (of_nat s :: u8)" for p using un [of s] s by auto
    moreover have "distinct (map (\<lambda>s. of_nat s :: u8) [1..<Suc k])"
      unfolding distinct_map using un by (auto intro: inj_on_inverseI [where g = unat])
    moreover have "s \<in> set [1..<Suc k]" using s by auto
    ultimately show ?thesis using find_seq [of "\<lambda>s. of_nat s :: u8" "[1..<Suc k]" s ?g] by (simp only:)
  qed
  then have "lfn_join ?a [Suc 0..<Suc k] 256 (take (13 * 0) name) = name"
    using assms(2,3) by (intro lfn_join_all [where c = of_nat]) auto
  moreover have "length ?a = k" by simp
  ultimately show "lfn_assemble (foldl lfn_add_part lfn_reset (map ?e (rev [0..<k]))) 256 = name"
    using acc by (simp add: lfn_assemble_def del: upt_Suc)
qed

section \<open>Properties\<close>

text \<open>
  C19: a long name whose length is a multiple of 13, and for which \<open>lfn_parts_for\<close> asks for LFN parts,
  survives the directory: reading back, in directory order, as many parts as \<open>lfn_parts_for\<close> computes gives
  exactly the name. The parts lie in the directory in ascending order of their sequence numbers, whereas the
  comments of \<open>fat32.c\<close> at lines 320, 809 and 931 and the format itself have the highest number first.
\<close>

theorem lfn_name_roundtrip:
  assumes "cstring_ok name" "length name < 256" "13 dvd length name"
    and "lfn_parts_for name = (parts, Some short11)" "parts \<noteq> 0"
  shows "let entry = lfn_entry (cstr name) (length name) parts (lfn_checksum short11); order = rev [0..<parts] in
    lfn_assemble (foldl lfn_add_part lfn_reset (map (\<lambda>p. (!) (entry p)) order)) 256 = name \<and>
    map (\<lambda>p. entry p ! 0 AND 0x3F) order = map of_nat [1..<Suc parts]"
proof -
  have k: "length name = 13 * parts" by (rule lfn_parts_count [OF assms(4,5,3)])
  then have "parts < 20" using assms(2) by simp
  from lfn_parts_roundtrip [OF assms(1) k this] show ?thesis by (simp only: Let_def simp_thms)
qed

theorem lfn_name_roundtrip_witness:
  "\<exists>short11. lfn_parts_for (str ''some-long-name-of-26.chars'') = (2, Some short11) \<and>
     lfn_assemble (foldl lfn_add_part lfn_reset
       (map (\<lambda>p. (!) (lfn_entry (cstr (str ''some-long-name-of-26.chars'')) 26 2 (lfn_checksum short11) p)) (rev [0..<2]))) 256 =
     str ''some-long-name-of-26.chars''"
proof -
  let ?n = "str ''some-long-name-of-26.chars''"
  have p: "lfn_parts_for ?n = (2, Some (str ''SOME-LONCHA''))" by code_simp
  have l: "cstring_ok ?n" "length ?n = 26" by (simp_all add: str_def cstring_ok_def of_char_def)
  then show ?thesis using lfn_name_roundtrip [OF l(1) _ _ p] p by (simp add: Let_def)
qed


text \<open>
  For a name whose length is not a multiple of 13 the LFN part with sequence number 1 starts
  before the name: its first character is read almost 4 GiB behind the start of the name, at the
  wrapped index \<open>2 ^ 32 - d\<close> where \<open>d\<close> is the number of missing characters.
\<close>

theorem lfn_first_part_wild:
  assumes "0 < len" "len < 256" "\<not> 13 dvd len" "parts = (len + 12) div 13"
  shows "len \<le> 13 * parts \<and> 0 < 13 * parts - len \<and> 13 * parts - len < 13 \<and>
    lfn_entry name len parts checksum (parts - 1) ! 1 = name (2 ^ 32 - (13 * parts - len))"
proof -
  let ?d = "13 * parts - len"
  have "len + 12 = 13 * parts + (len + 12) mod 13" using assms(4) by presburger
  moreover have "(len + 12) mod 13 < 13" by simp
  moreover have "len mod 13 \<noteq> 0" using assms(3) by (simp add: dvd_eq_mod_eq_0)
  moreover have "(len + 12) mod 13 \<noteq> 12" using calculation(3) by presburger
  ultimately have d: "len \<le> 13 * parts" "0 < ?d" "?d < 13" "0 < parts" using assms(1) by linarith+
  have s: "of_nat len - (of_nat (parts - 1) + 1) * 13 = - (of_nat ?d :: u32)"
    using d by (simp add: of_nat_diff algebra_simps)
  have "(- of_nat ?d :: u32) = of_nat (2 ^ 32 - ?d)" using d(3) by (simp add: of_nat_diff)
  moreover have "2 ^ 32 - ?d < 2 ^ LENGTH(32)" using d(2) by simp
  ultimately have u: "unat (- of_nat ?d :: u32) = 2 ^ 32 - ?d" by (metis unat_of_nat_small)
  have "lfn_entry name len parts checksum (parts - 1) ! lfn_off 0 = name (2 ^ 32 - ?d)"
    unfolding lfn_entry_def s using lfn_fill_part_cells(1) [of 0] u by simp
  then show ?thesis using d by (simp add: lfn_off_def)
qed

theorem lfn_first_part_wild_witness:
  "lfn_entry (cstr (str ''readme.txt'')) 10 1 0 (1 - 1) ! 1 = cstr (str ''readme.txt'') (2 ^ 32 - (13 * 1 - 10))"
  using lfn_first_part_wild [of 10 1 "cstr (str ''readme.txt'')" 0] by simp

text \<open>
  a name that fits the 8.3 form survives the directory up to upper case: encoding it and reading
  the entry back gives the name in upper case, which \<open>name_matches\<close> accepts.
\<close>

theorem short_name_roundtrip:
  assumes "fits83 b e"
  shows "\<exists>x. encode_short_name (name83 b e) = Some x \<and> length x = 11 \<and>
    build_short_name (\<lambda>i. x ! i) 256 = map upc (name83 b e) \<and>
    name_matches (build_short_name (\<lambda>i. x ! i) 256) (name83 b e)"
  using encode_short_name_83 [OF assms] build_short_name_83 [OF assms] assms
  by (simp add: name_matches_iff pad_to_length fits83_def)

theorem short_name_roundtrip_witness:
  "\<exists>x. encode_short_name (str ''kernel.elf'') = Some x \<and>
    name_matches (build_short_name (\<lambda>i. x ! i) 256) (str ''KERNEL.ELF'')"
proof -
  have "fits83 (str ''kernel'') (str ''elf'')" by code_simp
  moreover have "name83 (str ''kernel'') (str ''elf'') = str ''kernel.elf''" by code_simp
  moreover have "map upc (str ''kernel.elf'') = map upc (str ''KERNEL.ELF'')" by code_simp
  ultimately show ?thesis
    using short_name_roundtrip [of "str ''kernel''" "str ''elf''"] by (auto simp: name_matches_iff)
qed

text \<open>
  An upper-case name of more than 8 characters without extension gets no LFN part although the 8.3
  entry holds only its first 8 characters, so reading the directory gives a different name.
\<close>

theorem long_upper_name_lost:
  assumes "list_all valid_short_char name" "8 < length name" "\<forall>c \<in> set name. upc c = c"
  shows "\<exists>x. lfn_parts_for name = (0, Some x) \<and> build_short_name (\<lambda>i. x ! i) 256 = take 8 name \<and>
    \<not> name_matches (take 8 name) name"
proof -
  have v: "list_all (valid_short_char \<circ> upc) name" using assms by (auto simp: list_all_iff)
  have v8: "list_all (valid_short_char \<circ> upc) (take 8 name)" using v by (auto simp: list_all_iff dest: in_set_takeD)
  have nd: "last_dot name 0 None = None" using valid_no_dot [OF v] by (simp add: last_dot_nodot)
  have up: "map upc (take 8 name) = take 8 name" using assms(3) by (intro map_idI) (auto dest: in_set_takeD)
  have sb: "short_base name 0 None 8 = short_base (take 8 name @ []) 0 None 8"
  proof -
    have "short_base p i None n = short_base (take n p) i None n" for p i n
      by (induction n arbitrary: p i) (simp, case_tac p, simp_all)
    then show ?thesis by simp
  qed
  then have b: "short_base name 0 None 8 = Some (take 8 name)"
    using short_base_all [OF v8, where n = 8 and x = None and r = "[]" and pos = 0] up by simp
  have f: "fits83 (take 8 name) []" using v8 assms(2) by (auto simp: fits83_def)
  then have e: "encode_short_name name = Some (pad_to 8 (take 8 name) @ pad_to 3 [])"
    using b nd assms(2) by (auto simp: encode_short_name_def)
  have "short_is_exact name"
    using assms(1,3) valid_short_char_nz by (fastforce simp: short_is_exact_def list_all_iff upc_def)
  then have "lfn_parts_for name = (0, Some (pad_to 8 (take 8 name) @ pad_to 3 []))"
    using e by (simp add: lfn_parts_for_def)
  moreover have "build_short_name (\<lambda>i. (pad_to 8 (take 8 name) @ pad_to 3 []) ! i) 256 = take 8 name"
    using build_short_name_83 [OF f] up by (simp add: name83_def)
  moreover have "\<not> name_matches (take 8 name) name"
    using assms(2) by (auto simp: name_matches_iff dest: arg_cong [where f = length])
  ultimately show ?thesis by blast
qed

theorem long_upper_name_lost_witness:
  "\<exists>x. lfn_parts_for (str ''MAKEFILE_OLD'') = (0, Some x) \<and> build_short_name (\<lambda>i. x ! i) 256 = str ''MAKEFILE''"
proof -
  have "list_all valid_short_char (str ''MAKEFILE_OLD'')" "8 < length (str ''MAKEFILE_OLD'')"
    "\<forall>c \<in> set (str ''MAKEFILE_OLD''). upc c = c" "take 8 (str ''MAKEFILE_OLD'') = str ''MAKEFILE''"
    by code_simp+
  then show ?thesis using long_upper_name_lost [of "str ''MAKEFILE_OLD''"] by auto
qed

section \<open>Paths\<close>

text \<open>The components of a path: the non-empty pieces between slashes.\<close>

fun slash_split :: "cstring \<Rightarrow> cstring list" where
  "slash_split [] = [[]]"
| "slash_split (c # p) =
     (if c = 0x2F then [] # slash_split p
      else case slash_split p of [] \<Rightarrow> [[c]] | x # xs \<Rightarrow> (c # x) # xs)"

definition pieces :: "cstring \<Rightarrow> cstring list" where
  "pieces p = filter (\<lambda>x. x \<noteq> []) (slash_split p)"

lemma slash_split_ne: "slash_split p \<noteq> []"
  by (induction p) (auto split: list.splits)

lemma pieces_slash [simp]: "pieces (0x2F # p) = pieces p"
  by (simp add: pieces_def)

lemma pieces_skip: "pieces (dropWhile (\<lambda>c. c = 0x2F) p) = pieces p"
  by (induction p) auto

lemma slash_split_take:
  "slash_split p = takeWhile (\<lambda>c. c \<noteq> 0x2F) p #
     (case dropWhile (\<lambda>c. c \<noteq> 0x2F) p of [] \<Rightarrow> [] | _ # r \<Rightarrow> slash_split r)"
  by (induction p) (auto split: list.splits)

lemma pieces_rec:
  "pieces p = (let q = dropWhile (\<lambda>c. c = 0x2F) p
     in if q = [] then [] else takeWhile (\<lambda>c. c \<noteq> 0x2F) q # pieces (dropWhile (\<lambda>c. c \<noteq> 0x2F) q))"
proof (cases "dropWhile (\<lambda>c. c = 0x2F) p")
  case Nil
  then have "pieces p = pieces []" using pieces_skip [of p] by (simp only:)
  then show ?thesis by (simp only: Nil Let_def if_True) (simp add: pieces_def)
next
  case (Cons x q)
  have x: "x \<noteq> 0x2F" using Cons by (metis (mono_tags, lifting) dropWhile_eq_Cons_conv)
  let ?d = "dropWhile (\<lambda>c. c \<noteq> 0x2F) q"
  have "pieces (x # q) = takeWhile (\<lambda>c. c \<noteq> 0x2F) (x # q) # pieces ?d"
  proof (cases ?d)
    case Nil
    then show ?thesis
      using x slash_split_take [of "x # q"] by (simp add: pieces_def del: dropWhile_eq_Nil_conv)
  next
    case (Cons y r)
    then have "y = 0x2F" by (metis (mono_tags, lifting) dropWhile_eq_Cons_conv)
    then show ?thesis using x Cons slash_split_take [of "x # q"] by (simp add: pieces_def)
  qed
  then show ?thesis using x Cons pieces_skip [of p] by simp
qed

lemma split_component_pieces:
  "split_component p 256 = (case pieces p of [] \<Rightarrow> None
     | c # cs \<Rightarrow> Some (take 255 c, dropWhile (\<lambda>c. c \<noteq> 0x2F) (dropWhile (\<lambda>c. c = 0x2F) p)))"
proof (cases "dropWhile (\<lambda>c. c = 0x2F) p")
  case (Cons x q)
  then have "x \<noteq> 0x2F" by (metis (mono_tags, lifting) dropWhile_eq_Cons_conv)
  then show ?thesis using Cons by (subst pieces_rec) (simp add: split_component_def)
qed (subst pieces_rec, simp add: split_component_def)

lemma cstring_ok_sub: "cstring_ok s \<Longrightarrow> set t \<subseteq> set s \<Longrightarrow> cstring_ok t"
  by (auto simp: cstring_ok_def)

lemma pieces_length: "pieces p = c # cs \<Longrightarrow>
    cs = pieces (dropWhile (\<lambda>c. c \<noteq> 0x2F) (dropWhile (\<lambda>c. c = 0x2F) p)) \<and>
    c = takeWhile (\<lambda>c. c \<noteq> 0x2F) (dropWhile (\<lambda>c. c = 0x2F) p)"
  by (subst (asm) pieces_rec) (auto simp: Let_def split: if_splits)

text \<open>
  the loop that splits a path into components computes what it should: the non-empty pieces
  between slashes, each cut to 255 bytes, and it reports an error exactly when there are more than 8.
\<close>

theorem path_components_spec:
  assumes "cstring_ok p"
  shows "path_components (\<lambda>_. True) p 0 =
     (if length (pieces p) \<le> 8 then Some (map (take 255) (pieces p)) else None)"
proof -
  have "d \<le> 8 \<Longrightarrow> path_components (\<lambda>_. True) p d =
     (if length (pieces p) + d \<le> 8 then Some (map (take 255) (pieces p)) else None)" for d
    using assms
  proof (induction "length p" arbitrary: p d rule: less_induct)
    case less
    show ?case
    proof (cases "pieces p")
      case Nil
      then show ?thesis using less.prems by (subst path_components.simps) (simp add: split_component_pieces)
    next
      case (Cons c cs)
      let ?r = "dropWhile (\<lambda>c. c \<noteq> 0x2F) (dropWhile (\<lambda>c. c = 0x2F) p)"
      have sc: "split_component p 256 = Some (take 255 c, ?r)" using Cons by (simp add: split_component_pieces)
      note pl = pieces_length [OF Cons]
      have "cstring_ok (take 255 c)"
        using less.prems(2) pl by (auto simp: cstring_ok_def dest!: in_set_takeD set_takeWhileD set_dropWhileD)
      then have cp: "buf_str (k_strncpy (Some (cstr (take 255 c))) 256) = take 255 c"
        by (simp add: k_strncpy_str)
      have "cstring_ok ?r" using less.prems(2) by (auto simp: cstring_ok_def dest!: set_dropWhileD)
      then have "Suc d \<le> 8 \<Longrightarrow> path_components (\<lambda>_. True) ?r (Suc d) =
          (if length cs + Suc d \<le> 8 then Some (map (take 255) cs) else None)"
        using less.hyps [OF split_component_shorter [OF sc], of "Suc d"] pl by simp
      then show ?thesis
        using Cons sc cp less.prems(1) by (subst path_components.simps) auto
    qed
  qed
  from this [of 0] show ?thesis by simp
qed

theorem path_components_spec_witness:
  "path_components (\<lambda>_. True) (str ''/usr//bin/kilo/'') 0 = Some [str ''usr'', str ''bin'', str ''kilo'']"
proof -
  have "cstring_ok (str ''/usr//bin/kilo/'')" by code_simp
  moreover have "pieces (str ''/usr//bin/kilo/'') = [str ''usr'', str ''bin'', str ''kilo'']" by code_simp
  moreover have "map (take 255) [str ''usr'', str ''bin'', str ''kilo''] = [str ''usr'', str ''bin'', str ''kilo'']"
    by code_simp
  ultimately show ?thesis using path_components_spec [of "str ''/usr//bin/kilo/''"] by simp
qed

end
