(* ===== verification/Fat32.thy ===== *)
theory Fat32
  imports Block Fat32_Names
begin

text \<open>
  The FAT32 file system of \<^verbatim>\<open>fs/fat32.c\<close> on top of the block layer: the file allocation table,
  reading and writing of cluster chains, directories and the operations on paths.

  Every operation takes the mounted context and the storage state. The outer \<open>None\<close> is a call that
  does not return normally: it loops for ever or touches memory outside a buffer. A buffer of the
  caller is a byte list that is passed or returned; a buffer from \<open>kheap_alloc\<close> is a local byte list
  and its allocation consumes one outcome of \<open>alloc_ok\<close>. The context holds one field more than the C
  structure: \<open>wild\<close> is the memory at the far offsets from a name that \<open>lfn_fill_part\<close> may read.
\<close>

section \<open>Mounting and the file allocation table\<close>

record fat32_ctx =
  fdev :: nat
  bytes_per_sector :: u32
  sectors_per_cluster :: u32
  reserved_sectors :: u32
  fat_count :: u8
  fat_size :: u32
  root_cluster :: u32
  data_start :: u32
  fat_start :: u32
  bytes_per_cluster :: u32
  wild :: ptr

record fat32_dirent =
  dname :: cstring
  dsize :: u32
  first_cluster :: u32
  is_dir :: bool

definition FAT32_EOC :: u32 where [const_defs]: "FAT32_EOC = 0x0FFFFFF8"

definition FAT32_BAD :: u32 where [const_defs]: "FAT32_BAD = 0x0FFFFFF7"

definition fat32_probe :: "storage \<Rightarrow> nat \<Rightarrow> bool option" where
  "fat32_probe st dev =
     (if dev = 0 \<or> sector_size (devs st dev) \<noteq> 512 then Some False
      else do {
        r \<leftarrow> block_read st dev 0 1;
        case r of None \<Rightarrow> Some False
        | Some s \<Rightarrow>
            (if s ! 510 \<noteq> 0x55 \<or> s ! 511 \<noteq> 0xAA then Some False
             else if k_memcmp (\<lambda>i. s ! (82 + i)) (cstr (str ''FAT32   '')) 8 = 0 then Some True
             else let reserved = k_le16 (\<lambda>i. s ! (14 + i)); fats = s ! 16;
                      fsize = k_le32 (\<lambda>i. s ! (36 + i)); root = k_le32 (\<lambda>i. s ! (44 + i))
                  in Some (reserved \<noteq> 0 \<and> fats \<noteq> 0 \<and> fsize \<noteq> 0 \<and> root \<ge> 2))
      })"

definition fat32_mount :: "ptr \<Rightarrow> storage \<Rightarrow> nat \<Rightarrow> (fat32_ctx option \<times> storage) option" where
  "fat32_mount far st dev =
     (if dev = 0 then Some (None, st)
      else case kalloc st of (ok, st) \<Rightarrow>
        if \<not> ok then Some (None, st)
        else do {
          r \<leftarrow> block_read st dev 0 1;
          case r of None \<Rightarrow> Some (None, st)
          | Some s \<Rightarrow>
              (let bps = k_le16 (\<lambda>i. s ! (11 + i)); spc = s ! 13
               in if bps \<noteq> 512 then Some (None, st)
                  else if spc = 0 \<or> spc AND (spc - 1) \<noteq> 0 then Some (None, st)
                  else let rsv = ucast (k_le16 (\<lambda>i. s ! (14 + i))) :: u32;
                           fats = s ! 16;
                           fsize = k_le32 (\<lambda>i. s ! (36 + i));
                           root = k_le32 (\<lambda>i. s ! (44 + i))
                       in if fats = 0 \<or> fsize = 0 \<or> root < 2 then Some (None, st)
                          else Some (Some \<lparr>fdev = dev, bytes_per_sector = ucast bps,
                             sectors_per_cluster = ucast spc, reserved_sectors = rsv, fat_count = fats,
                             fat_size = fsize, root_cluster = root,
                             data_start = rsv + ucast fats * fsize, fat_start = rsv,
                             bytes_per_cluster = ucast bps * ucast spc, wild = far\<rparr>, st))
        })"

definition cluster_to_lba :: "fat32_ctx \<Rightarrow> u32 \<Rightarrow> u32" where
  "cluster_to_lba ctx cluster = data_start ctx + (cluster - 2) * sectors_per_cluster ctx"

definition cluster_valid :: "u32 \<Rightarrow> bool" where
  "cluster_valid cluster \<longleftrightarrow> cluster \<ge> 2 \<and> cluster < FAT32_BAD"

text \<open>The transfers of whole clusters and single sectors that all operations use.\<close>

definition read_cluster :: "fat32_ctx \<Rightarrow> storage \<Rightarrow> u32 \<Rightarrow> u8 list option option" where
  "read_cluster ctx st cluster =
     block_read st (fdev ctx) (ucast (cluster_to_lba ctx cluster)) (sectors_per_cluster ctx)"

definition write_cluster :: "fat32_ctx \<Rightarrow> storage \<Rightarrow> u32 \<Rightarrow> u8 list \<Rightarrow> (bool \<times> storage) option" where
  "write_cluster ctx st cluster b =
     block_write st (fdev ctx) (ucast (cluster_to_lba ctx cluster)) (sectors_per_cluster ctx) b"

definition fat_read_entry :: "fat32_ctx \<Rightarrow> storage \<Rightarrow> u32 \<Rightarrow> u32 option" where
  "fat_read_entry ctx st cluster =
     (let entry_lba = fat_start ctx + (cluster * 4) div bytes_per_sector ctx;
          entry_off = unat ((cluster * 4) mod bytes_per_sector ctx)
      in do {
        r \<leftarrow> block_read st (fdev ctx) (ucast entry_lba) 1;
        Some (case r of None \<Rightarrow> FAT32_BAD
              | Some s \<Rightarrow> k_le32 (\<lambda>i. s ! (entry_off + i)) AND 0x0FFFFFFF)
      })"

definition fat_write_entry :: "fat32_ctx \<Rightarrow> storage \<Rightarrow> u32 \<Rightarrow> u32 \<Rightarrow> (bool \<times> storage) option" where
  "fat_write_entry ctx st cluster value =
     (let entry_lba = fat_start ctx + (cluster * 4) div bytes_per_sector ctx;
          entry_off = unat ((cluster * 4) mod bytes_per_sector ctx)
      in do {
        r \<leftarrow> block_read st (fdev ctx) (ucast entry_lba) 1;
        case r of None \<Rightarrow> Some (False, st)
        | Some s \<Rightarrow>
            (let cur = k_le32 (\<lambda>i. s ! (entry_off + i));
                 newval = (cur AND 0xF0000000) OR (value AND 0x0FFFFFFF)
             in block_write st (fdev ctx) (ucast entry_lba) 1
                  (s[entry_off := ucast newval, entry_off + 1 := ucast (drop_bit 8 newval),
                     entry_off + 2 := ucast (drop_bit 16 newval),
                     entry_off + 3 := ucast (drop_bit 24 newval)]))
      })"

fun find_free_loop :: "fat32_ctx \<Rightarrow> storage \<Rightarrow> u32 \<Rightarrow> nat \<Rightarrow> u32 option" where
  "find_free_loop ctx st cl 0 = Some 0"
| "find_free_loop ctx st cl (Suc n) = do {
     v \<leftarrow> fat_read_entry ctx st cl;
     if v = 0 then Some cl else find_free_loop ctx st (cl + 1) n
   }"

definition fat32_find_free :: "fat32_ctx \<Rightarrow> storage \<Rightarrow> u32 option" where
  "fat32_find_free ctx st =
     (let cnt = fat_size ctx * bytes_per_sector ctx div 4
      in find_free_loop ctx st 2 (unat cnt - 2))"

definition fat32_alloc_cluster :: "fat32_ctx \<Rightarrow> storage \<Rightarrow> (u32 \<times> storage) option" where
  "fat32_alloc_cluster ctx st = do {
     cl \<leftarrow> fat32_find_free ctx st;
     if cl = 0 then Some (0, st)
     else do {
       (ok, st) \<leftarrow> fat_write_entry ctx st cl FAT32_EOC;
       if ok then Some (cl, st) else Some (0, st)
     }
   }"

fun free_chain_loop :: "fat32_ctx \<Rightarrow> storage \<Rightarrow> u32 \<Rightarrow> nat \<Rightarrow> storage option" where
  "free_chain_loop ctx st cl 0 = Some st"
| "free_chain_loop ctx st cl (Suc guard) =
     (if cluster_valid cl then do {
        nxt \<leftarrow> fat_read_entry ctx st cl;
        (ok, st) \<leftarrow> fat_write_entry ctx st cl 0;
        if \<not> ok then Some st
        else if nxt = cl \<or> nxt \<ge> FAT32_BAD then Some st
        else free_chain_loop ctx st nxt guard
      } else Some st)"

definition fat32_free_chain :: "fat32_ctx \<Rightarrow> storage \<Rightarrow> u32 \<Rightarrow> storage option" where
  "fat32_free_chain ctx st start = free_chain_loop ctx st start 0x1000000"

section \<open>Reading cluster chains\<close>

text \<open>
  One turn of the loop of \<open>fat32_read\<close> gets the bytes of a chunk, directly or through a temporary
  buffer that is allocated on first use (\<open>tmp\<close>).
\<close>

definition read_chunk ::
  "fat32_ctx \<Rightarrow> storage \<Rightarrow> u32 \<Rightarrow> u32 \<Rightarrow> bool \<Rightarrow> (u8 list option \<times> bool \<times> storage) option" where
  "read_chunk ctx st cluster chunk tmp =
     (let sectors = chunk div bytes_per_sector ctx
      in if sectors > 0 \<and> chunk mod bytes_per_sector ctx = 0 then do {
           r \<leftarrow> block_read st (fdev ctx) (ucast (cluster_to_lba ctx cluster)) sectors;
           Some (r, tmp, st)
         } else case (if tmp then (True, st) else kalloc st) of (ok, st) \<Rightarrow>
           if \<not> ok then Some (None, False, st)
           else do {
             r \<leftarrow> read_cluster ctx st cluster;
             Some (map_option (take (unat chunk)) r, True, st)
           })"

partial_function (option) read_loop ::
  "fat32_ctx \<Rightarrow> storage \<Rightarrow> u32 \<Rightarrow> u32 \<Rightarrow> u32 \<Rightarrow> u8 list \<Rightarrow> bool \<Rightarrow> (u32 \<times> u8 list \<times> storage) option" where
  "read_loop ctx st buffer_size cluster cnt data tmp =
     (if cluster_valid cluster \<and> cnt < buffer_size then
        let left = buffer_size - cnt;
            chunk = (if bytes_per_cluster ctx > left then left else bytes_per_cluster ctx)
        in do {
             (r, tmp, st) \<leftarrow> read_chunk ctx st cluster chunk tmp;
             case r of None \<Rightarrow> Some (cnt, data, st)
             | Some b \<Rightarrow> do {
                 nxt \<leftarrow> fat_read_entry ctx st cluster;
                 read_loop ctx st buffer_size nxt (cnt + chunk) (data @ b) tmp
               }
           }
      else Some (cnt, data, st))"

declare read_loop.simps [code]

definition fat32_read :: "fat32_ctx \<Rightarrow> storage \<Rightarrow> u32 \<Rightarrow> u32 \<Rightarrow> (u32 \<times> u8 list \<times> storage) option" where
  "fat32_read ctx st start_cluster buffer_size =
     (if buffer_size = 0 then Some (0, [], st)
      else read_loop ctx st buffer_size start_cluster 0 [] False)"

text \<open>The walk to the cluster of an offset; it also returns the cluster before (used when writing).\<close>

fun skip_clusters :: "fat32_ctx \<Rightarrow> storage \<Rightarrow> nat \<Rightarrow> u32 \<Rightarrow> u32 \<Rightarrow> (u32 \<times> u32) option" where
  "skip_clusters ctx st 0 prev cluster = Some (prev, cluster)"
| "skip_clusters ctx st (Suc n) prev cluster =
     (if cluster_valid cluster then do {
        nxt \<leftarrow> fat_read_entry ctx st cluster;
        skip_clusters ctx st n cluster nxt
      } else Some (prev, cluster))"

partial_function (option) read_at_loop ::
  "fat32_ctx \<Rightarrow> storage \<Rightarrow> u32 \<Rightarrow> u32 \<Rightarrow> u32 \<Rightarrow> u32 \<Rightarrow> u8 list \<Rightarrow> (u32 \<times> u8 list) option" where
  "read_at_loop ctx st buffer_size cluster in_cluster cnt data =
     (if cnt < buffer_size then
        let bpc = bytes_per_cluster ctx;
            left = bpc - in_cluster;
            chunk = (if buffer_size - cnt > left then left else buffer_size - cnt)
        in do {
             r \<leftarrow> read_cluster ctx st cluster;
             case r of None \<Rightarrow> Some (cnt, data)
             | Some b \<Rightarrow>
                 (let data = data @ (if in_cluster = 0 \<and> chunk = bpc then b
                                     else take (unat chunk) (drop (unat in_cluster) b));
                      cnt = cnt + chunk;
                      in_cluster = in_cluster + chunk
                  in if in_cluster = bpc then do {
                       nxt \<leftarrow> fat_read_entry ctx st cluster;
                       if \<not> cluster_valid nxt then Some (cnt, data)
                       else read_at_loop ctx st buffer_size nxt 0 cnt data
                     } else read_at_loop ctx st buffer_size cluster in_cluster cnt data)
           }
      else Some (cnt, data))"

declare read_at_loop.simps [code]

definition fat32_read_at ::
  "fat32_ctx \<Rightarrow> storage \<Rightarrow> u32 \<Rightarrow> u32 \<Rightarrow> u32 \<Rightarrow> (u32 \<times> u8 list \<times> storage) option" where
  "fat32_read_at ctx st start_cluster offset buffer_size =
     (if buffer_size = 0 then Some (0, [], st)
      else let bpc = bytes_per_cluster ctx
           in do {
             (_, cluster) \<leftarrow> skip_clusters ctx st (unat (offset div bpc)) start_cluster start_cluster;
             if \<not> cluster_valid cluster then Some (0, [], st)
             else case kalloc st of (ok, st) \<Rightarrow>
               if \<not> ok then Some (0, [], st)
               else do {
                 (cnt, data) \<leftarrow> read_at_loop ctx st buffer_size cluster (offset mod bpc) 0 [];
                 Some (cnt, data, st)
               }
           })"

section \<open>Directories\<close>

definition make_dirent :: "ptr \<Rightarrow> cstring \<Rightarrow> fat32_dirent" where
  "make_dirent entry name =
     (let dir = entry 11 AND 0x10 \<noteq> 0
      in \<lparr>dname = buf_str (k_strncpy (Some (cstr name)) 256),
          dsize = (if dir then 0 else k_le32 (\<lambda>i. entry (28 + i))),
          first_cluster = push_bit 16 (ucast (k_le16 (\<lambda>i. entry (20 + i)))) OR
             ucast (k_le16 (\<lambda>i. entry (26 + i))),
          is_dir = dir\<rparr>)"

text \<open>The callback of a directory scan: cluster, offset, raw entry, name and user data.\<close>

type_synonym 'u visitor = "u32 \<Rightarrow> nat \<Rightarrow> ptr \<Rightarrow> cstring \<Rightarrow> 'u \<Rightarrow> bool \<times> 'u"

text \<open>The loop over the entries of one cluster returns the flags \<open>end\<close> and \<open>found\<close>.\<close>

fun dir_entries :: "'u visitor \<Rightarrow> u32 \<Rightarrow> u8 list \<Rightarrow> nat \<Rightarrow> nat \<Rightarrow> lfn_acc \<Rightarrow> 'u \<Rightarrow> bool \<times> bool \<times> lfn_acc \<times> 'u" where
  "dir_entries visit cluster buf i 0 acc user = (False, False, acc, user)"
| "dir_entries visit cluster buf i (Suc n) acc user =
     (let entry = (\<lambda>k. buf ! (i * 32 + k)); b0 = entry 0
      in if b0 = 0 then (True, False, acc, user)
         else if b0 = 0xE5 then dir_entries visit cluster buf (Suc i) n lfn_reset user
         else if entry 11 AND 0x0F = 0x0F then
           dir_entries visit cluster buf (Suc i) n (lfn_add_part acc entry) user
         else let name = (if length acc > 0 then lfn_assemble acc 256 else build_short_name entry 256)
              in case visit cluster (i * 32) entry name user of (stop, user) \<Rightarrow>
                   if stop then (False, True, lfn_reset, user)
                   else dir_entries visit cluster buf (Suc i) n lfn_reset user)"

partial_function (option) read_directory_loop ::
  "fat32_ctx \<Rightarrow> storage \<Rightarrow> 'u visitor \<Rightarrow> u32 \<Rightarrow> lfn_acc \<Rightarrow> 'u \<Rightarrow> (bool \<times> 'u) option" where
  "read_directory_loop ctx st visit cluster acc user =
     (if cluster_valid cluster then do {
        r \<leftarrow> read_cluster ctx st cluster;
        case r of None \<Rightarrow> Some (False, user)
        | Some buf \<Rightarrow>
            (case dir_entries visit cluster buf 0 (unat (bytes_per_cluster ctx div 32)) acc user of
               (fin, found, acc, user) \<Rightarrow>
                 if fin \<or> found then Some (found, user)
                 else read_directory_loop ctx st visit cluster acc user)
      } else Some (False, user))"

declare read_directory_loop.simps [code]

definition read_directory ::
  "fat32_ctx \<Rightarrow> storage \<Rightarrow> u32 \<Rightarrow> 'u visitor \<Rightarrow> 'u \<Rightarrow> (bool \<times> 'u \<times> storage) option" where
  "read_directory ctx st dir_cluster visit user =
     (case kalloc st of (ok, st) \<Rightarrow>
        if \<not> ok then Some (False, user, st)
        else do {
          (found, user) \<leftarrow> read_directory_loop ctx st visit dir_cluster lfn_reset user;
          Some (found, user, st)
        })"

definition open_visit :: "cstring \<Rightarrow> fat32_dirent option visitor" where
  "open_visit name cluster offset entry ename found =
     (if found \<noteq> None then (True, found)
      else if name_matches ename name then (True, Some (make_dirent entry ename))
      else (False, None))"

definition find_entry :: "fat32_ctx \<Rightarrow> storage \<Rightarrow> u32 \<Rightarrow> cstring \<Rightarrow> (fat32_dirent option \<times> storage) option" where
  "find_entry ctx st dir_cluster name = do {
     (_, found, st) \<leftarrow> read_directory ctx st dir_cluster (open_visit name) None;
     Some (found, st)
   }"

record entry_loc =
  loc_d :: fat32_dirent
  loc_cluster :: u32
  loc_offset :: nat

definition locate_visit :: "cstring \<Rightarrow> entry_loc option visitor" where
  "locate_visit name cluster offset entry ename found =
     (if found \<noteq> None then (True, found)
      else if name_matches ename name then
        (True, Some \<lparr>loc_d = make_dirent entry ename, loc_cluster = cluster, loc_offset = offset\<rparr>)
      else (False, None))"

definition locate_entry :: "fat32_ctx \<Rightarrow> storage \<Rightarrow> u32 \<Rightarrow> cstring \<Rightarrow> (entry_loc option \<times> storage) option" where
  "locate_entry ctx st dir_cluster name = do {
     (_, found, st) \<leftarrow> read_directory ctx st dir_cluster (locate_visit name) None;
     Some (found, st)
   }"

text \<open>A write of \<open>xs\<close> into a buffer; it must stay inside.\<close>

definition patch :: "u8 list \<Rightarrow> nat \<Rightarrow> u8 list \<Rightarrow> u8 list option" where
  "patch buf off xs =
     (if off + length xs \<le> length buf then Some (take off buf @ xs @ drop (off + length xs) buf) else None)"

definition bslice :: "u8 list \<Rightarrow> nat \<Rightarrow> nat \<Rightarrow> u8 list" where
  "bslice buf off n = take n (drop off buf)"

text \<open>The run of free slots inside one cluster that \<open>dir_find_free_slots\<close> looks for.\<close>

fun slot_scan :: "u8 list \<Rightarrow> nat \<Rightarrow> nat \<Rightarrow> nat \<Rightarrow> nat \<Rightarrow> nat option" where
  "slot_scan buf slots i 0 run = None"
| "slot_scan buf slots i (Suc n) run =
     (let b0 = buf ! (i * 32)
      in if b0 = 0 \<or> b0 = 0xE5 then
           (if run + 1 = slots then Some ((i - (slots - 1)) * 32)
            else slot_scan buf slots (Suc i) n (run + 1))
         else slot_scan buf slots (Suc i) n 0)"

partial_function (option) find_slots_loop ::
  "fat32_ctx \<Rightarrow> storage \<Rightarrow> nat \<Rightarrow> u32 \<Rightarrow> u32 \<Rightarrow> ((u32 \<times> nat) option \<times> u32) option" where
  "find_slots_loop ctx st slots cluster last_cluster =
     (if cluster_valid cluster then do {
        r \<leftarrow> read_cluster ctx st cluster;
        case r of None \<Rightarrow> Some (None, last_cluster)
        | Some buf \<Rightarrow>
            (case slot_scan buf slots 0 (unat (bytes_per_cluster ctx div 32)) 0 of
               Some off \<Rightarrow> Some (Some (cluster, off), last_cluster)
             | None \<Rightarrow> do {
                 nxt \<leftarrow> fat_read_entry ctx st cluster;
                 find_slots_loop ctx st slots nxt cluster
               })
      } else Some (None, last_cluster))"

declare find_slots_loop.simps [code]

definition dir_find_free_slots ::
  "fat32_ctx \<Rightarrow> storage \<Rightarrow> u32 \<Rightarrow> nat \<Rightarrow> ((u32 \<times> nat) option \<times> storage) option" where
  "dir_find_free_slots ctx st dir_cluster slots =
     (case kalloc st of (ok, st) \<Rightarrow>
        if \<not> ok then Some (None, st)
        else do {
          (found, last_cluster) \<leftarrow> find_slots_loop ctx st slots dir_cluster dir_cluster;
          if found \<noteq> None then Some (found, st)
          else do {
            (newcl, st) \<leftarrow> fat32_alloc_cluster ctx st;
            if newcl = 0 then Some (None, st)
            else do {
              (ok, st) \<leftarrow> fat_write_entry ctx st last_cluster newcl;
              if \<not> ok then do { st \<leftarrow> fat32_free_chain ctx st newcl; Some (None, st) }
              else case kalloc st of (ok, st) \<Rightarrow>
                if \<not> ok then Some (None, st)
                else do {
                  (ok, st) \<leftarrow> write_cluster ctx st newcl (replicate (unat (bytes_per_cluster ctx)) 0);
                  if \<not> ok then do { st \<leftarrow> fat32_free_chain ctx st newcl; Some (None, st) }
                  else Some (Some (newcl, 0), st)
                }
            }
          }
        })"

text \<open>The fields of an 8.3 entry that are written behind the name.\<close>

definition entry_fields :: "u32 \<Rightarrow> u32 \<Rightarrow> bool \<Rightarrow> u8 list \<Rightarrow> u8 list" where
  "entry_fields fc sz dir e =
     e[11 := (if dir then 0x10 else 0x20),
       20 := ucast (drop_bit 16 fc AND 0xFF), 21 := ucast (drop_bit 24 fc AND 0xFF),
       26 := ucast (fc AND 0xFF), 27 := ucast (drop_bit 8 fc AND 0xFF),
       28 := ucast (sz AND 0xFF), 29 := ucast (drop_bit 8 sz AND 0xFF),
       30 := ucast (drop_bit 16 sz AND 0xFF), 31 := ucast (drop_bit 24 sz AND 0xFF)]"

text \<open>Reading a cluster, changing it and writing it back.\<close>

definition update_cluster ::
  "fat32_ctx \<Rightarrow> storage \<Rightarrow> u32 \<Rightarrow> (u8 list \<Rightarrow> u8 list option option) \<Rightarrow> (bool \<times> storage) option" where
  "update_cluster ctx st cluster f =
     (case kalloc st of (ok, st) \<Rightarrow>
        if \<not> ok then Some (False, st)
        else do {
          r \<leftarrow> read_cluster ctx st cluster;
          case r of None \<Rightarrow> Some (False, st)
          | Some buf \<Rightarrow> do {
              res \<leftarrow> f buf;
              case res of None \<Rightarrow> Some (False, st) | Some buf \<Rightarrow> write_cluster ctx st cluster buf
            }
        })"

definition write_dir_entry_at ::
  "fat32_ctx \<Rightarrow> storage \<Rightarrow> u32 \<Rightarrow> nat \<Rightarrow> cstring \<Rightarrow> u32 \<Rightarrow> u32 \<Rightarrow> bool \<Rightarrow> (bool \<times> storage) option" where
  "write_dir_entry_at ctx st cluster offset name fc sz dir =
     update_cluster ctx st cluster (\<lambda>buf.
       case encode_short_name name of
         None \<Rightarrow> Some None
       | Some short \<Rightarrow>
           map_option Some (patch buf offset
             (entry_fields fc sz dir (short @ drop 11 (bslice buf offset 32)))))"

definition name_ptr :: "fat32_ctx \<Rightarrow> cstring \<Rightarrow> ptr" where
  "name_ptr ctx name i = (if i \<le> length name then cstr name i else wild ctx i)"

fun lfn_fill_parts :: "ptr \<Rightarrow> nat \<Rightarrow> nat \<Rightarrow> u8 \<Rightarrow> nat \<Rightarrow> nat list \<Rightarrow> u8 list \<Rightarrow> u8 list option option" where
  "lfn_fill_parts name len parts checksum offset [] buf = Some (Some buf)"
| "lfn_fill_parts name len parts checksum offset (p # ps) buf =
     (if offset < (p + 1) * 32 then Some None
      else do {
        buf \<leftarrow> patch buf (offset - (p + 1) * 32) (lfn_entry name len parts checksum p);
        lfn_fill_parts name len parts checksum offset ps buf
      })"

definition create_dir_entries ::
  "fat32_ctx \<Rightarrow> storage \<Rightarrow> u32 \<Rightarrow> nat \<Rightarrow> cstring \<Rightarrow> u32 \<Rightarrow> u32 \<Rightarrow> bool \<Rightarrow> (bool \<times> storage) option" where
  "create_dir_entries ctx st cluster offset name fc sz dir =
     (case lfn_parts_for name of
        (parts, Some short11) \<Rightarrow>
          (if parts = 0 then write_dir_entry_at ctx st cluster offset name fc sz dir
           else update_cluster ctx st cluster (\<lambda>buf. do {
             r \<leftarrow> lfn_fill_parts (name_ptr ctx name) (length name) parts (lfn_checksum short11) offset [0..<parts] buf;
             case r of None \<Rightarrow> Some None
             | Some buf \<Rightarrow>
                 map_option Some (patch buf offset
                   (entry_fields fc sz dir (short11 @ drop 11 (bslice buf offset 32))))
           }))
      | (parts, None) \<Rightarrow> write_dir_entry_at ctx st cluster offset name fc sz dir)"


section \<open>Files and paths\<close>

text \<open>
  The walk through all components of a path but the last: the directory cluster, or which step
  failed (a component not found, or not a directory).
\<close>

datatype walk_result = Dir u32 | No_entry | Not_dir

fun walk_dirs :: "fat32_ctx \<Rightarrow> storage \<Rightarrow> u32 \<Rightarrow> cstring list \<Rightarrow> (walk_result \<times> storage) option" where
  "walk_dirs ctx st dir_cluster (c # d # cs) = do {
     (e, st) \<leftarrow> find_entry ctx st dir_cluster c;
     case e of None \<Rightarrow> Some (No_entry, st)
     | Some e \<Rightarrow> if \<not> is_dir e then Some (Not_dir, st) else walk_dirs ctx st (first_cluster e) (d # cs)
   }"
| "walk_dirs ctx st dir_cluster cs = Some (Dir dir_cluster, st)"

text \<open>
  The loop of \<open>fat32_write_file\<close> that allocates and fills the clusters \<open>i, i + 1, \<dots>\<close> of the new
  chain; it returns whether all went well, and the first cluster.
\<close>

fun write_chain ::
  "fat32_ctx \<Rightarrow> storage \<Rightarrow> u8 list \<Rightarrow> u32 \<Rightarrow> u32 \<Rightarrow> nat \<Rightarrow> u32 \<Rightarrow> u32 \<Rightarrow> (bool \<times> u32 \<times> storage) option" where
  "write_chain ctx st buffer sz i 0 fc prev = Some (True, fc, st)"
| "write_chain ctx st buffer sz i (Suc n) fc prev = do {
     (cl, st) \<leftarrow> fat32_alloc_cluster ctx st;
     if cl = 0 then Some (False, fc, st)
     else do {
       (linked, st) \<leftarrow> (if fc = 0 then Some (True, st) else fat_write_entry ctx st prev cl);
       if \<not> linked then do { st \<leftarrow> fat32_free_chain ctx st fc; Some (False, fc, st) }
       else let fc = (if fc = 0 then cl else fc);
                bpc = bytes_per_cluster ctx;
                left = sz - i * bpc;
                chunk = (if bpc > left then left else bpc);
                src = bslice buffer (unat (i * bpc)) (unat chunk)
            in do {
              (ok, st) \<leftarrow> write_cluster ctx st cl (src @ replicate (unat bpc - unat chunk) 0);
              if \<not> ok then do { st \<leftarrow> fat32_free_chain ctx st fc; Some (False, fc, st) }
              else write_chain ctx st buffer sz (i + 1) n fc cl
            }
     }
   }"

definition fat32_write_file ::
  "fat32_ctx \<Rightarrow> storage \<Rightarrow> cstring \<Rightarrow> u8 list \<Rightarrow> u32 \<Rightarrow> (bool \<times> storage) option" where
  "fat32_write_file ctx st path buffer sz =
     (case path_components (\<lambda>_. True) path 0 of
        None \<Rightarrow> Some (False, st)
      | Some comps \<Rightarrow>
          (if comps = [] then Some (False, st)
           else do {
             (w, st) \<leftarrow> walk_dirs ctx st (root_cluster ctx) comps;
             case w of
               Dir dir_cluster \<Rightarrow> do {
                 (loc, st) \<leftarrow> locate_entry ctx st dir_cluster (last comps);
                 case kalloc st of (ok, st) \<Rightarrow>
                   if \<not> ok then Some (False, st)
                   else let bpc = bytes_per_cluster ctx; n = (sz + bpc - 1) div bpc
                     in do {
                       (ok, fc, st) \<leftarrow> write_chain ctx st buffer sz 0 (unat n) 0 0;
                       if \<not> ok then Some (False, st)
                       else case loc of
                         Some l \<Rightarrow> do {
                           st \<leftarrow> (if first_cluster (loc_d l) \<ge> 2
                                  then fat32_free_chain ctx st (first_cluster (loc_d l)) else Some st);
                           write_dir_entry_at ctx st (loc_cluster l) (loc_offset l) (last comps) fc sz False
                         }
                       | None \<Rightarrow>
                           (let parts = fst (lfn_parts_for (last comps))
                            in do {
                              (slot, st) \<leftarrow> dir_find_free_slots ctx st dir_cluster (parts + 1);
                              case slot of None \<Rightarrow> Some (False, st)
                              | Some (cl, off) \<Rightarrow>
                                  create_dir_entries ctx st cl (off + parts * 32) (last comps) fc sz False
                            })
                     }
               }
             | _ \<Rightarrow> Some (False, st)
           }))"

partial_function (option) write_loop ::
  "fat32_ctx \<Rightarrow> storage \<Rightarrow> u8 list \<Rightarrow> u32 \<Rightarrow> u32 \<Rightarrow> u32 \<Rightarrow> u32 \<Rightarrow> u32 \<Rightarrow> u32 \<Rightarrow>
     (u32 \<times> u32 \<times> storage) option" where
  "write_loop ctx st src sz fc prev cluster in_cluster cnt =
     (if cnt < sz then do {
        (alloc, fc, cluster, st) \<leftarrow>
          (if cluster_valid cluster then Some (True, fc, cluster, st)
           else do {
             (newcl, st) \<leftarrow> fat32_alloc_cluster ctx st;
             if newcl = 0 then Some (False, fc, cluster, st)
             else if fc = 0 then Some (True, newcl, newcl, st)
             else do {
               (ok, st) \<leftarrow> fat_write_entry ctx st prev newcl;
               if ok then Some (True, fc, newcl, st)
               else do { st \<leftarrow> fat32_free_chain ctx st newcl; Some (False, fc, cluster, st) }
             }
           });
        if \<not> alloc then Some (cnt, fc, st)
        else let bpc = bytes_per_cluster ctx;
                 left = bpc - in_cluster;
                 chunk = (if sz - cnt > left then left else sz - cnt)
             in do {
               (ok, st) \<leftarrow>
                 (if in_cluster = 0 \<and> chunk = bpc then write_cluster ctx st cluster (bslice src (unat cnt) (unat bpc))
                  else do {
                    r \<leftarrow> read_cluster ctx st cluster;
                    case r of None \<Rightarrow> Some (False, st)
                    | Some cbuf \<Rightarrow> do {
                        cbuf \<leftarrow> patch cbuf (unat in_cluster) (bslice src (unat cnt) (unat chunk));
                        write_cluster ctx st cluster cbuf
                      }
                  });
               if \<not> ok then Some (cnt, fc, st)
               else if in_cluster + chunk = bpc then do {
                 nxt \<leftarrow> fat_read_entry ctx st cluster;
                 write_loop ctx st src sz fc cluster nxt 0 (cnt + chunk)
               } else write_loop ctx st src sz fc prev cluster (in_cluster + chunk) (cnt + chunk)
             }
      } else Some (cnt, fc, st))"

declare write_loop.simps [code]

definition fat32_write ::
  "fat32_ctx \<Rightarrow> storage \<Rightarrow> u32 \<Rightarrow> u32 \<Rightarrow> u8 list \<Rightarrow> u32 \<Rightarrow> (u32 \<times> u32 \<times> storage) option" where
  "fat32_write ctx st fc offset src sz =
     (if sz = 0 then Some (0, fc, st)
      else case kalloc st of (ok, st) \<Rightarrow>
        if \<not> ok then Some (0, fc, st)
        else let bpc = bytes_per_cluster ctx
             in do {
               (prev, cluster) \<leftarrow> skip_clusters ctx st (unat (offset div bpc)) fc fc;
               write_loop ctx st src sz fc prev cluster (offset mod bpc) 0
             })"

definition fat32_update_size ::
  "fat32_ctx \<Rightarrow> storage \<Rightarrow> cstring \<Rightarrow> u32 \<Rightarrow> u32 \<Rightarrow> (bool \<times> storage) option" where
  "fat32_update_size ctx st path fc sz =
     (case path_components (\<lambda>_. True) path 0 of
        None \<Rightarrow> Some (False, st)
      | Some comps \<Rightarrow>
          (if comps = [] then Some (False, st)
           else do {
             (w, st) \<leftarrow> walk_dirs ctx st (root_cluster ctx) comps;
             case w of
               Dir dir_cluster \<Rightarrow> do {
                 (loc, st) \<leftarrow> locate_entry ctx st dir_cluster (last comps);
                 case loc of None \<Rightarrow> Some (False, st)
                 | Some l \<Rightarrow> write_dir_entry_at ctx st (loc_cluster l) (loc_offset l) (last comps) fc sz False
               }
             | _ \<Rightarrow> Some (False, st)
           }))"

definition dot_entry :: "u8 list \<Rightarrow> u32 \<Rightarrow> u8 list" where
  "dot_entry dots cl =
     (dots @ replicate (32 - length dots) 0)[11 := 0x10,
        20 := ucast (drop_bit 16 cl AND 0xFF), 21 := ucast (drop_bit 24 cl AND 0xFF),
        26 := ucast (cl AND 0xFF), 27 := ucast (drop_bit 8 cl AND 0xFF)]"

definition write_dot_entries :: "fat32_ctx \<Rightarrow> storage \<Rightarrow> u32 \<Rightarrow> u32 \<Rightarrow> (bool \<times> storage) option" where
  "write_dot_entries ctx st dir_cluster parent_cluster =
     (case kalloc st of (ok, st) \<Rightarrow>
        if \<not> ok then Some (False, st)
        else do {
          buf \<leftarrow> patch (replicate (unat (bytes_per_cluster ctx)) 0) 0
                    (dot_entry [0x2E] dir_cluster @ dot_entry [0x2E, 0x2E] parent_cluster);
          write_cluster ctx st dir_cluster buf
        })"

definition fat32_mkdir :: "fat32_ctx \<Rightarrow> storage \<Rightarrow> cstring \<Rightarrow> (int \<times> storage) option" where
  "fat32_mkdir ctx st path =
     (case path_components valid_component_name path 0 of
        None \<Rightarrow> Some (- 22, st)
      | Some comps \<Rightarrow>
          (if comps = [] then Some (- 22, st)
           else do {
             (w, st) \<leftarrow> walk_dirs ctx st (root_cluster ctx) comps;
             case w of
               No_entry \<Rightarrow> Some (- 2, st)
             | Not_dir \<Rightarrow> Some (- 21, st)
             | Dir dir_cluster \<Rightarrow> do {
                 (existing, st) \<leftarrow> find_entry ctx st dir_cluster (last comps);
                 if existing \<noteq> None then Some (- 17, st)
                 else do {
                   (newcl, st) \<leftarrow> fat32_alloc_cluster ctx st;
                   if newcl = 0 then Some (- 39, st)
                   else do {
                     (ok, st) \<leftarrow> write_dot_entries ctx st newcl dir_cluster;
                     if \<not> ok then do { st \<leftarrow> fat32_free_chain ctx st newcl; Some (- 22, st) }
                     else let parts = fst (lfn_parts_for (last comps))
                       in do {
                         (slot, st) \<leftarrow> dir_find_free_slots ctx st dir_cluster (parts + 1);
                         case slot of
                           None \<Rightarrow> do { st \<leftarrow> fat32_free_chain ctx st newcl; Some (- 39, st) }
                         | Some (cl, off) \<Rightarrow> do {
                             (ok, st) \<leftarrow> create_dir_entries ctx st cl (off + parts * 32) (last comps) newcl 0 True;
                             if \<not> ok then do { st \<leftarrow> fat32_free_chain ctx st newcl; Some (- 22, st) }
                             else Some (0, st)
                           }
                       }
                   }
                 }
               }
           }))"

fun delete_parts :: "u8 list \<Rightarrow> nat \<Rightarrow> u8 list" where
  "delete_parts buf 0 = buf"
| "delete_parts buf (Suc k) =
     (if buf ! (k * 32 + 11) = 0x0F then delete_parts (buf[k * 32 := 0xE5]) k else buf)"

text \<open>The LFN parts are visited from offset \<open>offset - 32\<close> downwards; offsets are multiples of 32.\<close>

definition mark_entry_deleted :: "fat32_ctx \<Rightarrow> storage \<Rightarrow> u32 \<Rightarrow> nat \<Rightarrow> (bool \<times> storage) option" where
  "mark_entry_deleted ctx st cluster offset =
     (case kalloc st of (ok, st) \<Rightarrow>
        if \<not> ok then Some (False, st)
        else do {
          r \<leftarrow> read_cluster ctx st cluster;
          case r of None \<Rightarrow> Some (False, st)
          | Some buf \<Rightarrow>
              (if buf ! offset = 0 \<or> buf ! offset = 0xE5 then Some (True, st)
               else write_cluster ctx st cluster (delete_parts (buf[offset := 0xE5]) (offset div 32)))
        })"

definition remove_collect_visit :: "entry_loc list visitor" where
  "remove_collect_visit cluster offset entry ename items =
     (if length items \<ge> 512 then (True, items)
      else (False, items @ [\<lparr>loc_d = make_dirent entry ename, loc_cluster = cluster, loc_offset = offset\<rparr>]))"

fun remove_items ::
  "(storage \<Rightarrow> u32 \<Rightarrow> (int \<times> storage) option) \<Rightarrow> fat32_ctx \<Rightarrow> storage \<Rightarrow> entry_loc list \<Rightarrow> (int \<times> storage) option" where
  "remove_items rec ctx st [] = Some (0, st)"
| "remove_items rec ctx st (ch # items) = do {
     (rc, st) \<leftarrow>
       (if is_dir (loc_d ch) then rec st (first_cluster (loc_d ch))
        else if first_cluster (loc_d ch) \<ge> 2 then do {
          st \<leftarrow> fat32_free_chain ctx st (first_cluster (loc_d ch));
          Some (0, st)
        } else Some (0, st));
     if rc \<noteq> 0 then Some (rc, st)
     else do {
       (_, st) \<leftarrow> mark_entry_deleted ctx st (loc_cluster ch) (loc_offset ch);
       remove_items rec ctx st items
     }
   }"

text \<open>The first argument is \<open>17 - depth\<close>.\<close>

primrec remove_recursive :: "nat \<Rightarrow> fat32_ctx \<Rightarrow> storage \<Rightarrow> u32 \<Rightarrow> (int \<times> storage) option" where
  "remove_recursive 0 ctx st dir_cluster = Some (- 39, st)"
| "remove_recursive (Suc k) ctx st dir_cluster = do {
     (_, items, st) \<leftarrow> read_directory ctx st dir_cluster remove_collect_visit [];
     (rc, st) \<leftarrow> remove_items (remove_recursive k ctx) ctx st items;
     if rc \<noteq> 0 then Some (rc, st)
     else if dir_cluster \<ge> 2 then do { st \<leftarrow> fat32_free_chain ctx st dir_cluster; Some (0, st) }
     else Some (0, st)
   }"

definition fat32_remove :: "fat32_ctx \<Rightarrow> storage \<Rightarrow> cstring \<Rightarrow> (int \<times> storage) option" where
  "fat32_remove ctx st path =
     (case path_components (\<lambda>_. True) path 0 of
        None \<Rightarrow> Some (- 22, st)
      | Some comps \<Rightarrow>
          (if comps = [] then Some (- 22, st)
           else do {
             (w, st) \<leftarrow> walk_dirs ctx st (root_cluster ctx) comps;
             case w of
               No_entry \<Rightarrow> Some (- 2, st)
             | Not_dir \<Rightarrow> Some (- 21, st)
             | Dir dir_cluster \<Rightarrow> do {
                 (loc, st) \<leftarrow> locate_entry ctx st dir_cluster (last comps);
                 case loc of None \<Rightarrow> Some (- 2, st)
                 | Some l \<Rightarrow> do {
                     (rc, st) \<leftarrow>
                       (if is_dir (loc_d l) then remove_recursive 17 ctx st (first_cluster (loc_d l))
                        else if first_cluster (loc_d l) \<ge> 2 then do {
                          st \<leftarrow> fat32_free_chain ctx st (first_cluster (loc_d l));
                          Some (0, st)
                        } else Some (0, st));
                     if rc \<noteq> 0 then Some (rc, st)
                     else do {
                       (_, st) \<leftarrow> mark_entry_deleted ctx st (loc_cluster l) (loc_offset l);
                       Some (0, st)
                     }
                   }
               }
           }))"

function open_walk :: "fat32_ctx \<Rightarrow> storage \<Rightarrow> u32 \<Rightarrow> cstring \<Rightarrow> (fat32_dirent option \<times> storage) option" where
  "open_walk ctx st dir_cluster path =
     (case split_component path 256 of
        None \<Rightarrow> Some (None, st)
      | Some (c, rest) \<Rightarrow>
          (case find_entry ctx st dir_cluster c of
             None \<Rightarrow> None
           | Some (None, st) \<Rightarrow> Some (None, st)
           | Some (Some e, st) \<Rightarrow>
               (if rest = [] then Some (Some e, st)
                else if \<not> is_dir e then Some (None, st)
                else open_walk ctx st (first_cluster e) rest)))"
  by pat_completeness auto
termination
  by (relation "measure (\<lambda>(ctx, st, c, p). length p)") (auto dest: split_component_shorter)

declare open_walk.simps [simp del]

definition fat32_open :: "fat32_ctx \<Rightarrow> storage \<Rightarrow> cstring \<Rightarrow> (fat32_dirent option \<times> storage) option" where
  "fat32_open ctx st name = open_walk ctx st (root_cluster ctx) name"

definition fat32_stat :: "fat32_ctx \<Rightarrow> storage \<Rightarrow> cstring \<Rightarrow> ((u64 \<times> bool) option \<times> storage) option" where
  "fat32_stat ctx st path = do {
     (e, st) \<leftarrow> fat32_open ctx st path;
     Some (map_option (\<lambda>e. (ucast (dsize e), is_dir e)) e, st)
   }"

text \<open>The calls a listing makes to its callback, in order: name, size, directory flag.\<close>

type_synonym listing = "(cstring \<times> u32 \<times> bool) list"

definition list_visit :: "listing visitor" where
  "list_visit cluster offset entry ename l =
     (let d = make_dirent entry ename in (False, l @ [(dname d, dsize d, is_dir d)]))"

definition fat32_list_dir_ctx :: "fat32_ctx \<Rightarrow> storage \<Rightarrow> cstring \<Rightarrow> (listing \<times> storage) option" where
  "fat32_list_dir_ctx ctx st path = do {
     (dir, st) \<leftarrow>
       (if path \<noteq> [] \<and> k_strncmp (cstr path) (cstr (str ''/'')) 2 \<noteq> 0 then do {
          (e, st) \<leftarrow> fat32_open ctx st path;
          case e of Some e \<Rightarrow> Some (if is_dir e then Some (first_cluster e) else None, st)
          | None \<Rightarrow> Some (None, st)
        } else Some (Some (root_cluster ctx), st));
     case dir of None \<Rightarrow> Some ([], st)
     | Some cl \<Rightarrow> do {
         (_, l, st) \<leftarrow> read_directory ctx st cl list_visit [];
         Some (l, st)
       }
   }"

definition int32 :: "u32 \<Rightarrow> int" where
  "int32 x = sint x"

definition fat32_vfs_read_at ::
  "fat32_ctx \<Rightarrow> storage \<Rightarrow> cstring \<Rightarrow> u32 \<Rightarrow> u32 \<Rightarrow> (int \<times> u8 list \<times> storage) option" where
  "fat32_vfs_read_at ctx st path offset buffer_size = do {
     (e, st) \<leftarrow> fat32_open ctx st path;
     case e of None \<Rightarrow> Some (- 1, [], st)
     | Some e \<Rightarrow>
         (if is_dir e then Some (- 1, [], st)
          else if offset \<ge> dsize e then Some (0, [], st)
          else do {
            (n, data, st) \<leftarrow> fat32_read_at ctx st (first_cluster e) offset
               (if buffer_size > dsize e - offset then dsize e - offset else buffer_size);
            Some (int32 n, data, st)
          })
   }"

definition fat32_vfs_write_at ::
  "fat32_ctx \<Rightarrow> storage \<Rightarrow> cstring \<Rightarrow> u32 \<Rightarrow> u8 list \<Rightarrow> u32 \<Rightarrow> (bool \<times> storage) option" where
  "fat32_vfs_write_at ctx st path offset buffer sz = do {
     (e, st) \<leftarrow> fat32_open ctx st path;
     case e of None \<Rightarrow> Some (False, st)
     | Some e \<Rightarrow>
         (if is_dir e then Some (False, st)
          else do {
            (written, fc, st) \<leftarrow> fat32_write ctx st (first_cluster e) offset buffer sz;
            if written \<noteq> sz then Some (False, st)
            else fat32_update_size ctx st path fc (if offset + sz > dsize e then offset + sz else dsize e)
          })
   }"

definition fat32_vfs_read_file ::
  "fat32_ctx \<Rightarrow> storage \<Rightarrow> cstring \<Rightarrow> u32 \<Rightarrow> (int \<times> u8 list \<times> storage) option" where
  "fat32_vfs_read_file ctx st path buffer_size = do {
     (e, st) \<leftarrow> fat32_open ctx st path;
     case e of None \<Rightarrow> Some (- 1, [], st)
     | Some e \<Rightarrow>
         (if is_dir e then Some (- 1, [], st)
          else do {
            (n, data, st) \<leftarrow> fat32_read ctx st (first_cluster e) (if dsize e < buffer_size then dsize e else buffer_size);
            Some (int32 n, data, st)
          })
   }"

end
