(* ===== verification/Fat32_Volume.thy ===== *)
theory Fat32_Volume
  imports Fat32
begin

text \<open>
  Correctness of the FAT32 operations of \<^verbatim>\<open>fs/fat32.c\<close> on a well-formed volume: the file
  allocation table as a map from clusters to their successors, clusters as byte arrays, allocation,
  cluster chains, and the round trip of file contents; and directories on which lookup and removal
  fail. All facts about the disk come from the interpretation of the sector interface in the block
  layer.
\<close>

section \<open>The volume\<close>

text \<open>
  A well-formed volume: the geometry \<open>fat32_mount\<close> accepts, a healthy device, and room on the device
  for the file allocation table and for every cluster the table describes. The last condition is stronger
  than what formatting tools leave, which round the table up to whole sectors; \<open>fat32_find_free\<close> searches
  all entries of the table and does not know the number of clusters of the volume.
\<close>

definition nfat :: "fat32_ctx \<Rightarrow> nat" where
  "nfat ctx = unat (fat_size ctx) * 128"

definition fs_ok :: "fat32_ctx \<Rightarrow> storage \<Rightarrow> bool" where
  "fs_ok ctx st \<longleftrightarrow> dev_ready (fdev ctx) st \<and> bytes_per_sector ctx = 512 \<and>
     sectors_per_cluster ctx \<noteq> 0 \<and> unat (sectors_per_cluster ctx) \<le> 128 \<and>
     bytes_per_cluster ctx = 512 * sectors_per_cluster ctx \<and>
     2 < nfat ctx \<and> nfat ctx < 0x0FFFFFF7 \<and>
     unat (fat_start ctx) + unat (fat_size ctx) \<le> unat (data_start ctx) \<and>
     unat (data_start ctx) + (nfat ctx - 2) * unat (sectors_per_cluster ctx) \<le> dev_cap (fdev ctx) st \<and>
     unat (data_start ctx) + (nfat ctx - 2) * unat (sectors_per_cluster ctx) < 2 ^ 32"

definition fat_lba :: "fat32_ctx \<Rightarrow> u32 \<Rightarrow> nat" where
  "fat_lba ctx c = unat (fat_start ctx) + unat c div 128"

definition clus_lba :: "fat32_ctx \<Rightarrow> u32 \<Rightarrow> nat" where
  "clus_lba ctx c = unat (data_start ctx) + (unat c - 2) * unat (sectors_per_cluster ctx)"

abbreviation "fsect ctx st k \<equiv> dev_sect (fdev ctx) st (of_nat k)"

text \<open>The entry of a cluster in the table, and the bytes of a cluster.\<close>

definition fat_raw :: "fat32_ctx \<Rightarrow> storage \<Rightarrow> u32 \<Rightarrow> u32" where
  "fat_raw ctx st c = k_le32 (\<lambda>i. fsect ctx st (fat_lba ctx c) ! (4 * (unat c mod 128) + i))"

definition fat_val :: "fat32_ctx \<Rightarrow> storage \<Rightarrow> u32 \<Rightarrow> u32" where
  "fat_val ctx st c = fat_raw ctx st c AND 0x0FFFFFFF"

definition clus :: "fat32_ctx \<Rightarrow> storage \<Rightarrow> u32 \<Rightarrow> u8 list" where
  "clus ctx st c = concat (map (\<lambda>k. fsect ctx st (clus_lba ctx c + k)) [0..<unat (sectors_per_cluster ctx)])"

lemma ucast_64_nat: "(ucast x :: u64) = of_nat (unat x)" for x :: u32
  by simp

lemma fat_entry_pos:
  assumes "fs_ok ctx st" "unat c < nfat ctx"
  shows "ucast (fat_start ctx + (c * 4) div bytes_per_sector ctx) = (of_nat (fat_lba ctx c) :: u64)"
    "unat ((c * 4) mod bytes_per_sector ctx) = 4 * (unat c mod 128)"
    "fat_lba ctx c < dev_cap (fdev ctx) st" "fat_lba ctx c < unat (data_start ctx)"
proof -
  have b: "bytes_per_sector ctx = 512" and n: "nfat ctx < 0x0FFFFFF7" using assms(1) by (auto simp: fs_ok_def)
  have c4: "unat (c * 4) = unat c * 4"
  proof -
    have "unat c * unat (4 :: u32) < 2 ^ LENGTH(32)" using assms(2) n by simp
    then have "unat (c * 4) = unat c * unat (4 :: u32)" by (simp only: unat_mult_lem)
    then show ?thesis by simp
  qed
  have d: "unat ((c * 4) div 512) = unat c div 128" using c4 by (simp add: unat_div)
  have r: "unat c div 128 < unat (fat_size ctx)"
    using assms(2) by (simp add: nfat_def div_less_iff_less_mult)
  then show l: "fat_lba ctx c < unat (data_start ctx)" "fat_lba ctx c < dev_cap (fdev ctx) st"
    using assms(1) by (auto simp: fat_lba_def fs_ok_def)
  have "unat (fat_start ctx) + unat ((c * 4) div 512) < 2 ^ LENGTH(32)"
    using l(1) d unsigned_less [of "data_start ctx", where 'a = nat] by (simp add: fat_lba_def)
  then have "unat (fat_start ctx + (c * 4) div 512) = fat_lba ctx c"
    unfolding fat_lba_def d [symmetric] by (simp only: unat_add_lem)
  then show "ucast (fat_start ctx + (c * 4) div bytes_per_sector ctx) = (of_nat (fat_lba ctx c) :: u64)"
    using b ucast_64_nat [of "fat_start ctx + (c * 4) div 512"] by simp
  show "unat ((c * 4) mod bytes_per_sector ctx) = 4 * (unat c mod 128)"
    using b c4 by (simp add: unat_mod mult_mod_right mult.commute)
qed

lemma clus_pos:
  assumes "fs_ok ctx st" "2 \<le> unat c" "unat c < nfat ctx"
  shows "ucast (cluster_to_lba ctx c) = (of_nat (clus_lba ctx c) :: u64)"
    "clus_lba ctx c + unat (sectors_per_cluster ctx) \<le> dev_cap (fdev ctx) st"
    "clus_lba ctx c + unat (sectors_per_cluster ctx) < 2 ^ 32"
proof -
  let ?s = "unat (sectors_per_cluster ctx)"
  have F: "unat (data_start ctx) + (nfat ctx - 2) * ?s \<le> dev_cap (fdev ctx) st"
    "unat (data_start ctx) + (nfat ctx - 2) * ?s < 2 ^ 32" using assms(1) by (auto simp: fs_ok_def)
  have "(unat c - 2) * ?s + ?s = (unat c - 1) * ?s"
    using assms(2) by (metis Suc_1 Suc_diff_le add.commute diff_Suc_Suc mult_Suc One_nat_def)
  also have "\<dots> \<le> (nfat ctx - 2) * ?s" using assms(3) by (intro mult_le_mono1) simp
  finally have m: "(unat c - 2) * ?s + ?s \<le> (nfat ctx - 2) * ?s" .
  then show b: "clus_lba ctx c + ?s \<le> dev_cap (fdev ctx) st" "clus_lba ctx c + ?s < 2 ^ 32"
    using F by (simp_all add: clus_lba_def)
  have c2: "unat (c - 2) = unat c - 2"
    using assms(2) unat_sub [of 2 c] by (simp add: word_le_nat_alt)
  have lt: "unat (c - 2) * ?s < 2 ^ LENGTH(32)" using b(2) c2 by (simp add: clus_lba_def)
  then have "unat ((c - 2) * sectors_per_cluster ctx) = unat (c - 2) * ?s" by (simp only: unat_mult_lem)
  then have p: "unat ((c - 2) * sectors_per_cluster ctx) = (unat c - 2) * ?s" by (simp only: c2)
  have "unat (data_start ctx) + unat ((c - 2) * sectors_per_cluster ctx) < 2 ^ LENGTH(32)"
    using b(2) p by (simp add: clus_lba_def)
  then have "unat (cluster_to_lba ctx c) = clus_lba ctx c"
    unfolding cluster_to_lba_def clus_lba_def p [symmetric] by (simp only: unat_add_lem)
  then show "ucast (cluster_to_lba ctx c) = (of_nat (clus_lba ctx c) :: u64)"
    using ucast_64_nat [of "cluster_to_lba ctx c"] by simp
qed

lemma dev_cap_64: "dev_cap dev st < 2 ^ 64"
  using unsigned_less [of "sector_count (devs st dev)", where 'a = nat] by (simp add: dev_cap_def)

lemma sector_in:
  assumes "k < dev_cap dev st"
  shows "unat (of_nat k :: u64) + unat (1 :: u32) \<le> dev_cap dev st"
  using assms dev_cap_64 [of dev st] unat_of_nat_small [where 'a = 64, of k] by simp

lemma of_nat_64_eq:
  assumes "j < 2 ^ 64" "k < 2 ^ 64"
  shows "(of_nat j :: u64) = of_nat k \<longleftrightarrow> j = k"
proof -
  have "unat (of_nat j :: u64) = j" "unat (of_nat k :: u64) = k"
    using assms by (simp_all add: unat_of_nat_small)
  then show ?thesis by metis
qed

lemma fs_okD:
  assumes "fs_ok ctx st"
  shows "dev_ready (fdev ctx) st" "nfat ctx < 0x0FFFFFF7" "sectors_per_cluster ctx \<noteq> 0"
    "unat (bytes_per_cluster ctx) = 512 * unat (sectors_per_cluster ctx)"
proof -
  have s: "unat (sectors_per_cluster ctx) \<le> 128" "bytes_per_cluster ctx = 512 * sectors_per_cluster ctx"
    using assms by (auto simp: fs_ok_def)
  then have "unat (512 :: u32) * unat (sectors_per_cluster ctx) < 2 ^ LENGTH(32)" by simp
  then have "unat (512 * sectors_per_cluster ctx) = unat (512 :: u32) * unat (sectors_per_cluster ctx)"
    by (simp only: unat_mult_lem)
  then show "unat (bytes_per_cluster ctx) = 512 * unat (sectors_per_cluster ctx)" using s(2) by simp
qed (use assms in \<open>auto simp: fs_ok_def\<close>)

lemma fat_read_ok:
  assumes "fs_ok ctx st" "unat c < nfat ctx"
  shows "fat_read_entry ctx st c = Some (fat_val ctx st c)"
proof -
  note p = fat_entry_pos [OF assms]
  have "block_read st (fdev ctx) (of_nat (fat_lba ctx c)) 1 = Some (Some (fsect ctx st (fat_lba ctx c)))"
    using bs.rd_in [OF fs_okD(1) [OF assms(1)] _ sector_in [OF p(3)]] by simp
  then show ?thesis
    by (simp add: fat_read_entry_def p(1,2) Let_def fat_val_def fat_raw_def)
qed

lemma clus_length:
  assumes "fs_ok ctx st"
  shows "length (clus ctx st c) = unat (bytes_per_cluster ctx)"
proof -
  have "length (concat (map (\<lambda>k. fsect ctx st (clus_lba ctx c + k)) [0..<n])) = 512 * n" for n
    by (induction n) (simp_all add: bs.sect_length [OF fs_okD(1) [OF assms]])
  then show ?thesis by (simp add: clus_def fs_okD(4) [OF assms])
qed

lemma read_cluster_ok:
  assumes "fs_ok ctx st" "2 \<le> unat c" "unat c < nfat ctx"
  shows "read_cluster ctx st c = Some (Some (clus ctx st c))"
proof -
  note p = clus_pos [OF assms]
  have "unat (of_nat (clus_lba ctx c) :: u64) = clus_lba ctx c"
    using p(3) by (intro unat_of_nat_small) simp
  then have "unat (of_nat (clus_lba ctx c) :: u64) + unat (sectors_per_cluster ctx) \<le> dev_cap (fdev ctx) st"
    using p(2) by simp
  then have "block_read st (fdev ctx) (of_nat (clus_lba ctx c)) (sectors_per_cluster ctx) =
      Some (Some (concat (map (\<lambda>k. dev_sect (fdev ctx) st (of_nat (clus_lba ctx c) + of_nat k)) [0..<unat (sectors_per_cluster ctx)])))"
    by (rule bs.rd_in [OF fs_okD(1,3) [OF assms(1)]])
  then show ?thesis by (simp add: read_cluster_def p(1) clus_def)
qed

lemma k_le32_bytes:
  assumes "p 0 = ucast v" "p (Suc 0) = ucast (drop_bit 8 v)" "p 2 = ucast (drop_bit 16 v)" "p 3 = ucast (drop_bit 24 v)"
  shows "k_le32 p = v"
proof (rule bit_word_eqI)
  fix n assume "n < LENGTH(32)"
  then have n: "n < 32" by simp
  consider "n < 8" | "8 \<le> n" "n < 16" | "16 \<le> n" "n < 24" | "24 \<le> n" using n by linarith
  then show "bit (k_le32 p) n \<longleftrightarrow> bit v n"
    using n by cases (auto simp: k_le32_def assms bit_simps)
qed

lemma k_le32_cong: "(\<And>i. i < 4 \<Longrightarrow> p i = q i) \<Longrightarrow> k_le32 p = k_le32 q"
  by (simp add: k_le32_def)

text \<open>What an operation keeps of a volume: its geometry, and the state outside the disk.\<close>

definition vol_same :: "fat32_ctx \<Rightarrow> storage \<Rightarrow> storage \<Rightarrow> bool" where
  "vol_same ctx st st' \<longleftrightarrow> fs_ok ctx st' \<and> st_rest st' = st_rest st"

lemma vol_same_trans: "vol_same ctx a b \<Longrightarrow> vol_same ctx b c \<Longrightarrow> vol_same ctx a c"
  by (simp add: vol_same_def)

lemma vol_same_kalloc: "vol_same ctx st st' \<Longrightarrow> alloc_ok st' = alloc_ok st"
  using st_restD(2) [of st' st] by (simp add: vol_same_def)

lemma fs_ok_write:
  assumes "fs_ok ctx st" "dev_ready (fdev ctx) st'" "dev_cap (fdev ctx) st' = dev_cap (fdev ctx) st"
  shows "fs_ok ctx st'"
  using assms by (simp add: fs_ok_def)

lemma write_sector_ok:
  assumes "fs_ok ctx st" "k < dev_cap (fdev ctx) st" "length b = 512"
  shows "\<exists>st'. block_write st (fdev ctx) (of_nat k) 1 b = Some (True, st') \<and> vol_same ctx st st' \<and>
    (\<forall>j < 2 ^ 64. fsect ctx st' j = (if j = k then b else fsect ctx st j))"
proof -
  have k: "k < 2 ^ 64" using assms(2) dev_cap_64 [of "fdev ctx" st] by simp
  obtain st' where w: "block_write st (fdev ctx) (of_nat k) 1 b = Some (True, st')" "dev_ready (fdev ctx) st'"
    "dev_cap (fdev ctx) st' = dev_cap (fdev ctx) st" "st_rest st' = st_rest st"
    "\<forall>i < unat (1 :: u32). dev_sect (fdev ctx) st' (of_nat k + of_nat i) = take 512 (drop (512 * i) b)"
    "\<forall>y. (\<forall>i < unat (1 :: u32). y \<noteq> of_nat k + of_nat i) \<longrightarrow> dev_sect (fdev ctx) st' y = dev_sect (fdev ctx) st y"
    using bs.wr_in [OF fs_okD(1) [OF assms(1)] _ sector_in [OF assms(2)], of b] assms(3) by auto
  have "fsect ctx st' j = (if j = k then b else fsect ctx st j)" if "j < 2 ^ 64" for j
    using w(5,6) of_nat_64_eq [OF that k] assms(3) by auto
  then show ?thesis using w fs_ok_write [OF assms(1)] by (auto simp: vol_same_def)
qed

lemma fat_write_ok:
  assumes "fs_ok ctx st" "unat c < nfat ctx"
  shows "\<exists>st'. fat_write_entry ctx st c v = Some (True, st') \<and> vol_same ctx st st' \<and>
    (\<forall>d. unat d < nfat ctx \<longrightarrow> fat_raw ctx st' d =
       (if d = c then (fat_raw ctx st c AND 0xF0000000) OR (v AND 0x0FFFFFFF) else fat_raw ctx st d)) \<and>
    (\<forall>d. 2 \<le> unat d \<and> unat d < nfat ctx \<longrightarrow> clus ctx st' d = clus ctx st d)"
proof -
  note p = fat_entry_pos [OF assms]
  let ?s = "fsect ctx st (fat_lba ctx c)" and ?o = "4 * (unat c mod 128)"
  let ?v = "(fat_raw ctx st c AND 0xF0000000) OR (v AND 0x0FFFFFFF)"
  define b where "b = ?s[?o := ucast ?v, ?o + 1 := ucast (drop_bit 8 ?v), ?o + 2 := ucast (drop_bit 16 ?v),
    ?o + 3 := ucast (drop_bit 24 ?v)]"
  have l: "length ?s = 512" using bs.sect_length [OF fs_okD(1) [OF assms(1)]] .
  have o: "?o + 3 < 512" using mod_less_divisor [of 128 "unat c"] by linarith
  have r: "block_read st (fdev ctx) (of_nat (fat_lba ctx c)) 1 = Some (Some ?s)"
    using bs.rd_in [OF fs_okD(1) [OF assms(1)] _ sector_in [OF p(3)]] by simp
  have lb: "length b = 512" using l by (simp add: b_def)
  obtain st' where w: "block_write st (fdev ctx) (of_nat (fat_lba ctx c)) 1 b = Some (True, st')"
    "vol_same ctx st st'" "\<forall>j < 2 ^ 64. fsect ctx st' j = (if j = fat_lba ctx c then b else fsect ctx st j)"
    using write_sector_ok [OF assms(1) p(3) lb] by blast
  have e: "fat_write_entry ctx st c v = Some (True, st')"
    using r w(1) by (simp add: fat_write_entry_def p(1,2) Let_def fat_raw_def b_def)
  have raw: "fat_raw ctx st' d = (if d = c then ?v else fat_raw ctx st d)" if d: "unat d < nfat ctx" for d
  proof -
    have s: "fsect ctx st' (fat_lba ctx d) = (if fat_lba ctx d = fat_lba ctx c then b else fsect ctx st (fat_lba ctx d))"
      using w(3) fat_entry_pos(3) [OF assms(1) d] dev_cap_64 [of "fdev ctx" st] by (meson order_less_trans)
    show ?thesis
    proof (cases "d = c")
      case True
      then have "fat_raw ctx st' d = k_le32 (\<lambda>i. b ! (?o + i))" using s by (simp add: fat_raw_def)
      also have "\<dots> = ?v" using l o by (intro k_le32_bytes) (simp_all add: b_def nth_list_update)
      finally show ?thesis using True by simp
    next
      case False
      show ?thesis
      proof (cases "fat_lba ctx d = fat_lba ctx c")
        case True
        then have "unat d div 128 = unat c div 128" by (simp add: fat_lba_def)
        moreover have "unat d \<noteq> unat c" using False by (simp add: word_unat_eq_iff)
        ultimately have "unat d mod 128 \<noteq> unat c mod 128" by (metis div_mult_mod_eq)
        then consider "4 * (unat d mod 128) + 3 < ?o" | "?o + 3 < 4 * (unat d mod 128)" by linarith
        then have "b ! (4 * (unat d mod 128) + i) = ?s ! (4 * (unat d mod 128) + i)" if "i < 4" for i
          using that by cases (simp_all add: b_def)
        then show ?thesis using s True False unfolding fat_raw_def by (auto intro: k_le32_cong)
      next
        case 2: False
        then show ?thesis using s False by (simp add: fat_raw_def)
      qed
    qed
  qed
  have "clus ctx st' d = clus ctx st d" if d: "2 \<le> unat d \<and> unat d < nfat ctx" for d
  proof -
    have "fsect ctx st' (clus_lba ctx d + k) = fsect ctx st (clus_lba ctx d + k)" if "k < unat (sectors_per_cluster ctx)" for k
    proof -
      have "clus_lba ctx d + k < 2 ^ 64" using clus_pos(3) [OF assms(1), of d] d that by simp
      moreover have "clus_lba ctx d + k \<noteq> fat_lba ctx c" using p(4) by (simp add: clus_lba_def)
      ultimately show ?thesis using w(3) [rule_format, of "clus_lba ctx d + k"] by (simp only: if_False)
    qed
    then show ?thesis unfolding clus_def by (intro arg_cong [where f = concat] map_cong) auto
  qed
  then show ?thesis using e w(2) raw by blast
qed

lemma clus_lba_apart:
  assumes "2 \<le> unat c" "2 \<le> unat d" "c \<noteq> d" "i < unat (sectors_per_cluster ctx)" "j < unat (sectors_per_cluster ctx)"
  shows "clus_lba ctx c + i \<noteq> clus_lba ctx d + j"
proof
  let ?s = "unat (sectors_per_cluster ctx)"
  assume "clus_lba ctx c + i = clus_lba ctx d + j"
  then have "(unat c - 2) * ?s + i = (unat d - 2) * ?s + j" by (simp add: clus_lba_def)
  then have "((unat c - 2) * ?s + i) div ?s = ((unat d - 2) * ?s + j) div ?s" by simp
  then have "unat c - 2 = unat d - 2" using assms(4,5) by simp
  then show False using assms(1-3) by (simp add: word_unat_eq_iff)
qed

lemma write_cluster_ok:
  assumes "fs_ok ctx st" "2 \<le> unat c" "unat c < nfat ctx" "length b = unat (bytes_per_cluster ctx)"
  shows "\<exists>st'. write_cluster ctx st c b = Some (True, st') \<and> vol_same ctx st st' \<and>
    (\<forall>d. unat d < nfat ctx \<longrightarrow> fat_raw ctx st' d = fat_raw ctx st d) \<and>
    (\<forall>d. 2 \<le> unat d \<and> unat d < nfat ctx \<longrightarrow> clus ctx st' d = (if d = c then b else clus ctx st d))"
proof -
  let ?s = "sectors_per_cluster ctx" and ?L = "clus_lba ctx c"
  note p = clus_pos [OF assms(1-3)]
  have L: "unat (of_nat ?L :: u64) = ?L" using p(3) by (intro unat_of_nat_small) simp
  then have i: "unat (of_nat ?L :: u64) + unat ?s \<le> dev_cap (fdev ctx) st" using p(2) by simp
  have lb: "length b = 512 * unat ?s" using assms(4) fs_okD(4) [OF assms(1)] by simp
  obtain st' where w: "block_write st (fdev ctx) (of_nat ?L) ?s b = Some (True, st')" "dev_ready (fdev ctx) st'"
    "dev_cap (fdev ctx) st' = dev_cap (fdev ctx) st" "st_rest st' = st_rest st"
    "\<forall>k < unat ?s. dev_sect (fdev ctx) st' (of_nat ?L + of_nat k) = take 512 (drop (512 * k) b)"
    "\<forall>y. (\<forall>k < unat ?s. y \<noteq> of_nat ?L + of_nat k) \<longrightarrow> dev_sect (fdev ctx) st' y = dev_sect (fdev ctx) st y"
    using bs.wr_in [OF fs_okD(1,3) [OF assms(1)] i lb] by blast
  have inn: "fsect ctx st' (?L + k) = take 512 (drop (512 * k) b)" if "k < unat ?s" for k
    using w(5) that by simp
  have out: "fsect ctx st' j = fsect ctx st j" if j: "j < 2 ^ 64" "\<forall>k < unat ?s. j \<noteq> ?L + k" for j
  proof -
    have "(of_nat j :: u64) \<noteq> of_nat ?L + of_nat k" if "k < unat ?s" for k
    proof -
      have "?L + k < 2 ^ 64" using p(3) that by simp
      then show ?thesis using of_nat_64_eq [OF j(1), of "?L + k"] j(2) that by simp
    qed
    then show ?thesis using w(6) by blast
  qed
  have fat: "fat_raw ctx st' d = fat_raw ctx st d" if "unat d < nfat ctx" for d
  proof -
    have "fat_lba ctx d < unat (data_start ctx)" using fat_entry_pos(4) [OF assms(1) that] .
    then have "fsect ctx st' (fat_lba ctx d) = fsect ctx st (fat_lba ctx d)"
      using unsigned_less [of "data_start ctx", where 'a = nat] by (intro out) (auto simp: clus_lba_def)
    then show ?thesis by (simp add: fat_raw_def)
  qed
  have cl: "clus ctx st' d = (if d = c then b else clus ctx st d)" if d: "2 \<le> unat d" "unat d < nfat ctx" for d
  proof (cases "d = c")
    case True
    have "concat (map (\<lambda>k. fsect ctx st' (?L + k)) [0..<n]) = take (512 * n) b" if "n \<le> unat ?s" for n
      using that
    proof (induction n)
      case (Suc n)
      then show ?case using inn [of n] by (simp add: take_add [symmetric] algebra_simps)
    qed simp
    from this [of "unat ?s"] show ?thesis using True lb by (simp add: clus_def)
  next
    case False
    have "fsect ctx st' (clus_lba ctx d + k) = fsect ctx st (clus_lba ctx d + k)" if "k < unat ?s" for k
      using clus_pos(3) [OF assms(1) d] clus_lba_apart [OF d(1) assms(2) False that] that by (intro out) auto
    then show ?thesis using False unfolding clus_def by (auto intro!: arg_cong [where f = concat])
  qed
  have "write_cluster ctx st c b = Some (True, st')" using w(1) by (simp add: write_cluster_def p(1))
  then show ?thesis using w fs_ok_write [OF assms(1)] fat cl by (auto simp: vol_same_def)
qed

section \<open>Allocation\<close>

lemma fat_mask: "((x AND 0xF0000000) OR (v AND 0x0FFFFFFF)) AND 0x0FFFFFFF = v AND (0x0FFFFFFF :: u32)"
  and fat_mask_top: "((x AND 0xF0000000) OR (v AND 0x0FFFFFFF)) AND 0xF0000000 = x AND (0xF0000000 :: u32)"
proof -
  have m: "(0xF0000000 :: u32) AND 0x0FFFFFFF = 0" by simp
  then have 1: "(x AND 0xF0000000) AND 0x0FFFFFFF = 0" "(v AND 0x0FFFFFFF) AND 0xF0000000 = 0"
    by (simp_all add: and.assoc)
  show "((x AND 0xF0000000) OR (v AND 0x0FFFFFFF)) AND 0x0FFFFFFF = v AND (0x0FFFFFFF :: u32)"
    "((x AND 0xF0000000) OR (v AND 0x0FFFFFFF)) AND 0xF0000000 = x AND (0xF0000000 :: u32)"
    by (simp_all add: 1 bit.conj_disj_distrib2)
qed

lemma u32_less_add1: "unat c < n \<Longrightarrow> n < 2 ^ 32 \<Longrightarrow> unat (c + 1) = Suc (unat c)" for c :: u32
proof -
  assume "unat c < n" "n < 2 ^ 32"
  then have "unat c + unat (1 :: u32) < 2 ^ LENGTH(32)" by simp
  then have "unat (c + 1) = unat c + unat (1 :: u32)" by (simp only: unat_add_lem)
  then show ?thesis by simp
qed

lemma find_free_loop_ok:
  assumes "fs_ok ctx st" "unat cl + n = nfat ctx" "2 \<le> unat cl"
  shows "\<exists>r. find_free_loop ctx st cl n = Some r \<and>
    (if r = 0 then \<forall>d. unat cl \<le> unat d \<and> unat d < nfat ctx \<longrightarrow> fat_val ctx st d \<noteq> 0
     else unat cl \<le> unat r \<and> unat r < nfat ctx \<and> fat_val ctx st r = 0 \<and>
       (\<forall>d. unat cl \<le> unat d \<and> unat d < unat r \<longrightarrow> fat_val ctx st d \<noteq> 0))"
  using assms
proof (induction n arbitrary: cl)
  case 0
  then show ?case by auto
next
  case (Suc n)
  have r: "fat_read_entry ctx st cl = Some (fat_val ctx st cl)"
    using Suc.prems by (intro fat_read_ok) auto
  show ?case
  proof (cases "fat_val ctx st cl = 0")
    case True
    have "cl \<noteq> 0" using Suc.prems(3) by auto
    then show ?thesis using r True Suc.prems by auto
  next
    case False
    have c1: "unat (cl + 1) = Suc (unat cl)"
      using Suc.prems fs_okD(2) [OF Suc.prems(1)] by (intro u32_less_add1 [of _ "nfat ctx"]) auto
    obtain s where s: "find_free_loop ctx st (cl + 1) n = Some s"
      "if s = 0 then \<forall>d. unat (cl + 1) \<le> unat d \<and> unat d < nfat ctx \<longrightarrow> fat_val ctx st d \<noteq> 0
       else unat (cl + 1) \<le> unat s \<and> unat s < nfat ctx \<and> fat_val ctx st s = 0 \<and>
         (\<forall>d. unat (cl + 1) \<le> unat d \<and> unat d < unat s \<longrightarrow> fat_val ctx st d \<noteq> 0)"
      using Suc.IH [of "cl + 1"] Suc.prems c1 by auto
    have "fat_val ctx st d \<noteq> 0" if "unat cl \<le> unat d" "\<not> unat (cl + 1) \<le> unat d" for d
    proof -
      have "unat d = unat cl" using that c1 by simp
      then have "d = cl" by (simp add: word_unat_eq_iff)
      then show ?thesis using False by simp
    qed
    then have "if s = 0 then \<forall>d. unat cl \<le> unat d \<and> unat d < nfat ctx \<longrightarrow> fat_val ctx st d \<noteq> 0
       else unat cl \<le> unat s \<and> unat s < nfat ctx \<and> fat_val ctx st s = 0 \<and>
         (\<forall>d. unat cl \<le> unat d \<and> unat d < unat s \<longrightarrow> fat_val ctx st d \<noteq> 0)"
      using s(2) c1 by (cases "s = 0") (simp_all, blast, metis Suc_leD)
    then show ?thesis using r False s(1) by simp
  qed
qed

text \<open>The free clusters of a volume.\<close>

definition free_clusters :: "fat32_ctx \<Rightarrow> storage \<Rightarrow> u32 set" where
  "free_clusters ctx st = {d. 2 \<le> unat d \<and> unat d < nfat ctx \<and> fat_val ctx st d = 0}"

text \<open>Two states of a volume that agree on all clusters but \<open>X\<close>.\<close>

definition agree_off :: "fat32_ctx \<Rightarrow> u32 set \<Rightarrow> storage \<Rightarrow> storage \<Rightarrow> bool" where
  "agree_off ctx X st st' \<longleftrightarrow> vol_same ctx st st' \<and>
     (\<forall>d. unat d < nfat ctx \<and> d \<notin> X \<longrightarrow> fat_raw ctx st' d = fat_raw ctx st d) \<and>
     (\<forall>d. 2 \<le> unat d \<and> unat d < nfat ctx \<and> d \<notin> X \<longrightarrow> clus ctx st' d = clus ctx st d)"

lemma agree_off_trans: "agree_off ctx X a b \<Longrightarrow> agree_off ctx Y b c \<Longrightarrow> agree_off ctx (X \<union> Y) a c"
  by (auto simp: agree_off_def vol_same_def)

lemma agree_off_mono: "agree_off ctx X a b \<Longrightarrow> X \<subseteq> Y \<Longrightarrow> agree_off ctx Y a b"
  by (auto simp: agree_off_def)

lemma agree_off_refl: "fs_ok ctx st \<Longrightarrow> agree_off ctx X st st"
  by (simp add: agree_off_def vol_same_def)

lemma agree_offD:
  assumes "agree_off ctx X st st'" "unat d < nfat ctx" "d \<notin> X"
  shows "fat_val ctx st' d = fat_val ctx st d" "2 \<le> unat d \<Longrightarrow> clus ctx st' d = clus ctx st d"
  using assms by (auto simp: agree_off_def fat_val_def)

lemma alloc_cluster_ok:
  assumes "fs_ok ctx st"
  shows "\<exists>r st'. fat32_alloc_cluster ctx st = Some (r, st') \<and>
    (if free_clusters ctx st = {} then r = 0 \<and> st' = st
     else r \<in> free_clusters ctx st \<and> (\<forall>d \<in> free_clusters ctx st. unat r \<le> unat d) \<and> agree_off ctx {r} st st' \<and>
       fat_val ctx st' r = FAT32_EOC \<and> clus ctx st' r = clus ctx st r)"
proof -
  have fs: "bytes_per_sector ctx = 512" "2 < nfat ctx" "nfat ctx < 0x0FFFFFF7" using assms by (auto simp: fs_ok_def)
  have "unat (fat_size ctx) * unat (512 :: u32) < 2 ^ LENGTH(32)" using fs(3) by (simp add: nfat_def)
  then have "unat (fat_size ctx * 512) = unat (fat_size ctx) * unat (512 :: u32)" by (simp only: unat_mult_lem)
  then have tot: "unat (fat_size ctx * bytes_per_sector ctx div 4) = nfat ctx"
    using fs(1) by (simp add: unat_div nfat_def)
  have n2: "unat (2 :: u32) + (nfat ctx - 2) = nfat ctx" "2 \<le> unat (2 :: u32)" using fs(2) by simp_all
  obtain r where r: "fat32_find_free ctx st = Some r"
    "if r = 0 then \<forall>d. unat (2 :: u32) \<le> unat d \<and> unat d < nfat ctx \<longrightarrow> fat_val ctx st d \<noteq> 0
     else unat (2 :: u32) \<le> unat r \<and> unat r < nfat ctx \<and> fat_val ctx st r = 0 \<and>
       (\<forall>d. unat (2 :: u32) \<le> unat d \<and> unat d < unat r \<longrightarrow> fat_val ctx st d \<noteq> 0)"
    using find_free_loop_ok [OF assms n2] tot unfolding fat32_find_free_def Let_def by auto
  show ?thesis
  proof (cases "r = 0")
    case True
    then have "free_clusters ctx st = {}" using r(2) by (auto simp: free_clusters_def)
    then show ?thesis using r(1) True by (simp add: fat32_alloc_cluster_def)
  next
    case False
    then have R: "r \<in> free_clusters ctx st" "\<forall>d \<in> free_clusters ctx st. unat r \<le> unat d"
      using r(2) by (auto simp: free_clusters_def not_le [symmetric])
    then have v: "unat r < nfat ctx" "2 \<le> unat r" by (auto simp: free_clusters_def)
    obtain st' where w: "fat_write_entry ctx st r FAT32_EOC = Some (True, st')" "vol_same ctx st st'"
      "\<forall>d. unat d < nfat ctx \<longrightarrow> fat_raw ctx st' d =
         (if d = r then (fat_raw ctx st r AND 0xF0000000) OR (FAT32_EOC AND 0x0FFFFFFF) else fat_raw ctx st d)"
      "\<forall>d. 2 \<le> unat d \<and> unat d < nfat ctx \<longrightarrow> clus ctx st' d = clus ctx st d"
      using fat_write_ok [OF assms v(1), of FAT32_EOC] by blast
    have "fat32_alloc_cluster ctx st = Some (r, st')" using r(1) False w(1) by (simp add: fat32_alloc_cluster_def)
    moreover have "fat_val ctx st' r = FAT32_EOC AND 0x0FFFFFFF" using w(3) v by (simp add: fat_val_def fat_mask)
    then have "fat_val ctx st' r = FAT32_EOC" by (simp add: FAT32_EOC_def)
    moreover have "agree_off ctx {r} st st'" using w by (auto simp: agree_off_def)
    moreover have "free_clusters ctx st \<noteq> {}" using R(1) by blast
    ultimately show ?thesis using R w(4) v by auto
  qed
qed

section \<open>Cluster chains\<close>

text \<open>A chain in the table: each cluster leads to the next, the last one to an end mark.\<close>

definition in_vol :: "fat32_ctx \<Rightarrow> u32 \<Rightarrow> bool" where
  "in_vol ctx c \<longleftrightarrow> 2 \<le> unat c \<and> unat c < nfat ctx"

fun fchain :: "fat32_ctx \<Rightarrow> storage \<Rightarrow> u32 list \<Rightarrow> bool" where
  "fchain ctx st [] \<longleftrightarrow> True"
| "fchain ctx st [c] \<longleftrightarrow> in_vol ctx c \<and> fat_val ctx st c \<ge> FAT32_BAD"
| "fchain ctx st (c # d # cs) \<longleftrightarrow> in_vol ctx c \<and> fat_val ctx st c = d \<and> fchain ctx st (d # cs)"

lemma fchain_in_vol: "fchain ctx st cs \<Longrightarrow> c \<in> set cs \<Longrightarrow> in_vol ctx c"
  by (induction ctx st cs rule: fchain.induct) auto

lemma in_vol_valid: "fs_ok ctx st \<Longrightarrow> in_vol ctx c \<Longrightarrow> cluster_valid c"
  using fs_okD(2) [of ctx st]
  by (auto simp: in_vol_def cluster_valid_def FAT32_BAD_def word_le_nat_alt word_less_nat_alt)

lemma not_valid_BAD: "c \<ge> FAT32_BAD \<Longrightarrow> \<not> cluster_valid c"
  by (simp add: cluster_valid_def not_less)

lemma fchain_cong:
  assumes "fchain ctx st cs" "\<forall>c \<in> set cs. fat_val ctx st' c = fat_val ctx st c"
  shows "fchain ctx st' cs"
  using assms by (induction ctx st cs rule: fchain.induct) auto

lemma fchain_snoc:
  assumes "fchain ctx st cs" "cs \<noteq> []" "\<forall>c \<in> set (butlast cs). fat_val ctx st' c = fat_val ctx st c"
    and "fat_val ctx st' (last cs) = d" "in_vol ctx d" "fat_val ctx st' d \<ge> FAT32_BAD"
  shows "fchain ctx st' (cs @ [d])"
  using assms by (induction ctx st cs rule: fchain.induct) auto

text \<open>No cluster of a chain is free.\<close>

lemma fchain_not_free:
  assumes "fs_ok ctx st" "fchain ctx st cs" "c \<in> set cs"
  shows "fat_val ctx st c \<noteq> 0"
proof -
  have "\<forall>c \<in> set cs. fat_val ctx st c \<ge> FAT32_BAD \<or> in_vol ctx (fat_val ctx st c)"
    using assms(2)
  proof (induction ctx st cs rule: fchain.induct)
    case (3 ctx st c d cs)
    then have "in_vol ctx d" using fchain_in_vol [of ctx st "d # cs" d] by simp
    then show ?case using 3 by auto
  qed auto
  then show ?thesis using assms(3) by (fastforce simp: in_vol_def FAT32_BAD_def)
qed

lemma kalloc_empty [simp]: "alloc_ok st = [] \<Longrightarrow> kalloc st = (True, st)"
  by (simp add: kalloc_def)

lemma read_sectors_ok:
  assumes "fs_ok ctx st" "in_vol ctx c" "n \<noteq> 0" "unat n \<le> unat (sectors_per_cluster ctx)"
  shows "block_read st (fdev ctx) (ucast (cluster_to_lba ctx c)) n = Some (Some (take (512 * unat n) (clus ctx st c)))"
proof -
  have v: "2 \<le> unat c" "unat c < nfat ctx" using assms(2) by (auto simp: in_vol_def)
  note p = clus_pos [OF assms(1) v]
  let ?f = "\<lambda>k. fsect ctx st (clus_lba ctx c + k)"
  have "unat (of_nat (clus_lba ctx c) :: u64) = clus_lba ctx c"
    using p(3) by (intro unat_of_nat_small) simp
  then have "unat (of_nat (clus_lba ctx c) :: u64) + unat n \<le> dev_cap (fdev ctx) st"
    using p(2) assms(4) by simp
  from bs.rd_in [OF fs_okD(1) [OF assms(1)] assms(3) this]
  have "block_read st (fdev ctx) (ucast (cluster_to_lba ctx c)) n = Some (Some (concat (map ?f [0..<unat n])))"
    by (simp add: p(1))
  moreover have "take (512 * m) (concat (map ?f [0..<m + k])) = concat (map ?f [0..<m])" for m k
  proof -
    have l: "length (concat (map ?f [0..<m])) = 512 * m"
      by (induction m) (simp_all add: bs.sect_length [OF fs_okD(1) [OF assms(1)]])
    have "[0..<m + k] = [0..<m] @ [m..<m + k]" by (rule upt_add_eq_append) simp
    then show ?thesis using l by (simp only: map_append concat_append) simp
  qed
  from this [of "unat n" "unat (sectors_per_cluster ctx) - unat n"]
  have "take (512 * unat n) (clus ctx st c) = concat (map ?f [0..<unat n])"
    using assms(4) by (simp add: clus_def)
  ultimately show ?thesis by simp
qed

lemma read_chunk_ok:
  assumes "fs_ok ctx st" "in_vol ctx c" "chunk \<noteq> 0" "unat chunk \<le> unat (bytes_per_cluster ctx)" "alloc_ok st = []"
  shows "\<exists>tmp'. read_chunk ctx st c chunk tmp = Some (Some (take (unat chunk) (clus ctx st c)), tmp', st)"
proof (cases "chunk div bytes_per_sector ctx > 0 \<and> chunk mod bytes_per_sector ctx = 0")
  case True
  have b: "bytes_per_sector ctx = 512" using assms(1) by (simp add: fs_ok_def)
  let ?n = "chunk div 512"
  have n: "unat ?n = unat chunk div 512" "unat (chunk mod 512) = unat chunk mod 512"
    by (simp_all add: unat_div unat_mod)
  have "unat chunk mod 512 = 0" using True b n(2) by simp
  then have m: "512 * unat ?n = unat chunk" using n(1) mult_div_mod_eq [of 512 "unat chunk"] by simp
  moreover have "?n \<noteq> 0" using True b by auto
  moreover have "unat ?n \<le> unat (sectors_per_cluster ctx)" using assms(4) m fs_okD(4) [OF assms(1)] by linarith
  ultimately show ?thesis
    using read_sectors_ok [OF assms(1,2), of ?n] True b by (simp add: read_chunk_def Let_def)
next
  case False
  have "read_cluster ctx st c = Some (Some (clus ctx st c))"
    using read_cluster_ok [OF assms(1)] assms(2) by (simp add: in_vol_def)
  then show ?thesis using False assms(5) by (cases tmp) (auto simp: read_chunk_def Let_def)
qed

text \<open>The contents of a chain.\<close>

definition chain_data :: "fat32_ctx \<Rightarrow> storage \<Rightarrow> u32 list \<Rightarrow> u8 list" where
  "chain_data ctx st cs = concat (map (clus ctx st) cs)"

lemma chain_data_length:
  "fs_ok ctx st \<Longrightarrow> length (chain_data ctx st cs) = length cs * unat (bytes_per_cluster ctx)"
  by (induction cs) (simp_all add: chain_data_def clus_length)

lemma read_loop_stop:
  "\<not> (cluster_valid cluster \<and> cnt < n) \<Longrightarrow> read_loop ctx st n cluster cnt data tmp = Some (cnt, data, st)"
  by (subst read_loop.simps) auto

lemma read_loop_step:
  assumes "cluster_valid cluster" "cnt < n"
    and "chunk = (if bytes_per_cluster ctx > n - cnt then n - cnt else bytes_per_cluster ctx)"
    and "read_chunk ctx st cluster chunk tmp = Some (Some b, tmp', st)"
    and "fat_read_entry ctx st cluster = Some nxt"
  shows "read_loop ctx st n cluster cnt data tmp = read_loop ctx st n nxt (cnt + chunk) (data @ b) tmp'"
  using assms by (subst read_loop.simps) (simp add: Let_def)

lemma chunk_nat:
  fixes n cnt bpc :: u32
  assumes "cnt \<le> n" "chunk = (if bpc > n - cnt then n - cnt else bpc)"
  shows "unat chunk = min (unat bpc) (unat n - unat cnt)" "unat (cnt + chunk) = unat cnt + unat chunk"
proof -
  have d: "unat (n - cnt) = unat n - unat cnt" using assms(1) by (rule unat_sub)
  then show c: "unat chunk = min (unat bpc) (unat n - unat cnt)"
    using assms(2) by (auto simp: word_less_nat_alt)
  have "unat cnt + unat chunk \<le> unat n" using c assms(1) by (auto simp: word_le_nat_alt)
  then have "unat cnt + unat chunk < 2 ^ LENGTH(32)"
    using unsigned_less [of n, where 'a = nat] by linarith
  then show "unat (cnt + chunk) = unat cnt + unat chunk" by (simp only: unat_add_lem)
qed

lemma read_loop_cluster:
  assumes "fs_ok ctx st" "alloc_ok st = []" "in_vol ctx c" "cnt < n"
  shows "\<exists>chunk tmp'. read_loop ctx st n c cnt data tmp =
      read_loop ctx st n (fat_val ctx st c) (cnt + chunk) (data @ take (unat chunk) (clus ctx st c)) tmp' \<and>
    unat chunk = min (unat (bytes_per_cluster ctx)) (unat n - unat cnt) \<and> unat (cnt + chunk) = unat cnt + unat chunk"
proof -
  let ?bpc = "bytes_per_cluster ctx"
  define chunk where "chunk = (if ?bpc > n - cnt then n - cnt else ?bpc)"
  note cn = chunk_nat [OF less_imp_le [OF assms(4)] chunk_def]
  have "unat (sectors_per_cluster ctx) > 0" using fs_okD(3) [OF assms(1)] by (simp add: unat_gt_0)
  then have "unat chunk > 0" using cn(1) fs_okD(4) [OF assms(1)] assms(4) by (simp add: word_less_nat_alt)
  then have "chunk \<noteq> 0" by auto
  moreover have "unat chunk \<le> unat ?bpc" using cn(1) by simp
  ultimately obtain tmp' where "read_chunk ctx st c chunk tmp = Some (Some (take (unat chunk) (clus ctx st c)), tmp', st)"
    using read_chunk_ok [OF assms(1,3) _ _ assms(2), of chunk tmp] by blast
  moreover have "fat_read_entry ctx st c = Some (fat_val ctx st c)"
    using assms(3) by (intro fat_read_ok [OF assms(1)]) (simp add: in_vol_def)
  ultimately show ?thesis
    using read_loop_step [OF in_vol_valid [OF assms(1,3)] assms(4) chunk_def] cn by blast
qed

lemma read_loop_ok:
  assumes "fs_ok ctx st" "alloc_ok st = []" "fchain ctx st (c # cs)" "cnt \<le> n"
  shows "\<exists>k. read_loop ctx st n c cnt data tmp =
      Some (k, data @ take (unat n - unat cnt) (chain_data ctx st (c # cs)), st) \<and>
    unat k = min (unat n) (unat cnt + length (c # cs) * unat (bytes_per_cluster ctx))"
  using assms(3,4)
proof (induction cs arbitrary: c cnt data tmp)
  case (Nil c)
  let ?B = "unat (bytes_per_cluster ctx)"
  have iv: "in_vol ctx c" and eoc: "fat_val ctx st c \<ge> FAT32_BAD" using Nil.prems(1) by auto
  have l: "length (clus ctx st c) = ?B" by (rule clus_length [OF assms(1)])
  show ?case
  proof (cases "cnt < n")
    case True
    obtain chunk tmp' where r: "read_loop ctx st n c cnt data tmp =
        read_loop ctx st n (fat_val ctx st c) (cnt + chunk) (data @ take (unat chunk) (clus ctx st c)) tmp'"
      "unat chunk = min ?B (unat n - unat cnt)" "unat (cnt + chunk) = unat cnt + unat chunk"
      using read_loop_cluster [OF assms(1,2) iv True] by blast
    have "take (unat chunk) (clus ctx st c) = take (unat n - unat cnt) (clus ctx st c)"
      using r(2) l by (simp add: min_def)
    moreover have "unat (cnt + chunk) = min (unat n) (unat cnt + ?B)"
      using r(2,3) Nil.prems(2) by (auto simp: min_def word_le_nat_alt)
    ultimately show ?thesis
      using r(1) not_valid_BAD [OF eoc] by (simp add: read_loop_stop chain_data_def)
  next
    case False
    then have "cnt = n" using Nil.prems(2) by simp
    then show ?thesis using read_loop_stop [of c cnt n] by simp
  qed
next
  case (Cons d cs c)
  let ?B = "unat (bytes_per_cluster ctx)"
  have iv: "in_vol ctx c" and nx: "fat_val ctx st c = d" and ch: "fchain ctx st (d # cs)" using Cons.prems(1) by auto
  have l: "length (clus ctx st c) = ?B" by (rule clus_length [OF assms(1)])
  show ?case
  proof (cases "cnt < n")
    case True
    obtain chunk tmp' where r: "read_loop ctx st n c cnt data tmp =
        read_loop ctx st n d (cnt + chunk) (data @ take (unat chunk) (clus ctx st c)) tmp'"
      "unat chunk = min ?B (unat n - unat cnt)" "unat (cnt + chunk) = unat cnt + unat chunk"
      using read_loop_cluster [OF assms(1,2) iv True] nx by blast
    have "cnt + chunk \<le> n" using r(2,3) True by (simp add: word_le_nat_alt word_less_nat_alt)
    then obtain k where k: "read_loop ctx st n d (cnt + chunk) (data @ take (unat chunk) (clus ctx st c)) tmp' =
        Some (k, (data @ take (unat chunk) (clus ctx st c)) @ take (unat n - unat (cnt + chunk)) (chain_data ctx st (d # cs)), st)"
      "unat k = min (unat n) (unat (cnt + chunk) + length (d # cs) * ?B)"
      using Cons.IH [OF ch] by blast
    have "take (unat chunk) (clus ctx st c) @ take (unat n - unat (cnt + chunk)) (chain_data ctx st (d # cs)) =
        take (unat n - unat cnt) (chain_data ctx st (c # d # cs))"
      using r(2,3) l by (simp add: chain_data_def min_def)
    moreover have "min (unat n) (unat (cnt + chunk) + length (d # cs) * ?B) = min (unat n) (unat cnt + length (c # d # cs) * ?B)"
      using r(2,3) by (auto simp: min_def)
    ultimately show ?thesis using r(1) k by (metis append.assoc)
  next
    case False
    then have "cnt = n" using Cons.prems(2) by simp
    then show ?thesis using read_loop_stop [of c cnt n] by simp
  qed
qed

lemma fat32_read_chain:
  assumes "fs_ok ctx st" "alloc_ok st = []" "fchain ctx st (c # cs)"
  shows "\<exists>k. fat32_read ctx st c n = Some (k, take (unat n) (chain_data ctx st (c # cs)), st) \<and>
    unat k = min (unat n) (length (c # cs) * unat (bytes_per_cluster ctx))"
proof (cases "n = 0")
  case False
  then show ?thesis
    using read_loop_ok [OF assms, of 0 n "[]" False] by (simp add: fat32_read_def)
qed (simp add: fat32_read_def)

text \<open>The cluster images of a file: the last one is filled up with zeros.\<close>

definition blk :: "fat32_ctx \<Rightarrow> u8 list \<Rightarrow> nat \<Rightarrow> nat \<Rightarrow> u8 list" where
  "blk ctx buffer n j =
     (let B = unat (bytes_per_cluster ctx); c = min B (n - j * B)
      in bslice buffer (j * B) c @ replicate (B - c) 0)"

definition written :: "fat32_ctx \<Rightarrow> storage \<Rightarrow> u8 list \<Rightarrow> nat \<Rightarrow> u32 list \<Rightarrow> storage \<Rightarrow> bool" where
  "written ctx st0 buffer n cs st \<longleftrightarrow> fchain ctx st cs \<and> distinct cs \<and> set cs \<subseteq> free_clusters ctx st0 \<and>
     agree_off ctx (set cs) st0 st \<and> (\<forall>j < length cs. clus ctx st (cs ! j) = blk ctx buffer n j)"

lemma finite_free [simp]: "finite (free_clusters ctx st)"
  by simp

lemma free_clusters_upd:
  assumes "agree_off ctx X st st'" "\<forall>c \<in> X. fat_val ctx st' c \<noteq> 0"
  shows "free_clusters ctx st' = free_clusters ctx st - X"
  using assms agree_offD(1) [OF assms(1)] by (auto simp: free_clusters_def)

lemma agree_off_fs: "agree_off ctx X st st' \<Longrightarrow> fs_ok ctx st'"
  by (simp add: agree_off_def vol_same_def)

lemma blk_length: "length buffer \<ge> n \<Longrightarrow> length (blk ctx buffer n j) = unat (bytes_per_cluster ctx)"
  by (simp add: blk_def bslice_def Let_def)

lemma FAT32_EOC_BAD: "FAT32_EOC \<ge> FAT32_BAD"
  by (simp add: FAT32_EOC_def FAT32_BAD_def)

text \<open>Linking a fresh cluster behind the chain, and filling it.\<close>

lemma written_extend:
  assumes W: "written ctx st0 buffer n cs st" and fs: "fs_ok ctx st"
    and a: "cl \<in> free_clusters ctx st" "agree_off ctx {cl} st st1" "fat_val ctx st1 cl = FAT32_EOC"
    and l: "if cs = [] then st2 = st1 else agree_off ctx {last cs} st1 st2 \<and>
      fat_val ctx st2 (last cs) = cl \<and> clus ctx st2 (last cs) = clus ctx st1 (last cs)"
    and w: "agree_off ctx {cl} st2 st3" "fat_val ctx st3 cl = fat_val ctx st2 cl"
      "clus ctx st3 cl = blk ctx buffer n (length cs)"
  shows "written ctx st0 buffer n (cs @ [cl]) st3" "free_clusters ctx st3 = free_clusters ctx st - {cl}"
proof -
  have W': "fchain ctx st cs" "distinct cs" "set cs \<subseteq> free_clusters ctx st0" "agree_off ctx (set cs) st0 st"
    "\<forall>j < length cs. clus ctx st (cs ! j) = blk ctx buffer n j" using W by (auto simp: written_def)
  have iv: "in_vol ctx cl" and f0: "fat_val ctx st cl = 0" using a(1) by (auto simp: free_clusters_def in_vol_def)
  have civ: "in_vol ctx c" if "c \<in> set cs" for c using fchain_in_vol [OF W'(1) that] .
  have ncl: "cl \<notin> set cs" using fchain_not_free [OF fs W'(1)] f0 by blast
  have s1: "fat_val ctx st1 c = fat_val ctx st c" "clus ctx st1 c = clus ctx st c" if "c \<in> set cs" for c
    using agree_offD [OF a(2), of c] civ [OF that] that ncl by (auto simp: in_vol_def)
  have s2: "fat_val ctx st2 c = (if c = last cs then cl else fat_val ctx st c)" "clus ctx st2 c = clus ctx st c"
    if c: "c \<in> set cs" for c
  proof -
    have ne: "cs \<noteq> []" using c by auto
    then have L: "agree_off ctx {last cs} st1 st2" "fat_val ctx st2 (last cs) = cl"
      "clus ctx st2 (last cs) = clus ctx st1 (last cs)" using l by auto
    show "fat_val ctx st2 c = (if c = last cs then cl else fat_val ctx st c)" "clus ctx st2 c = clus ctx st c"
      using L agree_offD [OF L(1), of c] civ [OF c] s1 [OF c] by (cases "c = last cs"; auto simp: in_vol_def)+
  qed
  have cl2: "fat_val ctx st2 cl = FAT32_EOC"
  proof (cases "cs = []")
    case False
    then have "cl \<noteq> last cs" using ncl by auto
    then show ?thesis using False l agree_offD(1) [of ctx "{last cs}" st1 st2 cl] iv a(3) by (auto simp: in_vol_def)
  qed (use l a(3) in simp)
  have s3: "fat_val ctx st3 c = fat_val ctx st2 c" "clus ctx st3 c = clus ctx st2 c" if "c \<in> set cs" for c
    using agree_offD [OF w(1), of c] civ [OF that] that ncl by (auto simp: in_vol_def)
  have ch: "fchain ctx st3 (cs @ [cl])"
  proof (cases "cs = []")
    case True
    then show ?thesis using iv cl2 w(2) FAT32_EOC_BAD by simp
  next
    case False
    show ?thesis
    proof (rule fchain_snoc [OF W'(1) False])
      show "\<forall>c \<in> set (butlast cs). fat_val ctx st3 c = fat_val ctx st c"
      proof
        fix c assume c: "c \<in> set (butlast cs)"
        then have "c \<noteq> last cs" using W'(2) False
          by (metis append_butlast_last_id distinct_append disjoint_iff list.set_intros(1))
        then show "fat_val ctx st3 c = fat_val ctx st c" using c s2 s3 in_set_butlastD by metis
      qed
      show "fat_val ctx st3 (last cs) = cl" using s2(1) s3(1) False by simp
      show "fat_val ctx st3 cl \<ge> FAT32_BAD" using w(2) cl2 FAT32_EOC_BAD by simp
    qed (rule iv)
  qed
  have ag: "agree_off ctx (set (cs @ [cl])) st st3"
  proof (cases "cs = []")
    case True
    then have "st2 = st1" using l by simp
    then show ?thesis using agree_off_trans [OF a(2), of "{cl}" st3] w(1) True by simp
  next
    case False
    then have "agree_off ctx {last cs} st1 st2" using l by simp
    from agree_off_trans [OF agree_off_trans [OF a(2) this] w(1)]
    show ?thesis by (rule agree_off_mono) (use False in auto)
  qed
  have fr: "set cs \<inter> free_clusters ctx st = {}"
    using fchain_not_free [OF fs W'(1)] by (auto simp: free_clusters_def)
  show "free_clusters ctx st3 = free_clusters ctx st - {cl}"
  proof -
    have "free_clusters ctx st3 = free_clusters ctx st - set (cs @ [cl])"
      using fchain_not_free [OF agree_off_fs [OF w(1)] ch] by (intro free_clusters_upd [OF ag]) blast
    then show ?thesis using fr by auto
  qed
  have "cl \<in> free_clusters ctx st0"
    using a(1) agree_offD(1) [OF W'(4), of cl] ncl by (auto simp: free_clusters_def)
  moreover have "agree_off ctx (set (cs @ [cl])) st0 st3"
    by (rule agree_off_mono [OF agree_off_trans [OF W'(4) ag]]) auto
  moreover have "clus ctx st3 ((cs @ [cl]) ! j) = blk ctx buffer n j" if "j < length (cs @ [cl])" for j
    using that W'(5) w(3) s2(2) s3(2) by (cases "j = length cs") (auto simp: nth_append)
  ultimately show "written ctx st0 buffer n (cs @ [cl]) st3"
    using ch W' ncl by (auto simp: written_def)
qed


lemma link_ok:
  assumes "fs_ok ctx st" "in_vol ctx p" "in_vol ctx cl"
  shows "\<exists>st'. fat_write_entry ctx st p cl = Some (True, st') \<and> agree_off ctx {p} st st' \<and>
    fat_val ctx st' p = cl \<and> clus ctx st' p = clus ctx st p"
proof -
  have v: "unat p < nfat ctx" "2 \<le> unat p" using assms(2) by (auto simp: in_vol_def)
  obtain st' where w: "fat_write_entry ctx st p cl = Some (True, st')" "vol_same ctx st st'"
    "\<forall>d. unat d < nfat ctx \<longrightarrow> fat_raw ctx st' d =
       (if d = p then (fat_raw ctx st p AND 0xF0000000) OR (cl AND 0x0FFFFFFF) else fat_raw ctx st d)"
    "\<forall>d. 2 \<le> unat d \<and> unat d < nfat ctx \<longrightarrow> clus ctx st' d = clus ctx st d"
    using fat_write_ok [OF assms(1) v(1), of cl] by blast
  have "unat cl < 2 ^ 28" using assms(3) fs_okD(2) [OF assms(1)] by (simp add: in_vol_def)
  then have m: "cl AND 0x0FFFFFFF = cl"
  proof -
    assume a: "unat cl < 2 ^ 28"
    have "take_bit 28 cl = cl" using a by (intro word_unat_eq_iff [THEN iffD2]) (simp add: unsigned_take_bit_eq take_bit_nat_eq_self)
    moreover have "cl AND 0x0FFFFFFF = take_bit 28 cl" by (simp add: take_bit_eq_mask mask_eq_exp_minus_1)
    ultimately show ?thesis by simp
  qed
  have "fat_val ctx st' p = cl AND 0x0FFFFFFF" using w(3) v by (simp add: fat_val_def fat_mask)
  then have "fat_val ctx st' p = cl" by (simp only: m)
  then show ?thesis using w v by (auto simp: agree_off_def)
qed

lemma fill_ok:
  assumes "fs_ok ctx st" "in_vol ctx cl" "length b = unat (bytes_per_cluster ctx)"
  shows "\<exists>st'. write_cluster ctx st cl b = Some (True, st') \<and> agree_off ctx {cl} st st' \<and>
    fat_val ctx st' cl = fat_val ctx st cl \<and> clus ctx st' cl = b"
proof -
  have v: "2 \<le> unat cl" "unat cl < nfat ctx" using assms(2) by (auto simp: in_vol_def)
  obtain st' where "write_cluster ctx st cl b = Some (True, st')" "vol_same ctx st st'"
    "\<forall>d. unat d < nfat ctx \<longrightarrow> fat_raw ctx st' d = fat_raw ctx st d"
    "\<forall>d. 2 \<le> unat d \<and> unat d < nfat ctx \<longrightarrow> clus ctx st' d = (if d = cl then b else clus ctx st d)"
    using write_cluster_ok [OF assms(1) v assms(3)] by blast
  then show ?thesis using assms(2) by (auto simp: agree_off_def fat_val_def in_vol_def)
qed

lemma chunk_blk:
  fixes sz :: u32
  assumes "i * unat (bytes_per_cluster ctx) < unat sz"
    and "chunk = (if bytes_per_cluster ctx > sz - of_nat i * bytes_per_cluster ctx
      then sz - of_nat i * bytes_per_cluster ctx else bytes_per_cluster ctx)"
  shows "bslice buffer (unat (of_nat i * bytes_per_cluster ctx :: u32)) (unat chunk) @
      replicate (unat (bytes_per_cluster ctx) - unat chunk) 0 = blk ctx buffer (unat sz) i"
proof -
  let ?B = "unat (bytes_per_cluster ctx)"
  have "i * ?B < 2 ^ 32" using assms(1) unsigned_less [of sz, where 'a = nat] by simp
  moreover have "(of_nat i * bytes_per_cluster ctx :: u32) = of_nat (i * ?B)" by simp
  ultimately have m: "unat (of_nat i * bytes_per_cluster ctx :: u32) = i * ?B"
    using unat_of_nat_small [where 'a = 32, of "i * ?B"] by simp
  have "of_nat i * bytes_per_cluster ctx \<le> sz" using m assms(1) by (simp add: word_le_nat_alt)
  from chunk_nat(1) [OF this assms(2)] have "unat chunk = min ?B (unat sz - i * ?B)" using m by simp
  then show ?thesis using m by (simp add: blk_def Let_def)
qed

lemma write_chain_ok:
  assumes "written ctx st0 buffer (unat sz) cs st" "fs_ok ctx st" "unat sz \<le> length buffer"
    and "0 < n \<longrightarrow> (length cs + n - 1) * unat (bytes_per_cluster ctx) < unat sz"
    and "cs = [] \<longrightarrow> fc = 0" "cs \<noteq> [] \<longrightarrow> fc = hd cs \<and> prev = last cs"
  shows "\<exists>ok fc' st'. write_chain ctx st buffer sz (of_nat (length cs)) n fc prev = Some (ok, fc', st') \<and>
    (ok \<longleftrightarrow> n \<le> card (free_clusters ctx st)) \<and>
    (\<exists>cs'. written ctx st0 buffer (unat sz) (cs @ cs') st' \<and> fs_ok ctx st' \<and>
       (if ok then length cs' = n \<and> (cs @ cs' \<noteq> [] \<longrightarrow> fc' = hd (cs @ cs')) else free_clusters ctx st' = {}))"
  using assms
proof (induction n arbitrary: cs st fc prev)
  case 0
  then show ?case by (intro exI [of _ "[]"] exI conjI) (auto intro!: exI [of _ "[]"])
next
  case (Suc n)
  let ?B = "unat (bytes_per_cluster ctx)"
  let ?i = "of_nat (length cs) :: u32"
  note fs = Suc.prems(2)
  obtain cl st1 where al: "fat32_alloc_cluster ctx st = Some (cl, st1)"
    "if free_clusters ctx st = {} then cl = 0 \<and> st1 = st
     else cl \<in> free_clusters ctx st \<and> (\<forall>d \<in> free_clusters ctx st. unat cl \<le> unat d) \<and> agree_off ctx {cl} st st1 \<and>
       fat_val ctx st1 cl = FAT32_EOC \<and> clus ctx st1 cl = clus ctx st cl"
    using alloc_cluster_ok [OF fs] by blast
  show ?case
  proof (cases "free_clusters ctx st = {}")
    case True
    then have e: "write_chain ctx st buffer sz ?i (Suc n) fc prev = Some (False, fc, st)" using al by simp
    have "\<exists>cs'. written ctx st0 buffer (unat sz) (cs @ cs') st \<and> fs_ok ctx st \<and> free_clusters ctx st = {}"
      using True fs Suc.prems(1) by (intro exI [of _ "[]"]) simp
    then show ?thesis unfolding e by (intro exI [of _ False] exI [of _ fc] exI [of _ st]) (simp add: True)
  next
    case False
    then have A: "cl \<in> free_clusters ctx st" "agree_off ctx {cl} st st1" "fat_val ctx st1 cl = FAT32_EOC"
      using al(2) by auto
    have cl0: "cl \<noteq> 0" and iv: "in_vol ctx cl" using A(1) by (auto simp: free_clusters_def in_vol_def)
    have fch: "fchain ctx st cs" using Suc.prems(1) by (simp add: written_def)
    have fcz: "fc = 0 \<longleftrightarrow> cs = []"
      using Suc.prems(5,6) fchain_in_vol [OF fch, of fc] by (cases "cs = []") (auto simp: in_vol_def)
    obtain st2 where L: "(if fc = 0 then Some (True, st1) else fat_write_entry ctx st1 prev cl) = Some (True, st2)"
      "if cs = [] then st2 = st1 else agree_off ctx {last cs} st1 st2 \<and> fat_val ctx st2 (last cs) = cl \<and>
         clus ctx st2 (last cs) = clus ctx st1 (last cs)"
    proof (cases "cs = []")
      case True
      then show ?thesis using that [of st1] fcz by simp
    next
      case ne: False
      then have "in_vol ctx (last cs)" using fchain_in_vol [OF fch] by simp
      then show ?thesis using link_ok [OF agree_off_fs [OF A(2)] _ iv, of "last cs"] that ne fcz Suc.prems(6) by auto
    qed
    have fs2: "fs_ok ctx st2" using L(2) agree_off_fs A(2) by (cases "cs = []") auto
    define chunk where "chunk = (if bytes_per_cluster ctx > sz - ?i * bytes_per_cluster ctx
      then sz - ?i * bytes_per_cluster ctx else bytes_per_cluster ctx)"
    have "length cs * ?B \<le> (length cs + Suc n - 1) * ?B" by (intro mult_le_mono1) simp
    moreover have "(length cs + Suc n - 1) * ?B < unat sz" using Suc.prems(4) by blast
    ultimately have lt: "length cs * ?B < unat sz" by (rule order_le_less_trans)
    note cb = chunk_blk [OF lt chunk_def, of buffer]
    obtain st3 where F: "write_cluster ctx st2 cl (blk ctx buffer (unat sz) (length cs)) = Some (True, st3)"
      "agree_off ctx {cl} st2 st3" "fat_val ctx st3 cl = fat_val ctx st2 cl"
      "clus ctx st3 cl = blk ctx buffer (unat sz) (length cs)"
      using fill_ok [OF fs2 iv blk_length [OF Suc.prems(3)]] by blast
    let ?fc = "if fc = 0 then cl else fc"
    note E = written_extend [OF Suc.prems(1) fs A L(2) F(2-4)]
    have step: "write_chain ctx st buffer sz ?i (Suc n) fc prev = write_chain ctx st3 buffer sz (of_nat (length (cs @ [cl]))) n ?fc cl"
    proof -
      have "write_cluster ctx st2 cl (bslice buffer (unat (?i * bytes_per_cluster ctx)) (unat chunk) @
          replicate (unat (bytes_per_cluster ctx) - unat chunk) 0) = Some (True, st3)"
        using cb F(1) by (simp only:)
      then show ?thesis using al(1) cl0 L(1) by (simp add: Let_def chunk_def add.commute)
    qed
    have card: "card (free_clusters ctx st3) = card (free_clusters ctx st) - 1" "0 < card (free_clusters ctx st)"
      using E(2) A(1) False by (simp_all add: card_gt_0_iff)
    have hd: "?fc = hd (cs @ [cl])" using fcz Suc.prems(6) by (cases "cs = []") auto
    obtain ok fc' st' cs' where I: "write_chain ctx st3 buffer sz (of_nat (length (cs @ [cl]))) n ?fc cl = Some (ok, fc', st')"
      "ok \<longleftrightarrow> n \<le> card (free_clusters ctx st3)" "written ctx st0 buffer (unat sz) ((cs @ [cl]) @ cs') st'" "fs_ok ctx st'"
      "if ok then length cs' = n \<and> ((cs @ [cl]) @ cs' \<noteq> [] \<longrightarrow> fc' = hd ((cs @ [cl]) @ cs')) else free_clusters ctx st' = {}"
      using Suc.IH [OF E(1) agree_off_fs [OF F(2)] Suc.prems(3), of ?fc cl] Suc.prems(4) hd by auto
    have "ok \<longleftrightarrow> Suc n \<le> card (free_clusters ctx st)" using I(2) card by auto
    moreover have "written ctx st0 buffer (unat sz) (cs @ cl # cs') st'" using I(3) by simp
    moreover have "if ok then length (cl # cs') = Suc n \<and> (cs @ cl # cs' \<noteq> [] \<longrightarrow> fc' = hd (cs @ cl # cs')) else free_clusters ctx st' = {}"
      using I(5) by simp
    ultimately show ?thesis unfolding step I(1) using I(4) by blast
  qed
qed

section \<open>Files\<close>

lemma blk_take:
  assumes "n \<le> length buffer"
  shows "take n (concat (map (blk ctx buffer n) [0..<k])) = take (k * unat (bytes_per_cluster ctx)) (take n buffer)"
proof (induction k)
  case (Suc k)
  let ?B = "unat (bytes_per_cluster ctx)" and ?X = "concat (map (blk ctx buffer n) [0..<k])"
  have l: "length ?X = k * ?B" by (induction k) (simp_all add: blk_length [OF assms])
  show ?case
  proof (cases "k * ?B \<le> n")
    case True
    have "take (n - k * ?B) (blk ctx buffer n k) = take ?B (drop (k * ?B) (take n buffer))"
      using True assms by (simp add: blk_def bslice_def Let_def min_def drop_take)
    then have "take n (?X @ blk ctx buffer n k) = take (k * ?B) (take n buffer) @ take ?B (drop (k * ?B) (take n buffer))"
      using Suc l True by (simp only: take_append)
    also have "\<dots> = take (k * ?B + ?B) (take n buffer)" by (simp only: take_add)
    finally show ?thesis by (simp add: add.commute)
  next
    case False
    then show ?thesis using Suc l by simp
  qed
qed simp

text \<open>The clusters a file of \<open>sz\<close> bytes needs, as \<open>fat32_write_file\<close> counts them.\<close>

definition clusters_for :: "fat32_ctx \<Rightarrow> u32 \<Rightarrow> nat" where
  "clusters_for ctx sz = unat ((sz + bytes_per_cluster ctx - 1) div bytes_per_cluster ctx)"

lemma clusters_for_bounds:
  assumes "fs_ok ctx st" "sz \<noteq> 0" "unat sz + unat (bytes_per_cluster ctx) \<le> 2 ^ 32"
  shows "0 < clusters_for ctx sz" "(clusters_for ctx sz - 1) * unat (bytes_per_cluster ctx) < unat sz"
    "unat sz \<le> clusters_for ctx sz * unat (bytes_per_cluster ctx)"
proof -
  let ?b = "bytes_per_cluster ctx"
  let ?B = "unat ?b" and ?n = "unat sz"
  have B: "0 < ?B" using fs_okD(3,4) [OF assms(1)] by (simp add: unat_gt_0)
  have n: "0 < ?n" using assms(2) by (simp add: unat_gt_0)
  have "sz + ?b - 1 = of_nat (?n + ?B - 1)" using n by (simp add: of_nat_diff)
  moreover have "unat (of_nat (?n + ?B - 1) :: u32) = ?n + ?B - 1"
    using assms(3) n by (intro unat_of_nat_small) simp
  ultimately have "unat (sz + ?b - 1) = ?n + ?B - 1" by simp
  then have c: "clusters_for ctx sz = (?n + ?B - 1) div ?B" by (simp add: clusters_for_def unat_div)
  have d: "clusters_for ctx sz * ?B + (?n + ?B - 1) mod ?B = ?n + ?B - 1" "(?n + ?B - 1) mod ?B < ?B"
    using B by (simp_all add: c)
  show le: "?n \<le> clusters_for ctx sz * ?B" using d B by linarith
  then show p: "0 < clusters_for ctx sz" using n by (cases "clusters_for ctx sz = 0") auto
  have "(clusters_for ctx sz - 1) * ?B = clusters_for ctx sz * ?B - ?B" by (simp add: diff_mult_distrib)
  then show "(clusters_for ctx sz - 1) * ?B < ?n" using d B n by linarith
qed

lemma written_start: "fs_ok ctx st \<Longrightarrow> written ctx st buffer n [] st"
  by (simp add: written_def agree_off_refl)

lemma write_chain_start:
  assumes "fs_ok ctx st" "sz \<noteq> 0" "unat sz \<le> length buffer" "unat sz + unat (bytes_per_cluster ctx) \<le> 2 ^ 32"
  shows "\<exists>ok fc st'. write_chain ctx st buffer sz 0 (clusters_for ctx sz) 0 0 = Some (ok, fc, st') \<and>
    (ok \<longleftrightarrow> clusters_for ctx sz \<le> card (free_clusters ctx st)) \<and>
    (\<exists>cs. written ctx st buffer (unat sz) cs st' \<and> fs_ok ctx st' \<and>
       (if ok then length cs = clusters_for ctx sz \<and> (cs \<noteq> [] \<longrightarrow> fc = hd cs) else free_clusters ctx st' = {}))"
  using write_chain_ok [OF written_start [OF assms(1)] assms(1,3), of "clusters_for ctx sz" 0 0, unfolded append_Nil]
    clusters_for_bounds(2) [OF assms(1,2,4)] by simp

section \<open>Properties\<close>

text \<open>
  C18: on a well-formed volume (\<open>fs_ok\<close>) writing an entry of the file allocation table and reading it back gives the value written (28
  bits); all other entries and all clusters keep their contents, and the four reserved bits of the
  entry are preserved.
\<close>

theorem fat_entry_roundtrip:
  assumes "fs_ok ctx st" "unat c < nfat ctx"
  shows "\<exists>st'. fat_write_entry ctx st c v = Some (True, st') \<and>
    fat_read_entry ctx st' c = Some (v AND 0x0FFFFFFF) \<and>
    fat_raw ctx st' c AND 0xF0000000 = fat_raw ctx st c AND 0xF0000000 \<and>
    (\<forall>d. unat d < nfat ctx \<and> d \<noteq> c \<longrightarrow> fat_read_entry ctx st' d = fat_read_entry ctx st d) \<and>
    (\<forall>d. in_vol ctx d \<longrightarrow> read_cluster ctx st' d = read_cluster ctx st d)"
proof -
  obtain st' where w: "fat_write_entry ctx st c v = Some (True, st')" "fs_ok ctx st'"
    "\<forall>d. unat d < nfat ctx \<longrightarrow> fat_raw ctx st' d =
       (if d = c then (fat_raw ctx st c AND 0xF0000000) OR (v AND 0x0FFFFFFF) else fat_raw ctx st d)"
    "\<forall>d. 2 \<le> unat d \<and> unat d < nfat ctx \<longrightarrow> clus ctx st' d = clus ctx st d"
    using fat_write_ok [OF assms, of v] by (auto simp: vol_same_def)
  have "fat_read_entry ctx st' c = Some (v AND 0x0FFFFFFF)"
    using fat_read_ok [OF w(2) assms(2)] w(3) assms(2) by (simp add: fat_val_def fat_mask)
  moreover have "fat_raw ctx st' c AND 0xF0000000 = fat_raw ctx st c AND 0xF0000000"
    using w(3) assms(2) by (simp add: fat_mask_top)
  moreover have "fat_read_entry ctx st' d = fat_read_entry ctx st d" if "unat d < nfat ctx" "d \<noteq> c" for d
    using fat_read_ok [OF w(2) that(1)] fat_read_ok [OF assms(1) that(1)] w(3) that by (simp add: fat_val_def)
  moreover have "read_cluster ctx st' d = read_cluster ctx st d" if "in_vol ctx d" for d
    using read_cluster_ok [OF w(2)] read_cluster_ok [OF assms(1)] w(4) that by (simp add: in_vol_def)
  ultimately show ?thesis using w(1) by blast
qed

text \<open>A small empty volume: 128 clusters of one sector, behind one sector of allocation table.\<close>

definition small_ctx :: fat32_ctx where
  "small_ctx = \<lparr>fdev = 1, bytes_per_sector = 512, sectors_per_cluster = 1, reserved_sectors = 1, fat_count = 1,
     fat_size = 1, root_cluster = 2, data_start = 2, fat_start = 1, bytes_per_cluster = 512, wild = \<lambda>_. 0\<rparr>"

definition small_vol :: "(u64 \<Rightarrow> u8 list) \<Rightarrow> storage" where
  "small_vol d = \<lparr>disks = \<lambda>_. \<lparr>content = d, rfault = \<lambda>_. False, wfault = \<lambda>_. False\<rparr>,
     devs = \<lambda>_. blank_device\<lparr>sector_size := 512, sector_count := 256,
        read_fn := Some (Driver_fn 0), write_fn := Some (Driver_fn 0)\<rparr>,
     fresh_dev = 2, first_device = 1, last_device = 1, device_count = 1, alloc_ok = []\<rparr>"

lemma small_vol_ok: "(\<forall>x. length (d x) = 512) \<Longrightarrow> fs_ok small_ctx (small_vol d)"
  by (simp add: fs_ok_def small_ctx_def small_vol_def dev_ready_def dev_ok_def is_disk_def nfat_def dev_cap_def
      blank_device_def dev_disk_def Let_def)

lemma small_vol_sect: "dev_sect (fdev small_ctx) (small_vol d) x = d x"
  by (simp add: small_ctx_def small_vol_def dev_sect_def dev_disk_def dev_base_def blank_device_def)

lemma small_vol_free: "free_clusters small_ctx (small_vol (\<lambda>_. replicate 512 0)) \<noteq> {}"
proof -
  have "fat_val small_ctx (small_vol (\<lambda>_. replicate 512 0)) 2 = 0"
    by (simp add: fat_val_def fat_raw_def k_le32_def small_vol_sect)
  then have "2 \<in> free_clusters small_ctx (small_vol (\<lambda>_. replicate 512 0))"
    by (simp add: free_clusters_def nfat_def small_ctx_def)
  then show ?thesis by blast
qed

theorem fat_entry_roundtrip_witness:
  "\<exists>st'. fat_write_entry small_ctx (small_vol (\<lambda>_. replicate 512 0)) 5 7 = Some (True, st') \<and>
    fat_read_entry small_ctx st' 5 = Some 7"
  using fat_entry_roundtrip [OF small_vol_ok, of "\<lambda>_. replicate 512 0" 5 7]
  by (auto simp: nfat_def small_ctx_def)

text \<open>
  C6: on a volume whose device holds every cluster the file allocation table describes (\<open>fs_ok\<close>), a file
  is read back as it was written: when enough clusters are free, the loop that stores the
  contents succeeds, \<open>fat32_read\<close> from the first cluster returns exactly the bytes written, and no
  cluster that was in use before is touched.
\<close>

theorem file_data_roundtrip:
  assumes "fs_ok ctx st" "alloc_ok st = []" "sz \<noteq> 0" "unat sz \<le> length buffer"
    and "unat sz + unat (bytes_per_cluster ctx) \<le> 2 ^ 32"
    and "clusters_for ctx sz \<le> card (free_clusters ctx st)"
  shows "\<exists>fc st' X. write_chain ctx st buffer sz 0 (clusters_for ctx sz) 0 0 = Some (True, fc, st') \<and>
    fat32_read ctx st' fc sz = Some (sz, take (unat sz) buffer, st') \<and>
    X \<subseteq> free_clusters ctx st \<and> agree_off ctx X st st'"
proof -
  let ?B = "unat (bytes_per_cluster ctx)" and ?N = "clusters_for ctx sz"
  note b = clusters_for_bounds [OF assms(1,3,5)]
  obtain fc st' cs where r: "write_chain ctx st buffer sz 0 ?N 0 0 = Some (True, fc, st')"
    "written ctx st buffer (unat sz) cs st'" "fs_ok ctx st'" "length cs = ?N" "cs \<noteq> [] \<longrightarrow> fc = hd cs"
    using write_chain_start [OF assms(1,3,4,5)] assms(6) by auto
  obtain cs' where cs: "cs = fc # cs'" using r(4,5) b(1) by (cases cs) auto
  have W: "fchain ctx st' cs" "set cs \<subseteq> free_clusters ctx st" "agree_off ctx (set cs) st st'"
    "\<forall>j < length cs. clus ctx st' (cs ! j) = blk ctx buffer (unat sz) j" using r(2) by (auto simp: written_def)
  have al: "alloc_ok st' = []" using W(3) assms(2) vol_same_kalloc [of ctx st st'] by (simp add: agree_off_def)
  have "map (clus ctx st') cs = map (blk ctx buffer (unat sz)) [0..<?N]"
    using W(4) r(4) by (intro nth_equalityI) simp_all
  then have "take (unat sz) (chain_data ctx st' cs) = take (unat sz) buffer"
    using blk_take [OF assms(4), of ctx ?N] b(3) by (simp add: chain_data_def min_def)
  moreover obtain k where k: "fat32_read ctx st' fc sz = Some (k, take (unat sz) (chain_data ctx st' cs), st')"
    "unat k = min (unat sz) (length cs * ?B)"
    using fat32_read_chain [OF r(3) al, of fc cs'] W(1) cs by blast
  moreover have "k = sz" using k(2) r(4) b(3) by (simp add: word_unat_eq_iff min_def)
  ultimately have "fat32_read ctx st' fc sz = Some (sz, take (unat sz) buffer, st')" by simp
  then show ?thesis using r(1) W(2,3) by blast
qed

theorem file_data_roundtrip_witness:
  "\<exists>fc st'. write_chain small_ctx (small_vol (\<lambda>_. replicate 512 0)) (str ''hello'') 5 0 1 0 0 = Some (True, fc, st') \<and>
    fat32_read small_ctx st' fc 5 = Some (5, str ''hello'', st')"
proof -
  let ?st = "small_vol (\<lambda>_. replicate 512 0)"
  have c: "clusters_for small_ctx 5 = 1" by (simp add: clusters_for_def small_ctx_def unat_div)
  have l: "length (str ''hello'') = 5" by (simp add: str_def)
  have "clusters_for small_ctx 5 \<le> card (free_clusters small_ctx ?st)"
    using c small_vol_free by (simp add: card_gt_0_iff Suc_le_eq)
  then show ?thesis
    using file_data_roundtrip [OF small_vol_ok, of "\<lambda>_. replicate 512 0" 5 "str ''hello''"] c l
    by (auto simp: small_vol_def small_ctx_def)
qed

text \<open>
  C22: on a volume whose device holds every cluster the file allocation table describes (\<open>fs_ok\<close>), when
  there are too few free clusters the loop that stores the contents of a file fails but keeps every cluster
  it took: afterwards no free cluster is left on the volume. Where the table has entries behind the end of
  the device the search returns such an entry first; then the write of the cluster fails and the loop takes
  the error path that frees the chain.
\<close>

theorem write_chain_full_leaks:
  assumes "fs_ok ctx st" "sz \<noteq> 0" "unat sz \<le> length buffer"
    and "unat sz + unat (bytes_per_cluster ctx) \<le> 2 ^ 32"
    and "card (free_clusters ctx st) < clusters_for ctx sz"
  shows "\<exists>fc st'. write_chain ctx st buffer sz 0 (clusters_for ctx sz) 0 0 = Some (False, fc, st') \<and>
    free_clusters ctx st' = {}"
proof -
  show ?thesis using write_chain_start [OF assms(1-4)] assms(5) by auto
qed

theorem write_chain_full_leaks_witness:
  "\<exists>fc st'. write_chain small_ctx (small_vol (\<lambda>_. replicate 512 0)) (replicate 65536 1) 65536 0 128 0 0 =
      Some (False, fc, st') \<and> free_clusters small_ctx st' = {}"
proof -
  let ?st = "small_vol (\<lambda>_. replicate 512 0)"
  have c: "clusters_for small_ctx 65536 = 128" by (simp add: clusters_for_def small_ctx_def unat_div)
  have "free_clusters small_ctx ?st \<subseteq> (of_nat ` {2..<128} :: u32 set)"
  proof
    fix d assume "d \<in> free_clusters small_ctx ?st"
    then have "unat d \<in> {2..<128}" by (simp add: free_clusters_def nfat_def small_ctx_def)
    then show "d \<in> of_nat ` {2..<128}" by (metis image_eqI of_nat_unat ucast_id)
  qed
  then have "card (free_clusters small_ctx ?st) \<le> card (of_nat ` {2..<128} :: u32 set)" by (intro card_mono) simp_all
  also have "\<dots> \<le> 126" using card_image_le [of "{2..<128}" "of_nat :: nat \<Rightarrow> u32"] by simp
  finally have "card (free_clusters small_ctx ?st) < clusters_for small_ctx 65536" using c by simp
  then show ?thesis
    using write_chain_full_leaks [OF small_vol_ok, of "\<lambda>_. replicate 512 0" 65536 "replicate 65536 1"] c
    by (simp add: small_ctx_def)
qed

section \<open>Directories that defeat the scan\<close>

text \<open>
  The names under which one pass of the scan lists the entries of a cluster without an end mark, and the
  long-name parts left over at its end, with which the next pass starts.
\<close>

fun scan_names :: "u8 list \<Rightarrow> nat \<Rightarrow> nat \<Rightarrow> lfn_acc \<Rightarrow> cstring list \<times> lfn_acc" where
  "scan_names buf i 0 acc = ([], acc)"
| "scan_names buf i (Suc n) acc = (let e = (\<lambda>k. buf ! (i * 32 + k)) in
     if e 0 = 0xE5 then scan_names buf (Suc i) n lfn_reset
     else if e 11 AND 0x0F = 0x0F then scan_names buf (Suc i) n (lfn_add_part acc e)
     else case scan_names buf (Suc i) n lfn_reset of (ns, left) \<Rightarrow>
       ((if length acc > 0 then lfn_assemble acc 256 else build_short_name e 256) # ns, left))"

lemma open_visit_None:
  "open_visit name c k e nm None = (if name_matches nm name then (True, Some (make_dirent e nm)) else (False, None))"
  by (simp add: open_visit_def)

lemma dir_entries_no_match:
  assumes "\<forall>j. i \<le> j \<and> j < i + n \<longrightarrow> buf ! (j * 32) \<noteq> 0"
    and "\<forall>nm \<in> set (fst (scan_names buf i n acc)). \<not> name_matches nm name"
  shows "dir_entries (open_visit name) cluster buf i n acc None = (False, False, snd (scan_names buf i n acc), None)"
  using assms
proof (induction n arbitrary: i acc)
  case (Suc n)
  let ?e = "\<lambda>k. buf ! (i * 32 + k)"
  have IH: "dir_entries (open_visit name) cluster buf (Suc i) n a None = (False, False, snd (scan_names buf (Suc i) n a), None)"
    if "\<forall>nm \<in> set (fst (scan_names buf (Suc i) n a)). \<not> name_matches nm name" for a
    using Suc.prems(1) that by (intro Suc.IH) auto
  have z: "?e 0 \<noteq> 0" using Suc.prems(1) by simp
  consider "?e 0 = 0xE5" | "?e 0 \<noteq> 0xE5" "?e 11 AND 0x0F = 0x0F" | "?e 0 \<noteq> 0xE5" "?e 11 AND 0x0F \<noteq> 0x0F" by blast
  then show ?case
    using z Suc.prems(2) IH [of lfn_reset] IH [of "lfn_add_part acc ?e"]
    by cases (auto simp: Let_def open_visit_None split: prod.splits)
qed simp

text \<open>Unless the slots hold nothing but long-name parts, what is left over does not depend on the start.\<close>

lemma scan_names_left:
  "snd (scan_names buf i n a) = snd (scan_names buf i n b) \<or> (\<forall>c. fst (scan_names buf i n c) = [])"
proof (induction n arbitrary: i a b)
  case (Suc n)
  show ?case
    using Suc.IH [of "Suc i" "lfn_add_part a (\<lambda>k. buf ! (i * 32 + k))" "lfn_add_part b (\<lambda>k. buf ! (i * 32 + k))"]
    by (auto simp: Let_def split: prod.splits)
qed simp

lemma read_directory_loop_stuck:
  assumes "cluster_valid cluster" "read_cluster ctx st cluster = Some (Some buf)"
    and full: "\<forall>j < unat (bytes_per_cluster ctx div 32). buf ! (j * 32) \<noteq> 0"
    and once: "scan_names buf 0 (unat (bytes_per_cluster ctx div 32)) lfn_reset = (ns, left)"
    and none: "\<forall>nm \<in> set ns \<union> set (fst (scan_names buf 0 (unat (bytes_per_cluster ctx div 32)) left)).
      \<not> name_matches nm name"
  shows "read_directory_loop ctx st (open_visit name) cluster lfn_reset None = None"
proof -
  let ?n = "unat (bytes_per_cluster ctx div 32)"
  define I where "I a \<longleftrightarrow> (\<forall>c. fst (scan_names buf 0 ?n c) = []) \<or> a = lfn_reset \<or> a = left" for a
  have pass: "\<exists>b. dir_entries (open_visit name) cluster buf 0 ?n a None = (False, False, b, None) \<and> I b" if "I a" for a
  proof (intro exI conjI)
    have "\<forall>nm \<in> set (fst (scan_names buf 0 ?n a)). \<not> name_matches nm name"
      using that once none by (auto simp: I_def)
    then show "dir_entries (open_visit name) cluster buf 0 ?n a None = (False, False, snd (scan_names buf 0 ?n a), None)"
      using full by (intro dir_entries_no_match) auto
    show "I (snd (scan_names buf 0 ?n a))"
      using scan_names_left [of buf 0 ?n a lfn_reset] once by (auto simp: I_def)
  qed
  have "\<not> (c = ctx \<and> s = st \<and> v = open_visit name \<and> k = cluster \<and> I a \<and> u = None)"
    if "read_directory_loop c s v k a u = Some y" for c s v k a u y
  proof (rule read_directory_loop.raw_induct [OF _ that])
    fix f c s v k a u y
    assume f: "\<And>c s v k a u y. f c s v k a u = Some y \<Longrightarrow>
        \<not> (c = ctx \<and> s = st \<and> v = open_visit name \<and> k = cluster \<and> I a \<and> u = None)"
      and body: "(if cluster_valid k then do {
          r \<leftarrow> read_cluster c s k;
          case r of None \<Rightarrow> Some (False, u)
          | Some buf \<Rightarrow> (case dir_entries v k buf 0 (unat (bytes_per_cluster c div 32)) a u of
               (fin, found, acc, user) \<Rightarrow> if fin \<or> found then Some (found, user) else f c s v k acc user)
        } else Some (False, u)) = Some y"
    show "\<not> (c = ctx \<and> s = st \<and> v = open_visit name \<and> k = cluster \<and> I a \<and> u = None)"
    proof
      assume h: "c = ctx \<and> s = st \<and> v = open_visit name \<and> k = cluster \<and> I a \<and> u = None"
      then obtain b where "dir_entries (open_visit name) cluster buf 0 ?n a None = (False, False, b, None)" "I b"
        using pass by blast
      then show False using f body h assms(1,2) by fastforce
    qed
  qed
  moreover have "I lfn_reset" by (simp add: I_def)
  ultimately show ?thesis by (metis option.exhaust)
qed

text \<open>
  C20: looking up a name in a directory whose first cluster has no end mark never returns when no listed
  name matches: neither on the first pass over the cluster nor on a pass that starts with the long-name
  parts left over at the end of the cluster, which are put in front of the first entry. The scan does not
  move on to the next cluster of the directory but reads the same one again. The cluster is readable and
  the buffer for it can be allocated.
\<close>

theorem find_entry_full_directory_diverges:
  assumes "alloc_ok st = []" "cluster_valid cluster" "read_cluster ctx st cluster = Some (Some buf)"
    and "\<forall>j < unat (bytes_per_cluster ctx div 32). buf ! (j * 32) \<noteq> 0"
    and "scan_names buf 0 (unat (bytes_per_cluster ctx div 32)) lfn_reset = (ns, left)"
    and "\<forall>nm \<in> set ns \<union> set (fst (scan_names buf 0 (unat (bytes_per_cluster ctx div 32)) left)).
      \<not> name_matches nm name"
  shows "find_entry ctx st cluster name = None"
  using read_directory_loop_stuck [OF assms(2-6)] assms(1) by (simp add: find_entry_def read_directory_def)

text \<open>
  A directory cluster with eight files \<open>lowercase.txt\<close>, each with the long-name part the code writes for it.
\<close>

definition lower_name :: cstring where
  "lower_name = str ''lowercase.txt''"

definition named_file :: "u8 list" where
  "named_file = lfn_entry (cstr lower_name) 13 1 0 0 @ str ''LOWERC~1TXT'' @ replicate 21 0x20"

definition full_dir :: "u8 list" where
  "full_dir = concat (replicate 8 named_file)"

lemma full_dir_length: "length full_dir = 512" by code_simp
lemma full_dir_scan: "scan_names full_dir 0 16 lfn_reset = (replicate 8 lower_name, [])" by code_simp
lemma full_dir_full: "\<forall>j < 16. full_dir ! (j * 32) \<noteq> 0" by code_simp

theorem find_entry_full_directory_diverges_witness:
  "find_entry small_ctx (small_vol (\<lambda>_. full_dir)) 2 (str ''other.txt'') = None"
proof (rule find_entry_full_directory_diverges)
  let ?st = "small_vol (\<lambda>_. full_dir)"
  have n: "unat (bytes_per_cluster small_ctx div 32) = 16" by (simp add: small_ctx_def)
  have ok: "fs_ok small_ctx ?st" by (intro small_vol_ok) (simp add: full_dir_length)
  have "clus small_ctx ?st 2 = full_dir"
    by (simp add: clus_def small_vol_sect) (simp add: small_ctx_def)
  then show "read_cluster small_ctx ?st 2 = Some (Some full_dir)"
    using read_cluster_ok [OF ok, of 2] by (simp add: nfat_def small_ctx_def)
  show "alloc_ok ?st = []" by (simp add: small_vol_def)
  show "cluster_valid 2" by (rule in_vol_valid [OF ok]) (simp add: in_vol_def nfat_def small_ctx_def)
  show "\<forall>j < unat (bytes_per_cluster small_ctx div 32). full_dir ! (j * 32) \<noteq> 0"
    using full_dir_full n by simp
  show "scan_names full_dir 0 (unat (bytes_per_cluster small_ctx div 32)) lfn_reset = (replicate 8 lower_name, [])"
    using full_dir_scan n by simp
  have "\<not> name_matches lower_name (str ''other.txt'')" by code_simp
  then show "\<forall>nm \<in> set (replicate 8 lower_name) \<union> set (fst (scan_names full_dir 0 (unat (bytes_per_cluster small_ctx div 32)) [])).
      \<not> name_matches nm (str ''other.txt'')"
    using full_dir_scan n by (simp add: lfn_reset_def)
qed


text \<open>One turn of the scan: it goes on, or the visitor stops it.\<close>

lemma dir_entries_turn:
  assumes "buf ! (i * 32) \<noteq> 0"
  obtains (goes_on) acc' user' where "dir_entries visit cluster buf i (Suc n) acc user = dir_entries visit cluster buf (Suc i) n acc' user'"
      "user' = user \<or> (\<exists>e nm. visit cluster (i * 32) e nm user = (False, user'))"
  | (stop) e nm user' where "dir_entries visit cluster buf i (Suc n) acc user = (False, True, lfn_reset, user')"
      "visit cluster (i * 32) e nm user = (True, user')"
proof -
  let ?e = "\<lambda>k. buf ! (i * 32 + k)"
  let ?nm = "if length acc > 0 then lfn_assemble acc 256 else build_short_name ?e 256"
  obtain st u where v: "visit cluster (i * 32) ?e ?nm user = (st, u)" by force
  consider "?e 0 = 0xE5" | "?e 0 \<noteq> 0xE5" "?e 11 AND 0x0F = 0x0F" | "?e 0 \<noteq> 0xE5" "?e 11 AND 0x0F \<noteq> 0x0F" by blast
  then show ?thesis
  proof cases
    case 1
    show ?thesis by (rule goes_on [of lfn_reset user]) (use 1 assms in \<open>simp_all add: Let_def\<close>)
  next
    case 2
    show ?thesis by (rule goes_on [of "lfn_add_part acc ?e" user]) (use 2 assms in \<open>simp_all add: Let_def\<close>)
  next
    case 3
    have e: "dir_entries visit cluster buf i (Suc n) acc user =
        (if st then (False, True, lfn_reset, u) else dir_entries visit cluster buf (Suc i) n lfn_reset u)"
      using 3 assms v by (simp only: dir_entries.simps Let_def prod.case) simp
    show ?thesis
    proof (cases st)
      case st: True
      show ?thesis by (rule stop [where user' = u and e = ?e and nm = ?nm]) (use e v st in \<open>auto simp only: if_True\<close>)
    next
      case st: False
      show ?thesis by (rule goes_on [where acc' = lfn_reset and user' = u]) (use e v st in \<open>auto simp only: if_False\<close>)
    qed
  qed
qed

lemma dir_entries_stop:
  assumes "\<exists>j. i \<le> j \<and> j < i + n \<and> buf ! (j * 32) = 0"
  shows "case dir_entries visit cluster buf i n acc user of (fin, found, acc', user') \<Rightarrow> fin \<or> found"
  using assms
proof (induction n arbitrary: i acc user)
  case (Suc n)
  show ?case
  proof (cases "buf ! (i * 32) = 0")
    case False
    have j: "\<exists>j. Suc i \<le> j \<and> j < Suc i + n \<and> buf ! (j * 32) = 0"
      using Suc.prems False by (metis Suc_leI add_Suc add_Suc_right le_neq_implies_less)
    show ?thesis
      using False
    proof (cases rule: dir_entries_turn [where visit = visit and cluster = cluster and n = n and acc = acc and user = user])
      case (goes_on acc' user')
      then show ?thesis using Suc.IH [OF j, of acc' user'] by (simp only:)
    qed simp
  qed (simp add: Let_def)
qed auto

lemma collect_visit: "remove_collect_visit c k e nm items = (st, items') \<Longrightarrow> \<exists>ts. items' = items @ ts"
  by (auto simp: remove_collect_visit_def split: if_splits)

lemma collect_prefix:
  "dir_entries remove_collect_visit cluster buf i n acc items = (fin, found, acc', items') \<Longrightarrow> \<exists>ts. items' = items @ ts"
proof (induction n arbitrary: i acc items)
  case (Suc n)
  show ?case
  proof (cases "buf ! (i * 32) = 0")
    case True
    then show ?thesis using Suc.prems by (simp add: Let_def)
  next
    case False
    then show ?thesis
    proof (cases rule: dir_entries_turn [where visit = remove_collect_visit and cluster = cluster and n = n and acc = acc and user = items])
      case (goes_on a u)
      then obtain ts where "items' = u @ ts" using Suc.IH [of "Suc i" a u] Suc.prems by auto
      moreover obtain us where "u = items @ us" using goes_on(2) collect_visit by blast
      ultimately show ?thesis by simp
    next
      case (stop e nm u)
      then show ?thesis using Suc.prems collect_visit by simp
    qed
  qed
qed simp

lemma byte_mask: "(ucast (x AND 0xFF) :: u8) = ucast x" for x :: u32
proof (rule bit_word_eqI)
  fix n assume "n < LENGTH(8)"
  then have "n < 8" by simp
  moreover have "x AND 0xFF = take_bit 8 x" by (simp add: take_bit_eq_mask mask_eq_exp_minus_1)
  ultimately show "bit (ucast (x AND 0xFF) :: u8) n = bit (ucast x :: u8) n" by (simp add: bit_simps)
qed

lemma dirent_cluster:
  fixes c :: u32
  assumes "e 20 = ucast (drop_bit 16 c AND 0xFF)" "e 21 = ucast (drop_bit 24 c AND 0xFF)"
    "e 26 = ucast (c AND 0xFF)" "e 27 = ucast (drop_bit 8 c AND 0xFF)"
  shows "first_cluster (make_dirent e name) = c"
proof (rule bit_word_eqI)
  fix n assume "n < LENGTH(32)"
  then have n: "n < 32" by simp
  consider "n < 8" | "8 \<le> n" "n < 16" | "16 \<le> n" "n < 24" | "24 \<le> n" using n by linarith
  then show "bit (first_cluster (make_dirent e name)) n \<longleftrightarrow> bit c n"
    using n by cases (auto simp: make_dirent_def Let_def k_le16_def assms byte_mask bit_simps)
qed


lemma remove_recursive_dot:
  assumes "fs_ok ctx st" "alloc_ok st = []" "in_vol ctx c" "take 32 (clus ctx st c) = dot_entry [0x2E] c"
    and "\<exists>j < unat (bytes_per_cluster ctx div 32). clus ctx st c ! (j * 32) = 0"
  shows "remove_recursive k ctx st c = Some (- 39, st)"
proof (induction k)
  case (Suc k)
  let ?buf = "clus ctx st c" and ?n = "unat (bytes_per_cluster ctx div 32)"
  let ?e = "\<lambda>k. ?buf ! k"
  have "length (take 32 ?buf) = length (dot_entry [0x2E] c)" by (simp only: assms(4))
  then have "32 \<le> length ?buf" by (simp add: dot_entry_def min_def split: if_splits)
  then have nth: "?buf ! i = dot_entry [0x2E] c ! i" if "i < 32" for i
    using that assms(4) by (metis nth_take)
  have e: "?e 0 = 0x2E" "?e 11 = 0x10" "?e 20 = ucast (drop_bit 16 c AND 0xFF)" "?e 21 = ucast (drop_bit 24 c AND 0xFF)"
    "?e 26 = ucast (c AND 0xFF)" "?e 27 = ucast (drop_bit 8 c AND 0xFF)"
    by (simp_all add: nth dot_entry_def nth_append)
  let ?item = "\<lparr>loc_d = make_dirent ?e (build_short_name ?e 256), loc_cluster = c, loc_offset = 0\<rparr>"
  have item: "is_dir (loc_d ?item)" "first_cluster (loc_d ?item) = c"
    using e dirent_cluster [of ?e c] by (simp_all add: make_dirent_def Let_def)
  have n0: "0 < ?n" using assms(5) by auto
  then obtain m where m: "?n = Suc m" by (cases ?n) auto
  obtain fin found acc items where d: "dir_entries remove_collect_visit c ?buf 0 ?n [] [] = (fin, found, acc, items)"
    by (metis prod_cases4)
  have first: "dir_entries remove_collect_visit c ?buf 0 (Suc m) [] [] =
      dir_entries remove_collect_visit c ?buf (Suc 0) m lfn_reset [?item]"
    using e(1,2) by (simp add: Let_def remove_collect_visit_def)
  then obtain ts where ts: "items = [?item] @ ts" using collect_prefix d m by metis
  have "fin \<or> found" using dir_entries_stop [of 0 ?n ?buf remove_collect_visit c "[]" "[]"] assms(5) d by auto
  moreover have rc: "read_cluster ctx st c = Some (Some ?buf)"
    using read_cluster_ok [OF assms(1)] assms(3) by (simp add: in_vol_def)
  ultimately have "read_directory_loop ctx st remove_collect_visit c [] [] = Some (found, items)"
    using d in_vol_valid [OF assms(1,3)] by (subst read_directory_loop.simps) simp
  then have "read_directory ctx st c remove_collect_visit [] = Some (found, items, st)"
    using assms(2) by (simp add: read_directory_def lfn_reset_def)
  then show ?case using ts item Suc.IH by simp
qed simp

text \<open>
  C21: a directory as \<open>fat32_mkdir\<close> lays it out can not be removed: the recursive removal follows the
  entry \<open>.\<close> back into the directory itself until the depth limit, and reports that the directory is not
  empty.
\<close>

theorem remove_directory_fails:
  assumes "fs_ok ctx st" "alloc_ok st = []" "in_vol ctx c"
    and "write_dot_entries ctx st c p = Some (True, st')"
  shows "remove_recursive 17 ctx st' c = Some (- 39, st')"
proof -
  let ?B = "unat (bytes_per_cluster ctx)"
  let ?d = "dot_entry [0x2E] c @ dot_entry [0x2E, 0x2E] p"
  have "0 < unat (sectors_per_cluster ctx)" using fs_okD(3) [OF assms(1)] by (simp add: unat_gt_0)
  then have B64: "64 < ?B" "2 < ?B div 32" using fs_okD(4) [OF assms(1)] by simp_all
  let ?buf = "?d @ replicate (?B - 64) 0"
  have ld: "length (dot_entry [0x2E] c) = 32" "length (dot_entry [0x2E, 0x2E] p) = 32" by (simp_all add: dot_entry_def)
  have pt: "patch (replicate ?B 0) 0 ?d = Some ?buf" using B64 ld by (simp add: patch_def)
  have len: "length ?buf = ?B" using B64 ld by simp
  obtain st1 where w: "write_cluster ctx st c ?buf = Some (True, st1)" "agree_off ctx {c} st st1" "clus ctx st1 c = ?buf"
    using fill_ok [OF assms(1,3) len] by blast
  have "st1 = st'" using assms(2,4) pt w(1) by (simp add: write_dot_entries_def)
  then have s: "fs_ok ctx st'" "alloc_ok st' = []" "clus ctx st' c = ?buf"
    using w agree_off_fs [OF w(2)] assms(2) vol_same_kalloc [of ctx st st1] by (auto simp: agree_off_def)
  have "unat (bytes_per_cluster ctx div 32) = ?B div 32" by (simp add: unat_div)
  moreover have "?buf ! (2 * 32) = 0" using ld B64(1) by (simp add: nth_append)
  ultimately have "\<exists>j < unat (bytes_per_cluster ctx div 32). clus ctx st' c ! (j * 32) = 0"
    using s(3) B64(2) by (intro exI [of _ 2]) (simp only:)
  moreover have "take 32 (clus ctx st' c) = dot_entry [0x2E] c" using s(3) ld by simp
  ultimately show ?thesis by (intro remove_recursive_dot [OF s(1,2) assms(3)])
qed

theorem remove_directory_fails_witness:
  "\<exists>st'. write_dot_entries small_ctx (small_vol (\<lambda>_. replicate 512 0)) 3 2 = Some (True, st') \<and>
    remove_recursive 17 small_ctx st' 3 = Some (- 39, st')"
proof -
  let ?st = "small_vol (\<lambda>_. replicate 512 0)"
  let ?d = "dot_entry [0x2E] 3 @ dot_entry [0x2E, 0x2E] 2"
  have fs: "fs_ok small_ctx ?st" by (rule small_vol_ok) simp
  have iv: "in_vol small_ctx 3" by (simp add: in_vol_def nfat_def small_ctx_def)
  have al: "alloc_ok ?st = []" by (simp add: small_vol_def)
  have ld: "length ?d = 64" by (simp add: dot_entry_def)
  have B: "unat (bytes_per_cluster small_ctx) = 512" by (simp add: small_ctx_def)
  have pt: "patch (replicate 512 0) 0 ?d = Some (?d @ replicate 448 0)" using ld by (simp add: patch_def)
  have "length (?d @ replicate 448 0) = unat (bytes_per_cluster small_ctx)"
    using ld B by (simp only: length_append length_replicate)
  then obtain st' where "write_cluster small_ctx ?st 3 (?d @ replicate 448 0) = Some (True, st')"
    using fill_ok [OF fs iv] by blast
  then have "write_dot_entries small_ctx ?st 3 2 = Some (True, st')"
    using al pt B by (simp add: write_dot_entries_def)
  then show ?thesis using remove_directory_fails [OF fs al iv] by blast
qed

end
