(* ===== verification/Links.thy ===== *)
theory Links
  imports Dynt_Prelude
begin

text \<open>
  Singly linked lists of objects in a typed store, as the kernel uses them for the children of a process and
  for run queues: the pointers from a head through the link of each object to the null pointer.
\<close>

section \<open>Chains\<close>

fun lpath :: "(u64 \<Rightarrow> u64) \<Rightarrow> u64 \<Rightarrow> u64 list \<Rightarrow> bool" where
  "lpath nx p [] = (p = 0)"
| "lpath nx p (x # xs) = (p = x \<and> x \<noteq> 0 \<and> lpath nx (nx x) xs)"

lemma lpath_unique: "lpath nx p xs \<Longrightarrow> lpath nx p ys \<Longrightarrow> xs = ys"
proof (induction xs arbitrary: p ys)
  case Nil
  then show ?case by (cases ys) auto
next
  case (Cons x xs)
  then show ?case by (cases ys) auto
qed

lemma lpath_nonzero: "lpath nx p xs \<Longrightarrow> 0 \<notin> set xs"
  by (induction xs arbitrary: p) auto

lemma lpath_append: "lpath nx p (xs @ y # ys) \<Longrightarrow> lpath nx y (y # ys)"
  by (induction xs arbitrary: p) auto

lemma lpath_distinct: "lpath nx p xs \<Longrightarrow> distinct xs"
proof (induction xs arbitrary: p)
  case (Cons x xs)
  have "x \<notin> set xs"
  proof
    assume "x \<in> set xs"
    then obtain ys zs where xs: "xs = ys @ x # zs" by (meson split_list)
    have "lpath nx x (x # zs)" using lpath_append [of nx "nx x" ys x zs] Cons.prems xs by simp
    then have "x # zs = x # xs" using lpath_unique [of nx x "x # zs" "x # xs"] Cons.prems by simp
    then have "length zs = length xs" by simp
    with xs show False by simp
  qed
  then show ?case using Cons by auto
qed simp

lemma lpath_cong: "(\<And>x. x \<in> set xs \<Longrightarrow> nx x = ny x) \<Longrightarrow> lpath nx p xs = lpath ny p xs"
  by (induction xs arbitrary: p) auto

lemma lpath_fun_upd: "p \<notin> set xs \<Longrightarrow> lpath (nx(p := y)) q xs = lpath nx q xs"
  by (rule lpath_cong) auto

section \<open>Lists as the kernel uses them\<close>

text \<open>
  The interface of such a list: an insertion at the front and a removal of one element. The provider
  promises what they do to the list of elements; a removal also returns.
\<close>

locale kernel_list =
  fixes chain :: "'s \<Rightarrow> u64 list \<Rightarrow> bool"
    and push :: "u64 \<Rightarrow> 's \<Rightarrow> 's"
    and pull :: "u64 \<Rightarrow> 's \<Rightarrow> 's option"
  assumes chain_unique: "chain s xs \<Longrightarrow> chain s ys \<Longrightarrow> xs = ys"
    and chain_distinct: "chain s xs \<Longrightarrow> distinct xs"
    and push_chain: "chain s xs \<Longrightarrow> p \<noteq> 0 \<Longrightarrow> p \<notin> set xs \<Longrightarrow> chain (push p s) (p # xs)"
    and pull_chain: "chain s xs \<Longrightarrow> \<exists>s'. pull p s = Some s' \<and> chain s' (remove1 p xs)"
begin

lemma pull_push: "chain s xs \<Longrightarrow> p \<noteq> 0 \<Longrightarrow> p \<notin> set xs \<Longrightarrow> \<exists>s'. pull p (push p s) = Some s' \<and> chain s' xs"
  using pull_chain [OF push_chain, of s xs p p] by simp

lemma pull_absent: "chain s xs \<Longrightarrow> p \<notin> set xs \<Longrightarrow> \<exists>s'. pull p s = Some s' \<and> chain s' xs"
  using pull_chain [of s xs p] by (simp add: remove1_idem)

lemma pull_gone: "chain s xs \<Longrightarrow> pull p s = Some s' \<Longrightarrow> chain s' ys \<Longrightarrow> set ys = set xs - {p}"
proof -
  assume a: "chain s xs" "pull p s = Some s'" "chain s' ys"
  then have "ys = remove1 p xs" using pull_chain [of s xs p] chain_unique [of s'] by auto
  then show "set ys = set xs - {p}" using chain_distinct [OF a(1)] by (simp add: set_remove1_eq)
qed

end

end
