(* ===== verification/Pmm.thy ===== *)
theory Pmm
  imports Mem_Lib
begin

text \<open>
  The physical memory manager, \<^verbatim>\<open>mem/mm/pmm.c\<close>: a bitmap with one bit per 4 KiB frame
  (1 = free), the free-frame counter, and the allocation hint. The static variables are the
  fields of the record \<open>pmm\<close>; the spinlock is not part of it, since every operation runs
  entirely under it. The linker symbol \<open>kernel_end\<close> and the address of the bitmap are
  parameters of \<open>pmm_init\<close>.
\<close>

section \<open>State and operations\<close>

definition PMM_FRAME_SIZE :: u64 where
  [const_defs]: "PMM_FRAME_SIZE = 4096"
definition PMM_MAX_PHYS :: u64 where
  [const_defs]: "PMM_MAX_PHYS = 64 * 1024 * 1024 * 1024"
definition PMM_BITMAP_BYTES :: u64 where
  [const_defs]: "PMM_BITMAP_BYTES = PMM_MAX_PHYS div PMM_FRAME_SIZE div 8"
definition PMM_MAX_FRAMES :: u64 where
  [const_defs]: "PMM_MAX_FRAMES = PMM_BITMAP_BYTES * 8"

record pmm_mmap_entry =
  mm_addr :: u64
  mm_length :: u64
  mm_type :: u32
  mm_reserved :: u32

record pmm =
  bitmap :: "u64 \<Rightarrow> u8"
  free_frames :: u64
  total_frames :: u64
  total_memory_bytes :: u64
  hint :: u64

definition frame_is_free :: "pmm \<Rightarrow> u64 \<Rightarrow> bool" where
  "frame_is_free p idx \<longleftrightarrow>
     drop_bit (unat (idx AND 7)) (bitmap p (drop_bit 3 idx)) AND 1 \<noteq> 0"

definition frame_mark_free :: "pmm \<Rightarrow> u64 \<Rightarrow> pmm" where
  "frame_mark_free p idx =
     p\<lparr>bitmap := (bitmap p)(drop_bit 3 idx :=
         bitmap p (drop_bit 3 idx) OR ucast (push_bit (unat (idx AND 7)) (1 :: u32)))\<rparr>"

definition frame_mark_used :: "pmm \<Rightarrow> u64 \<Rightarrow> pmm" where
  "frame_mark_used p idx =
     p\<lparr>bitmap := (bitmap p)(drop_bit 3 idx :=
         bitmap p (drop_bit 3 idx) AND ucast (NOT (push_bit (unat (idx AND 7)) (1 :: u32))))\<rparr>"

definition frame_index :: "u64 \<Rightarrow> u64" where
  "frame_index phys = drop_bit 12 phys"

definition reserve_frame :: "pmm \<Rightarrow> u64 \<Rightarrow> pmm" where
  "reserve_frame p f =
     frame_mark_used (if frame_is_free p f then p\<lparr>free_frames := free_frames p - 1\<rparr> else p) f"

function reserve_loop :: "pmm \<Rightarrow> u64 \<Rightarrow> u64 \<Rightarrow> pmm" where
  "reserve_loop p f f1 = (if f < f1 then reserve_loop (reserve_frame p f) (f + 1) f1 else p)"
  by pat_completeness auto
termination
  by (relation "measure (\<lambda>(p, f, f1). unat f1 - unat f)") auto

declare reserve_loop.simps [simp del]

definition reserve_range :: "pmm \<Rightarrow> u64 \<Rightarrow> u64 \<Rightarrow> pmm" where
  "reserve_range p start end' =
     (if end' \<le> start then p
      else let f0 = drop_bit 12 start; f1 = drop_bit 12 (end' + PMM_FRAME_SIZE - 1)
        in if f0 \<ge> PMM_MAX_FRAMES then p
           else reserve_loop p f0 (if f1 > PMM_MAX_FRAMES then PMM_MAX_FRAMES else f1))"

definition usable_frame :: "pmm \<Rightarrow> u64 \<Rightarrow> pmm" where
  "usable_frame p f =
     (if f < PMM_MAX_FRAMES \<and> \<not> frame_is_free p f
      then (frame_mark_free p f)\<lparr>free_frames := free_frames p + 1\<rparr> else p)"

function usable_loop :: "pmm \<Rightarrow> u64 \<Rightarrow> u64 \<Rightarrow> pmm" where
  "usable_loop p f f1 = (if f < f1 then usable_loop (usable_frame p f) (f + 1) f1 else p)"
  by pat_completeness auto
termination
  by (relation "measure (\<lambda>(p, f, f1). unat f1 - unat f)") auto

declare usable_loop.simps [simp del]

text \<open>One turn of the first loop of \<open>pmm_init\<close>, and one turn of the second.\<close>

definition pmm_init_usable :: "pmm \<Rightarrow> pmm_mmap_entry \<Rightarrow> pmm" where
  "pmm_init_usable p e =
     (let start = mm_addr e; end' = start + mm_length e
      in if start \<ge> PMM_MAX_PHYS then p
         else let end' = (if end' > PMM_MAX_PHYS then PMM_MAX_PHYS else end')
           in if mm_type e = 1
              then let p' = usable_loop p (drop_bit 12 start)
                              (drop_bit 12 (end' + PMM_FRAME_SIZE - 1))
                   in p'\<lparr>total_memory_bytes := total_memory_bytes p' + (end' - start)\<rparr>
              else p)"

definition pmm_init_reserved :: "pmm \<Rightarrow> pmm_mmap_entry \<Rightarrow> pmm" where
  "pmm_init_reserved p e =
     (if mm_type e \<noteq> 1 then reserve_range p (mm_addr e) (mm_addr e + mm_length e) else p)"

record bootinfo =
  memory_map :: "pmm_mmap_entry list"
  framebuffer :: u64
  framebuffer_pitch :: u32
  framebuffer_height :: u32

definition pmm_bss :: pmm where
  "pmm_bss = \<lparr>bitmap = (\<lambda>_. 0), free_frames = 0, total_frames = 0,
              total_memory_bytes = 0, hint = 0\<rparr>"

definition pmm_init :: "bootinfo \<Rightarrow> u64 \<Rightarrow> u64 \<Rightarrow> pmm \<Rightarrow> pmm" where
  "pmm_init bi kernel_end bitmap_addr p0 =
     (let p = p0\<lparr>free_frames := 0, total_frames := 0, total_memory_bytes := 0\<rparr>;
          p = foldl pmm_init_usable p (memory_map bi);
          p = reserve_range p 0 kernel_end;
          p = reserve_range p bitmap_addr (bitmap_addr + PMM_BITMAP_BYTES);
          p = foldl pmm_init_reserved p (memory_map bi);
          p = (if framebuffer bi \<noteq> 0
               then reserve_range p (framebuffer bi)
                      (framebuffer bi + ucast (framebuffer_pitch bi) * ucast (framebuffer_height bi))
               else p)
      in p\<lparr>total_frames :=
             (if memory_map bi \<noteq> [] \<and> total_memory_bytes p \<noteq> 0
              then total_memory_bytes p div PMM_FRAME_SIZE else 0)\<rparr>)"

text \<open>The scan \<open>for (f = from; f < lim; f++) if (frame_is_free(f))\<close>.\<close>

function pmm_scan :: "pmm \<Rightarrow> u64 \<Rightarrow> u64 \<Rightarrow> u64 option" where
  "pmm_scan p f lim =
     (if f < lim then if frame_is_free p f then Some f else pmm_scan p (f + 1) lim else None)"
  by pat_completeness auto
termination
  by (relation "measure (\<lambda>(p, f, lim). unat lim - unat f)") auto

declare pmm_scan.simps [simp del]

definition pmm_take :: "pmm \<Rightarrow> u64 \<Rightarrow> u64 \<times> pmm" where
  "pmm_take p f =
     (push_bit 12 f, (frame_mark_used p f)\<lparr>free_frames := free_frames p - 1, hint := f + 1\<rparr>)"

definition pmm_alloc_frame :: "pmm \<Rightarrow> u64 \<times> pmm" where
  "pmm_alloc_frame p =
     (case pmm_scan p (hint p) PMM_MAX_FRAMES of
        Some f \<Rightarrow> pmm_take p f
      | None \<Rightarrow> (case pmm_scan p 0 (hint p) of Some f \<Rightarrow> pmm_take p f | None \<Rightarrow> (0, p)))"

text \<open>
  The search loop of \<open>pmm_alloc_contig\<close> with its variables \<open>f\<close>, \<open>run\<close> and \<open>start\<close>; its result
  is the start of the first run of \<open>count\<close> free frames.
\<close>

function contig_scan :: "pmm \<Rightarrow> u64 \<Rightarrow> u64 \<Rightarrow> u64 \<Rightarrow> u64 \<Rightarrow> u64 option" where
  "contig_scan p count f run start =
     (if f < PMM_MAX_FRAMES then
        if frame_is_free p f then
          let start = (if run = 0 then f else start); run = run + 1
          in if run = count then Some start else contig_scan p count (f + 1) run start
        else contig_scan p count (f + 1) 0 start
      else None)"
  by pat_completeness auto
termination
  by (relation "measure (\<lambda>(p, count, f, run, start). unat PMM_MAX_FRAMES - unat f)")
    auto

declare contig_scan.simps [simp del]

fun contig_mark :: "pmm \<Rightarrow> u64 \<Rightarrow> nat \<Rightarrow> pmm" where
  "contig_mark p f 0 = p"
| "contig_mark p f (Suc n) =
     contig_mark ((frame_mark_used p f)\<lparr>free_frames := free_frames p - 1\<rparr>) (f + 1) n"

definition pmm_alloc_contig :: "pmm \<Rightarrow> u64 \<Rightarrow> u64 \<times> pmm" where
  "pmm_alloc_contig p count =
     (if count = 0 then (0, p)
      else case contig_scan p count 0 0 0 of
             Some start \<Rightarrow> (push_bit 12 start, contig_mark p start (unat count))
           | None \<Rightarrow> (0, p))"

definition pmm_free_frame :: "pmm \<Rightarrow> u64 \<Rightarrow> pmm" where
  "pmm_free_frame p phys =
     (let f = frame_index phys
      in if f < PMM_MAX_FRAMES \<and> \<not> frame_is_free p f
         then (frame_mark_free p f)\<lparr>free_frames := free_frames p + 1\<rparr> else p)"

fun free_range_loop :: "pmm \<Rightarrow> u64 \<Rightarrow> nat \<Rightarrow> nat \<Rightarrow> pmm" where
  "free_range_loop p phys i 0 = p"
| "free_range_loop p phys i (Suc n) =
     free_range_loop (pmm_free_frame p (phys + of_nat i * PMM_FRAME_SIZE)) phys (Suc i) n"

definition pmm_free_range :: "pmm \<Rightarrow> u64 \<Rightarrow> u64 \<Rightarrow> pmm" where
  "pmm_free_range p phys count = free_range_loop p phys 0 (unat count)"

definition pmm_zero_page :: "mem \<Rightarrow> u64 \<Rightarrow> mem" where
  "pmm_zero_page m phys = (if phys \<noteq> 0 then k_memset m phys 0 PMM_FRAME_SIZE else m)"

section \<open>The bitmap as a set of free frames\<close>

definition pmm_free_set :: "pmm \<Rightarrow> u64 set" where
  "pmm_free_set p = {f. f < PMM_MAX_FRAMES \<and> frame_is_free p f}"

text \<open>The counter agrees with the bitmap, and the hint stays inside it.\<close>

definition pmm_ok :: "pmm \<Rightarrow> bool" where
  "pmm_ok p \<longleftrightarrow> unat (free_frames p) = card (pmm_free_set p) \<and> hint p \<le> PMM_MAX_FRAMES"

lemma PMM_MAX_FRAMES_num: "PMM_MAX_FRAMES = 16777216"
  by (simp add: const_defs)

lemma frame_is_free_bit:
  "frame_is_free p i \<longleftrightarrow> bit (bitmap p (drop_bit 3 i)) (unat (i AND 7))"
  by (simp add: frame_is_free_def bit_iff_odd_drop_bit and_one_eq odd_iff_mod_2_eq_one)

lemma unat_and_7: "unat (i AND 7) < 8" for i :: u64
proof -
  have "i AND 7 \<le> 7" by (rule word_and_le1)
  then show ?thesis by (simp add: word_le_nat_alt)
qed

lemma frame_split_eq: "drop_bit 3 i = drop_bit 3 j \<Longrightarrow> i AND 7 = j AND 7 \<Longrightarrow> i = j"
  for i j :: u64
proof -
  assume a: "drop_bit 3 i = drop_bit 3 j" and b: "i AND 7 = j AND 7"
  have m: "x AND 7 = take_bit 3 x" for x :: u64
    by (simp add: take_bit_eq_mask mask_eq_exp_minus_1)
  have "push_bit 3 (drop_bit 3 i) + take_bit 3 i = push_bit 3 (drop_bit 3 j) + take_bit 3 j"
    using a b by (simp add: m)
  then show ?thesis by (simp add: bits_ident)
qed

lemma frame_eq_iff:
  "j = i \<longleftrightarrow> drop_bit 3 j = drop_bit 3 i \<and> unat (j AND 7) = unat (i AND 7)" for i j :: u64
  using frame_split_eq [of j i] by (auto dest: word_unat_eq_iff [THEN iffD2])

lemma bit_one_u32 [simp]: "n < 8 \<Longrightarrow> bit (ucast (2 ^ n :: u32) :: u8) k \<longleftrightarrow> k = n"
  by (auto simp: bit_simps)

lemma bit_not_one_u32 [simp]: "n < 8 \<Longrightarrow> k < 8 \<Longrightarrow>
   bit (ucast (NOT (2 ^ n :: u32)) :: u8) k \<longleftrightarrow> k \<noteq> n"
  by (auto simp: bit_simps)

lemma frame_is_free_mark_free [simp]:
  "frame_is_free (frame_mark_free p i) j \<longleftrightarrow> j = i \<or> frame_is_free p j"
  using unat_and_7 [of i]
  by (simp add: frame_is_free_bit frame_mark_free_def bit_or_iff frame_eq_iff [of j i]) metis

lemma frame_is_free_mark_used [simp]:
  "frame_is_free (frame_mark_used p i) j \<longleftrightarrow> j \<noteq> i \<and> frame_is_free p j"
  using unat_and_7 [of i] unat_and_7 [of j]
  by (simp add: frame_is_free_bit frame_mark_used_def bit_and_iff frame_eq_iff [of j i]) metis

lemma mark_fields [simp]:
  "free_frames (frame_mark_free p i) = free_frames p" "hint (frame_mark_free p i) = hint p"
  "free_frames (frame_mark_used p i) = free_frames p" "hint (frame_mark_used p i) = hint p"
  "total_memory_bytes (frame_mark_free p i) = total_memory_bytes p"
  "total_memory_bytes (frame_mark_used p i) = total_memory_bytes p"
  by (simp_all add: frame_mark_free_def frame_mark_used_def)

lemma frame_is_free_cong [simp]:
  "frame_is_free (p\<lparr>free_frames := a\<rparr>) f = frame_is_free p f"
  "frame_is_free (p\<lparr>hint := a\<rparr>) f = frame_is_free p f"
  "frame_is_free (p\<lparr>total_memory_bytes := a\<rparr>) f = frame_is_free p f"
  "frame_is_free (p\<lparr>total_frames := a\<rparr>) f = frame_is_free p f"
  by (simp_all add: frame_is_free_def)

lemma pmm_free_set_cong [simp]:
  "pmm_free_set (p\<lparr>free_frames := a\<rparr>) = pmm_free_set p"
  "pmm_free_set (p\<lparr>hint := a\<rparr>) = pmm_free_set p"
  "pmm_free_set (p\<lparr>total_memory_bytes := a\<rparr>) = pmm_free_set p"
  "pmm_free_set (p\<lparr>total_frames := a\<rparr>) = pmm_free_set p"
  by (simp_all add: pmm_free_set_def)

lemma pmm_free_set_used [simp]: "pmm_free_set (frame_mark_used p i) = pmm_free_set p - {i}"
  by (auto simp: pmm_free_set_def)

lemma pmm_free_set_free [simp]:
  "i < PMM_MAX_FRAMES \<Longrightarrow> pmm_free_set (frame_mark_free p i) = insert i (pmm_free_set p)"
  by (auto simp: pmm_free_set_def)

lemma finite_pmm_free_set [simp]: "finite (pmm_free_set p)"
  by (rule finite_subset [OF subset_UNIV]) simp

lemma card_pmm_free_set: "card (pmm_free_set p) \<le> unat PMM_MAX_FRAMES"
proof -
  have "pmm_free_set p \<subseteq> {..<PMM_MAX_FRAMES}" by (auto simp: pmm_free_set_def)
  then have "card (pmm_free_set p) \<le> card {..<PMM_MAX_FRAMES}" by (rule card_mono [rotated]) simp
  also have "card {..<PMM_MAX_FRAMES} = card (unat ` {..<PMM_MAX_FRAMES})"
    by (rule card_image [symmetric]) (simp add: inj_on_def word_unat_eq_iff)
  also have "\<dots> \<le> card {..<unat PMM_MAX_FRAMES}"
    by (rule card_mono) (auto simp: word_less_nat_alt)
  finally show ?thesis by simp
qed


text \<open>The counter agrees with the bitmap.\<close>

definition pmm_count :: "pmm \<Rightarrow> bool" where
  "pmm_count p \<longleftrightarrow> unat (free_frames p) = card (pmm_free_set p)"

lemma pmm_ok_iff: "pmm_ok p \<longleftrightarrow> pmm_count p \<and> hint p \<le> PMM_MAX_FRAMES"
  by (simp add: pmm_ok_def pmm_count_def)

lemma pmm_count_cong [simp]:
  "pmm_count (p\<lparr>hint := a\<rparr>) = pmm_count p"
  "pmm_count (p\<lparr>total_memory_bytes := a\<rparr>) = pmm_count p"
  "pmm_count (p\<lparr>total_frames := a\<rparr>) = pmm_count p"
  by (simp_all add: pmm_count_def)

lemma pmm_count_used:
  assumes "pmm_count p" "f \<in> pmm_free_set p"
  shows "pmm_count ((frame_mark_used p f)\<lparr>free_frames := free_frames p - 1\<rparr>)"
proof -
  have pos: "card (pmm_free_set p) \<noteq> 0" using assms(2) by auto
  then have "1 \<le> free_frames p"
    using assms(1) by (simp add: pmm_count_def word_le_nat_alt Suc_le_eq card_gt_0_iff)
  then have "unat (free_frames p - 1) = unat (free_frames p) - 1"
    by (simp add: unat_sub)
  then show ?thesis using assms by (simp add: pmm_count_def)
qed

lemma pmm_count_freed:
  assumes "pmm_count p" "f < PMM_MAX_FRAMES" "\<not> frame_is_free p f"
  shows "pmm_count ((frame_mark_free p f)\<lparr>free_frames := free_frames p + 1\<rparr>)"
proof -
  have new: "f \<notin> pmm_free_set p" using assms(3) by (simp add: pmm_free_set_def)
  have "unat (free_frames p) \<le> unat PMM_MAX_FRAMES"
    using card_pmm_free_set [of p] assms(1) by (simp add: pmm_count_def)
  then have "free_frames p < PMM_MAX_FRAMES + 1"
    by (simp add: PMM_MAX_FRAMES_num word_less_nat_alt)
  then have "unat (free_frames p + 1) = Suc (unat (free_frames p))" by (rule unat_inc)
  then show ?thesis using assms(1,2) new by (simp add: pmm_count_def)
qed

lemma reserve_frame_set [simp]: "pmm_free_set (reserve_frame p f) = pmm_free_set p - {f}"
  by (simp add: reserve_frame_def)

lemma reserve_frame_hint [simp]: "hint (reserve_frame p f) = hint p"
  by (simp add: reserve_frame_def)

lemma reserve_frame_count:
  assumes "pmm_count p" "f < PMM_MAX_FRAMES"
  shows "pmm_count (reserve_frame p f)"
proof (cases "frame_is_free p f")
  case True
  then have "pmm_count ((frame_mark_used p f)\<lparr>free_frames := free_frames p - 1\<rparr>)"
    using assms by (intro pmm_count_used) (auto simp: pmm_free_set_def)
  with True show ?thesis by (simp add: reserve_frame_def pmm_count_def)
next
  case False
  then have "pmm_free_set p - {f} = pmm_free_set p" by (auto simp: pmm_free_set_def)
  with False assms show ?thesis by (simp add: reserve_frame_def pmm_count_def)
qed

lemma reserve_loop_set: "pmm_free_set (reserve_loop p f f1) = pmm_free_set p - {f..<f1}"
proof (induction p f f1 rule: reserve_loop.induct)
  case (1 p f f1)
  show ?case
  proof (cases "f < f1")
    case True
    then have "{f..<f1} = insert f {f + 1..<f1}"
      using word_loop_split [OF True] by (auto simp: word_less_def)
    with True 1 show ?thesis by (subst reserve_loop.simps) auto
  next
    case False
    then show ?thesis by (subst reserve_loop.simps) simp
  qed
qed

lemma reserve_loop_hint [simp]: "hint (reserve_loop p f f1) = hint p"
  by (induction p f f1 rule: reserve_loop.induct) (subst reserve_loop.simps, simp)

lemma reserve_loop_count:
  "pmm_count p \<Longrightarrow> f1 \<le> PMM_MAX_FRAMES \<Longrightarrow> pmm_count (reserve_loop p f f1)"
proof (induction p f f1 rule: reserve_loop.induct)
  case (1 p f f1)
  show ?case
  proof (cases "f < f1")
    case True
    then have "pmm_count (reserve_frame p f)"
      using 1 by (intro reserve_frame_count) auto
    with True 1 show ?thesis by (subst reserve_loop.simps) simp
  next
    case False
    with 1 show ?thesis by (subst reserve_loop.simps) simp
  qed
qed

text \<open>The frames touched by the byte range \<open>[start, end')\<close>, rounded outwards.\<close>

definition range_frames :: "u64 \<Rightarrow> u64 \<Rightarrow> u64 set" where
  "range_frames start end' =
     (if end' \<le> start then {} else {drop_bit 12 start ..< drop_bit 12 (end' + PMM_FRAME_SIZE - 1)})"

lemma pmm_free_set_bound: "f \<in> pmm_free_set p \<Longrightarrow> f < PMM_MAX_FRAMES"
  by (simp add: pmm_free_set_def)

lemma reserve_range_set: "pmm_free_set (reserve_range p s e) = pmm_free_set p - range_frames s e"
  using pmm_free_set_bound [of _ p]
  by (force simp: reserve_range_def range_frames_def reserve_loop_set Let_def)

lemma reserve_range_hint [simp]: "hint (reserve_range p s e) = hint p"
  by (simp add: reserve_range_def Let_def)

lemma reserve_range_count: "pmm_count p \<Longrightarrow> pmm_count (reserve_range p s e)"
  by (simp add: reserve_range_def Let_def reserve_loop_count)


lemma usable_frame_set:
  "pmm_free_set (usable_frame p f) = pmm_free_set p \<union> ({f} \<inter> {..<PMM_MAX_FRAMES})"
  by (auto simp: usable_frame_def) (auto simp: pmm_free_set_def)

lemma usable_frame_hint [simp]: "hint (usable_frame p f) = hint p"
  by (simp add: usable_frame_def)

lemma usable_frame_count: "pmm_count p \<Longrightarrow> pmm_count (usable_frame p f)"
  by (simp add: usable_frame_def pmm_count_freed)

lemma usable_loop_set:
  "pmm_free_set (usable_loop p f f1) = pmm_free_set p \<union> ({f..<f1} \<inter> {..<PMM_MAX_FRAMES})"
proof (induction p f f1 rule: usable_loop.induct)
  case (1 p f f1)
  show ?case
  proof (cases "f < f1")
    case True
    then have "{f..<f1} = insert f {f + 1..<f1}"
      using word_loop_split [OF True] by (auto simp: word_less_def)
    with True 1 show ?thesis by (subst usable_loop.simps) (auto simp: usable_frame_set)
  next
    case False
    then show ?thesis by (subst usable_loop.simps) simp
  qed
qed

lemma usable_loop_hint [simp]: "hint (usable_loop p f f1) = hint p"
  by (induction p f f1 rule: usable_loop.induct) (subst usable_loop.simps, simp)

lemma usable_loop_count: "pmm_count p \<Longrightarrow> pmm_count (usable_loop p f f1)"
proof (induction p f f1 rule: usable_loop.induct)
  case (1 p f f1)
  then show ?case
    by (subst usable_loop.simps) (simp add: usable_frame_count)
qed

text \<open>The frames an entry of the memory map makes available.\<close>

definition entry_frames :: "pmm_mmap_entry \<Rightarrow> u64 set" where
  "entry_frames e =
     (let start = mm_addr e; end' = min (start + mm_length e) PMM_MAX_PHYS
      in if mm_type e = 1 \<and> start < PMM_MAX_PHYS
         then {drop_bit 12 start ..< drop_bit 12 (end' + PMM_FRAME_SIZE - 1)} \<inter> {..<PMM_MAX_FRAMES}
         else {})"

lemma pmm_init_usable_set:
  "pmm_free_set (pmm_init_usable p e) = pmm_free_set p \<union> entry_frames e"
  by (auto simp: pmm_init_usable_def entry_frames_def usable_loop_set Let_def min_def not_le)

lemma pmm_init_usable_ok:
  "pmm_count p \<Longrightarrow> pmm_count (pmm_init_usable p e)" "hint (pmm_init_usable p e) = hint p"
  by (simp_all add: pmm_init_usable_def Let_def usable_loop_count)

lemma foldl_usable:
  "pmm_free_set (foldl pmm_init_usable p es) = pmm_free_set p \<union> (\<Union>e \<in> set es. entry_frames e)"
  "pmm_count p \<Longrightarrow> pmm_count (foldl pmm_init_usable p es)"
  "hint (foldl pmm_init_usable p es) = hint p"
  by (induction es arbitrary: p) (auto simp: pmm_init_usable_set pmm_init_usable_ok)

definition reserved_frames :: "pmm_mmap_entry \<Rightarrow> u64 set" where
  "reserved_frames e =
     (if mm_type e \<noteq> 1 then range_frames (mm_addr e) (mm_addr e + mm_length e) else {})"

lemma foldl_reserved:
  "pmm_free_set (foldl pmm_init_reserved p es) = pmm_free_set p - (\<Union>e \<in> set es. reserved_frames e)"
  "pmm_count p \<Longrightarrow> pmm_count (foldl pmm_init_reserved p es)"
  "hint (foldl pmm_init_reserved p es) = hint p"
  by (induction es arbitrary: p)
    (auto simp: pmm_init_reserved_def reserved_frames_def reserve_range_set reserve_range_count)

definition fb_frames :: "bootinfo \<Rightarrow> u64 set" where
  "fb_frames bi =
     (if framebuffer bi \<noteq> 0
      then range_frames (framebuffer bi)
             (framebuffer bi + ucast (framebuffer_pitch bi) * ucast (framebuffer_height bi))
      else {})"

lemma pmm_bss_set [simp]: "pmm_free_set pmm_bss = {}"
  by (simp add: pmm_free_set_def frame_is_free_def pmm_bss_def)

text \<open>C1\<close>

lemma pmm_init_frames:
  "pmm_ok (pmm_init bi kernel_end bitmap_addr pmm_bss) \<and>
   pmm_free_set (pmm_init bi kernel_end bitmap_addr pmm_bss) =
     (\<Union>e \<in> set (memory_map bi). entry_frames e)
     - range_frames 0 kernel_end
     - range_frames bitmap_addr (bitmap_addr + PMM_BITMAP_BYTES)
     - (\<Union>e \<in> set (memory_map bi). reserved_frames e)
     - fb_frames bi"
proof -
  let ?b = "pmm_bss\<lparr>free_frames := 0, total_frames := 0, total_memory_bytes := 0\<rparr>"
  have "pmm_count ?b" by (simp add: pmm_count_def)
  moreover have "hint ?b = 0" by (simp add: pmm_bss_def)
  ultimately show ?thesis
    by (simp add: pmm_init_def Let_def pmm_ok_iff reserve_range_set reserve_range_count
        foldl_usable foldl_reserved fb_frames_def)
qed

text \<open>
  C14: after \<open>pmm_init\<close> exactly the frames that some type-1 memory-map entry covers are free,
  minus the memory below \<open>kernel_end\<close>, the bitmap itself, every entry of another type and the
  framebuffer; and the free counter equals the number of free frames.
\<close>

theorem pmm_init_free_set:
  "pmm_ok (pmm_init bi kernel_end bitmap_addr pmm_bss) \<and>
   pmm_free_set (pmm_init bi kernel_end bitmap_addr pmm_bss) =
     (\<Union>e \<in> set (memory_map bi). entry_frames e)
     - range_frames 0 kernel_end
     - range_frames bitmap_addr (bitmap_addr + PMM_BITMAP_BYTES)
     - (\<Union>e \<in> set (memory_map bi). reserved_frames e)
     - fb_frames bi"
  by (rule pmm_init_frames)


lemma pmm_scan_Some:
  "pmm_scan p f lim = Some x \<Longrightarrow> f \<le> x \<and> x < lim \<and> frame_is_free p x"
proof (induction p f lim rule: pmm_scan.induct)
  case (1 p f lim)
  then show ?case
    using word_loop_split [of f lim]
    by (subst (asm) (2) pmm_scan.simps) (auto split: if_splits)
qed

lemma pmm_scan_None:
  "pmm_scan p f lim = None \<Longrightarrow> f \<le> x \<Longrightarrow> x < lim \<Longrightarrow> \<not> frame_is_free p x"
proof (induction p f lim rule: pmm_scan.induct)
  case (1 p f lim)
  then have "f < lim" by simp
  with 1 show ?case
    using word_loop_split [of f lim x]
    by (subst (asm) (2) pmm_scan.simps) (auto split: if_splits)
qed

lemma pmm_take_spec:
  assumes "pmm_ok p" "f \<in> pmm_free_set p"
  shows "pmm_ok (snd (pmm_take p f))" "pmm_free_set (snd (pmm_take p f)) = pmm_free_set p - {f}"
proof -
  have "pmm_count ((frame_mark_used p f)\<lparr>free_frames := free_frames p - 1\<rparr>)"
    using assms by (intro pmm_count_used) (simp_all add: pmm_ok_iff)
  moreover have "f + 1 \<le> PMM_MAX_FRAMES"
    using assms(2) unat_inc [of f PMM_MAX_FRAMES]
    by (auto simp: pmm_free_set_def word_le_nat_alt word_less_nat_alt)
  ultimately show "pmm_ok (snd (pmm_take p f))" by (simp add: pmm_take_def pmm_ok_iff pmm_count_def)
qed (simp add: pmm_take_def)

lemma pmm_alloc_frame_cases:
  assumes "pmm_ok p"
  shows "(\<exists>f \<in> pmm_free_set p. pmm_alloc_frame p = pmm_take p f) \<or>
         (pmm_free_set p = {} \<and> pmm_alloc_frame p = (0, p))"
proof (cases "pmm_scan p (hint p) PMM_MAX_FRAMES")
  case (Some f)
  then show ?thesis
    using pmm_scan_Some [OF Some] by (auto simp: pmm_alloc_frame_def pmm_free_set_def)
next
  case None
  note n1 = None
  show ?thesis
  proof (cases "pmm_scan p 0 (hint p)")
    case (Some f)
    then have "f \<in> pmm_free_set p"
      using pmm_scan_Some [OF Some] assms by (auto simp: pmm_free_set_def pmm_ok_def)
    with Some n1 show ?thesis by (auto simp: pmm_alloc_frame_def)
  next
    case None
    have "\<not> frame_is_free p x" if "x < PMM_MAX_FRAMES" for x
      using pmm_scan_None [OF n1, of x] pmm_scan_None [OF None, of x] that
      by (cases "hint p \<le> x") auto
    then show ?thesis using n1 None by (auto simp: pmm_alloc_frame_def pmm_free_set_def)
  qed
qed


lemma drop_push_12: "f < PMM_MAX_FRAMES \<Longrightarrow> drop_bit 12 (push_bit 12 f) = f"
proof -
  assume "f < PMM_MAX_FRAMES"
  then have "unat f < 2 ^ 52" by (simp add: PMM_MAX_FRAMES_num word_less_nat_alt)
  then have "take_bit 52 f = f"
    by (simp add: word_unat_eq_iff unsigned_take_bit_eq take_bit_nat_eq_self)
  moreover have "drop_bit 12 (push_bit 12 f) = take_bit 52 f"
    by (rule bit_word_eqI) (auto simp: bit_simps)
  ultimately show ?thesis by simp
qed

lemma take_bit_push_12: "take_bit 12 (push_bit 12 f) = 0" for f :: u64
  by (rule bit_word_eqI) (auto simp: bit_simps)

lemma push_bit_12_eq_0: "f < PMM_MAX_FRAMES \<Longrightarrow> push_bit 12 f = 0 \<longleftrightarrow> f = 0"
  using drop_push_12 by fastforce

lemma contig_scan_Some:
  assumes "contig_scan p count f run start = Some s" "run < count"
    and "unat run \<le> unat f" "run \<noteq> 0 \<Longrightarrow> unat start + unat run = unat f"
    and "\<And>x. unat f \<le> unat x + unat run \<Longrightarrow> x < f \<Longrightarrow> frame_is_free p x"
  shows "unat s + unat count \<le> unat PMM_MAX_FRAMES \<and>
    (\<forall>x. s \<le> x \<and> unat x < unat s + unat count \<longrightarrow> frame_is_free p x)"
  using assms
proof (induction p count f run start rule: contig_scan.induct)
  case (1 p count f run start)
  have lt: "f < PMM_MAX_FRAMES"
    using 1(3) by (subst (asm) contig_scan.simps) (auto split: if_splits)
  have f1: "unat (f + 1) = Suc (unat f)" using lt by (rule unat_inc)
  have r1: "unat (run + 1) = Suc (unat run)" using 1(4) by (rule unat_inc)
  let ?start = "if run = 0 then f else start"
  have st: "unat ?start + unat run = unat f" using 1(6) by auto
  show ?case
  proof (cases "frame_is_free p f")
    case True
    have free: "frame_is_free p x" if "unat (f + 1) \<le> unat x + unat (run + 1)" "x < f + 1" for x
    proof (cases "x = f")
      case False
      then have "x < f" using that(2) f1 by (auto simp: word_less_nat_alt word_unat_eq_iff)
      then show ?thesis using 1(7) that(1) f1 r1 by simp
    qed (use True in simp)
    show ?thesis
    proof (cases "run + 1 = count")
      case True': True
      then have s: "s = ?start" using 1(3) True lt
        by (subst (asm) contig_scan.simps) (auto simp: Let_def)
      have c: "unat count = Suc (unat run)" using True' r1 by simp
      have "frame_is_free p x" if "s \<le> x" "unat x < unat s + unat count" for x
        using that s st c f1 r1 by (intro free) (auto simp: word_le_nat_alt word_less_nat_alt)
      then show ?thesis using s st c lt by (auto simp: word_less_nat_alt)
    next
      case False
      then have "contig_scan p count (f + 1) (run + 1) ?start = Some s"
        using 1(3) True lt by (subst (asm) contig_scan.simps) (auto simp: Let_def)
      moreover have "run + 1 < count"
        using 1(4) False r1 by (auto simp: word_less_nat_alt word_unat_eq_iff)
      ultimately show ?thesis
        using 1(1) [OF lt True refl refl False] 1(5) st f1 r1 free by auto
    qed
  next
    case False
    then have "contig_scan p count (f + 1) 0 start = Some s"
      using 1(3) lt by (subst (asm) contig_scan.simps) auto
    moreover have "0 < count" using 1(4) by (auto simp: word_less_nat_alt)
    ultimately show ?thesis
      using 1(2) [OF lt False] by (auto simp: word_less_nat_alt)
  qed
qed

lemma contig_scan_None:
  assumes "contig_scan p count f run start = None" "run < count"
    and "unat run \<le> unat f" "unat f \<le> unat PMM_MAX_FRAMES"
    and "unat f \<le> unat s + unat run" "unat s + unat count \<le> unat PMM_MAX_FRAMES"
  shows "\<exists>x. s \<le> x \<and> unat x < unat s + unat count \<and> \<not> frame_is_free p x"
  using assms
proof (induction p count f run start rule: contig_scan.induct)
  case (1 p count f run start)
  have lt: "f < PMM_MAX_FRAMES"
    using 1(4,6,7,8) by (auto simp: word_less_nat_alt)
  have f1: "unat (f + 1) = Suc (unat f)" using lt by (rule unat_inc)
  have r1: "unat (run + 1) = Suc (unat run)" using 1(4) by (rule unat_inc)
  have le: "unat (f + 1) \<le> unat PMM_MAX_FRAMES" using lt f1 by (simp add: word_less_nat_alt)
  show ?case
  proof (cases "frame_is_free p f")
    case True
    have ne: "run + 1 \<noteq> count"
      using 1(3) True lt by (subst (asm) contig_scan.simps) (auto simp: Let_def)
    then have "run + 1 < count"
      using 1(4) r1 by (auto simp: word_less_nat_alt word_unat_eq_iff)
    moreover have "contig_scan p count (f + 1) (run + 1) (if run = 0 then f else start) = None"
      using 1(3) True lt ne by (subst (asm) contig_scan.simps) (auto simp: Let_def)
    ultimately show ?thesis
      using 1(1) [OF lt True refl refl ne] 1(5,7,8) f1 r1 le by auto
  next
    case False
    then have "contig_scan p count (f + 1) 0 start = None"
      using 1(3) lt by (subst (asm) contig_scan.simps) auto
    then show ?thesis
      using 1(2) [OF lt False] 1(4,7,8) f1 le False
      by (cases "s \<le> f") (auto simp: word_less_nat_alt word_le_nat_alt)
  qed
qed


lemma contig_mark_hint [simp]: "hint (contig_mark p f n) = hint p"
  by (induction n arbitrary: p f) auto

lemma contig_mark_spec:
  assumes "pmm_count p" "unat f + n \<le> unat PMM_MAX_FRAMES"
    and "\<And>x. f \<le> x \<Longrightarrow> unat x < unat f + n \<Longrightarrow> frame_is_free p x"
  shows "pmm_count (contig_mark p f n) \<and>
    pmm_free_set (contig_mark p f n) = pmm_free_set p - {x. f \<le> x \<and> unat x < unat f + n}"
  using assms
proof (induction n arbitrary: p f)
  case 0
  then show ?case by (auto simp: word_le_nat_alt)
next
  case (Suc n)
  let ?p = "(frame_mark_used p f)\<lparr>free_frames := free_frames p - 1\<rparr>"
  have lt: "f < PMM_MAX_FRAMES" using Suc.prems(2) by (simp add: word_less_nat_alt)
  have f1: "unat (f + 1) = Suc (unat f)" using lt by (rule unat_inc)
  have split: "f \<le> x \<longleftrightarrow> x = f \<or> f + 1 \<le> x" for x using lt by (rule word_loop_split)
  have "f \<in> pmm_free_set p" using Suc.prems(3) [of f] lt by (simp add: pmm_free_set_def)
  then have "pmm_count ?p" by (rule pmm_count_used [OF Suc.prems(1)])
  moreover have "frame_is_free ?p x" if "f + 1 \<le> x" "unat x < unat (f + 1) + n" for x
    using Suc.prems(3) [of x] that f1 split [of x] by (auto simp: word_le_nat_alt)
  ultimately have "pmm_count (contig_mark ?p (f + 1) n) \<and>
      pmm_free_set (contig_mark ?p (f + 1) n) =
        pmm_free_set ?p - {x. f + 1 \<le> x \<and> unat x < unat (f + 1) + n}"
    using Suc.prems(2) f1 by (intro Suc.IH) auto
  then show ?case using f1 split by auto
qed

lemma pmm_alloc_contig_spec:
  assumes "pmm_ok p" "0 \<notin> pmm_free_set p" "count \<noteq> 0"
  shows "pmm_ok (snd (pmm_alloc_contig p count)) \<and>
    (if \<exists>s. unat s + unat count \<le> unat PMM_MAX_FRAMES \<and>
             {x. s \<le> x \<and> unat x < unat s + unat count} \<subseteq> pmm_free_set p
     then \<exists>s. fst (pmm_alloc_contig p count) = push_bit 12 s \<and> s \<noteq> 0 \<and>
             unat s + unat count \<le> unat PMM_MAX_FRAMES \<and>
             {x. s \<le> x \<and> unat x < unat s + unat count} \<subseteq> pmm_free_set p \<and>
             pmm_free_set (snd (pmm_alloc_contig p count)) =
               pmm_free_set p - {x. s \<le> x \<and> unat x < unat s + unat count}
     else pmm_alloc_contig p count = (0, p))"
proof (cases "contig_scan p count 0 0 0")
  case (Some s)
  have c: "0 < count" using assms(3) by (simp add: word_neq_0_conv)
  have r: "unat s + unat count \<le> unat PMM_MAX_FRAMES"
    "\<And>x. s \<le> x \<Longrightarrow> unat x < unat s + unat count \<Longrightarrow> frame_is_free p x"
    using contig_scan_Some [OF Some c] by auto
  then have sub: "{x. s \<le> x \<and> unat x < unat s + unat count} \<subseteq> pmm_free_set p"
    by (auto simp: pmm_free_set_def word_less_nat_alt)
  moreover have "s \<in> {x. s \<le> x \<and> unat x < unat s + unat count}"
    using c by (simp add: word_less_nat_alt)
  ultimately have "s \<noteq> 0" using assms(2) by auto
  then show ?thesis
    using Some assms r sub contig_mark_spec [of p s "unat count"]
    by (auto simp: pmm_alloc_contig_def pmm_ok_iff)
next
  case None
  have c: "0 < count" using assms(3) by (simp add: word_neq_0_conv)
  have "\<not> {x. s \<le> x \<and> unat x < unat s + unat count} \<subseteq> pmm_free_set p"
    if "unat s + unat count \<le> unat PMM_MAX_FRAMES" for s
    using contig_scan_None [OF None c, of s] that by (auto simp: pmm_free_set_def)
  then show ?thesis using None assms by (auto simp: pmm_alloc_contig_def)
qed

text \<open>
  C13: \<open>pmm_alloc_contig\<close> finds a run of \<open>count\<close> free frames exactly when there is one; then the run
  becomes allocated and nothing else changes, and otherwise it returns 0 with the state unchanged.
\<close>

theorem pmm_alloc_contig_run:
  assumes "pmm_ok p" "0 \<notin> pmm_free_set p" "count \<noteq> 0"
  shows "pmm_ok (snd (pmm_alloc_contig p count)) \<and>
    (if \<exists>s. unat s + unat count \<le> unat PMM_MAX_FRAMES \<and>
             {x. s \<le> x \<and> unat x < unat s + unat count} \<subseteq> pmm_free_set p
     then \<exists>s. fst (pmm_alloc_contig p count) = push_bit 12 s \<and> s \<noteq> 0 \<and>
             unat s + unat count \<le> unat PMM_MAX_FRAMES \<and>
             {x. s \<le> x \<and> unat x < unat s + unat count} \<subseteq> pmm_free_set p \<and>
             pmm_free_set (snd (pmm_alloc_contig p count)) =
               pmm_free_set p - {x. s \<le> x \<and> unat x < unat s + unat count}
     else pmm_alloc_contig p count = (0, p))"
  using assms by (rule pmm_alloc_contig_spec)

lemma pmm_free_frame_spec:
  "pmm_ok p \<Longrightarrow> pmm_ok (pmm_free_frame p a)"
  "pmm_free_set (pmm_free_frame p a) = pmm_free_set p \<union> ({frame_index a} \<inter> {..<PMM_MAX_FRAMES})"
proof -
  show "pmm_ok p \<Longrightarrow> pmm_ok (pmm_free_frame p a)"
    by (simp add: pmm_free_frame_def Let_def pmm_ok_iff pmm_count_freed)
  show "pmm_free_set (pmm_free_frame p a) = pmm_free_set p \<union> ({frame_index a} \<inter> {..<PMM_MAX_FRAMES})"
    unfolding pmm_free_frame_def Let_def pmm_free_set_def by auto
qed

lemma pmm_free_frame_twice: "pmm_free_frame (pmm_free_frame p a) a = pmm_free_frame p a"
  by (simp add: pmm_free_frame_def Let_def)

section \<open>The frame-source interface\<close>

text \<open>What the clients of the frame allocator rely on.\<close>

fun alloc_frames :: "('s \<Rightarrow> u64 \<times> 's) \<Rightarrow> nat \<Rightarrow> 's \<Rightarrow> u64 list \<times> 's" where
  "alloc_frames alloc 0 s = ([], s)"
| "alloc_frames alloc (Suc n) s =
     (let (a, s') = alloc s; (as, s'') = alloc_frames alloc n s' in (a # as, s''))"

locale frame_source =
  fixes alloc :: "'s \<Rightarrow> u64 \<times> 's"
    and release :: "'s \<Rightarrow> u64 \<Rightarrow> 's"
    and avail :: "'s \<Rightarrow> u64 set"
    and ok :: "'s \<Rightarrow> bool"
  assumes avail_bound: "f \<in> avail s \<Longrightarrow> f < PMM_MAX_FRAMES"
    and avail_finite: "finite (avail s)"
    and alloc_cases: "ok s \<Longrightarrow>
      (\<exists>f \<in> avail s. fst (alloc s) = push_bit 12 f \<and>
         avail (snd (alloc s)) = avail s - {f} \<and> ok (snd (alloc s))) \<or>
      (avail s = {} \<and> alloc s = (0, s))"
    and release_frame: "ok s \<Longrightarrow> drop_bit 12 a < PMM_MAX_FRAMES \<Longrightarrow>
      ok (release s a) \<and> avail (release s a) = insert (drop_bit 12 a) (avail s)"
begin

lemma alloc_nonzero:
  assumes "ok s" "0 \<notin> avail s" "fst (alloc s) \<noteq> 0"
  shows "drop_bit 12 (fst (alloc s)) \<in> avail s \<and> take_bit 12 (fst (alloc s)) = 0 \<and>
     avail (snd (alloc s)) = avail s - {drop_bit 12 (fst (alloc s))} \<and> ok (snd (alloc s))"
proof -
  obtain f where f: "f \<in> avail s" "fst (alloc s) = push_bit 12 f"
      "avail (snd (alloc s)) = avail s - {f}" "ok (snd (alloc s))"
    using alloc_cases [OF assms(1)] assms(3) by force
  have "drop_bit 12 (push_bit 12 f) = f" using f(1) by (intro drop_push_12 avail_bound)
  with f show ?thesis by (simp only: take_bit_push_12)
qed

lemma alloc_zero:
  assumes "ok s" "0 \<notin> avail s" "fst (alloc s) = 0"
  shows "avail s = {} \<and> snd (alloc s) = s"
proof (rule ccontr)
  assume c: "\<not> ?thesis"
  then obtain f where f: "f \<in> avail s" "fst (alloc s) = push_bit 12 f"
    using alloc_cases [OF assms(1)] by force
  then have "f = 0" using assms(3) push_bit_12_eq_0 [OF avail_bound] by metis
  with f assms(2) show False by blast
qed

lemma alloc_frames_spec:
  assumes "ok s" "0 \<notin> avail s" "n \<le> card (avail s)" "alloc_frames alloc n s = (as, s')"
  shows "length as = n \<and> distinct as \<and> 0 \<notin> set as \<and> drop_bit 12 ` set as \<subseteq> avail s \<and>
     avail s' = avail s - drop_bit 12 ` set as \<and> ok s'"
  using assms
proof (induction n arbitrary: s as)
  case 0
  then show ?case by simp
next
  case (Suc n)
  obtain a s1 where a: "alloc s = (a, s1)" by force
  obtain as' where as': "alloc_frames alloc n s1 = (as', s')" "as = a # as'"
    using Suc.prems(4) a by (auto split: prod.splits)
  have "avail s \<noteq> {}" using Suc.prems(3) by auto
  then have a0: "a \<noteq> 0" using alloc_zero [OF Suc.prems(1,2)] a by auto
  have sp: "drop_bit 12 a \<in> avail s" "avail s1 = avail s - {drop_bit 12 a}" "ok s1"
    using alloc_nonzero [OF Suc.prems(1,2)] a a0 by auto
  then have "n \<le> card (avail s1)" using Suc.prems(3) avail_finite [of s] by simp
  then have "length as' = n \<and> distinct as' \<and> 0 \<notin> set as' \<and> drop_bit 12 ` set as' \<subseteq> avail s1 \<and>
     avail s' = avail s1 - drop_bit 12 ` set as' \<and> ok s'"
    using Suc.IH [OF sp(3) _ _ as'(1)] Suc.prems(2) sp(2) by auto
  then show ?case using sp as'(2) a0 by auto
qed

lemma release_alloc:
  assumes "ok s" "0 \<notin> avail s" "fst (alloc s) \<noteq> 0"
  shows "avail (release (snd (alloc s)) (fst (alloc s))) = avail s"
proof -
  let ?f = "drop_bit 12 (fst (alloc s))"
  have a: "?f \<in> avail s" "avail (snd (alloc s)) = avail s - {?f}" "ok (snd (alloc s))"
    using alloc_nonzero [OF assms] by simp_all
  have "avail (release (snd (alloc s)) (fst (alloc s))) = insert ?f (avail (snd (alloc s)))"
    using release_frame [OF a(3) avail_bound [OF a(1)]] by simp
  with a(1,2) show ?thesis by auto
qed

end

interpretation pf: frame_source pmm_alloc_frame pmm_free_frame pmm_free_set pmm_ok
proof unfold_locales
  fix s assume ok: "pmm_ok s"
  show "(\<exists>f \<in> pmm_free_set s. fst (pmm_alloc_frame s) = push_bit 12 f \<and>
         pmm_free_set (snd (pmm_alloc_frame s)) = pmm_free_set s - {f} \<and>
         pmm_ok (snd (pmm_alloc_frame s))) \<or>
      (pmm_free_set s = {} \<and> pmm_alloc_frame s = (0, s))"
    using pmm_alloc_frame_cases [OF ok] pmm_take_spec [OF ok] by (auto simp: pmm_take_def)
next
  fix s a assume "pmm_ok s" "drop_bit 12 a < PMM_MAX_FRAMES"
  then show "pmm_ok (pmm_free_frame s a) \<and>
      pmm_free_set (pmm_free_frame s a) = insert (drop_bit 12 a) (pmm_free_set s)"
    by (simp add: pmm_free_frame_spec frame_index_def)
qed (simp_all add: pmm_free_set_bound)


lemma free_range_loop_spec:
  "pmm_ok p \<Longrightarrow> pmm_ok (free_range_loop p phys i n)"
  "pmm_free_set (free_range_loop p phys i n) = pmm_free_set p \<union>
     ((\<lambda>k. frame_index (phys + of_nat k * PMM_FRAME_SIZE)) ` {i..<i + n} \<inter> {..<PMM_MAX_FRAMES})"
proof (induction n arbitrary: p i)
  case (Suc n)
  { case 1 then show ?case using Suc by (simp add: pmm_free_frame_spec) }
  { case 2
    have "{i..<i + Suc n} = insert i {Suc i..<Suc i + n}" by auto
    then show ?case using Suc by (auto simp: pmm_free_frame_spec) }
qed simp_all

lemma pmm_free_range_spec:
  "pmm_ok p \<Longrightarrow> pmm_ok (pmm_free_range p phys count)"
  "pmm_free_set (pmm_free_range p phys count) = pmm_free_set p \<union>
     ((\<lambda>k. frame_index (phys + of_nat k * PMM_FRAME_SIZE)) ` {..<unat count} \<inter> {..<PMM_MAX_FRAMES})"
  by (simp_all add: pmm_free_range_def free_range_loop_spec atLeast0LessThan)

section \<open>Properties\<close>

lemma drop_bit_less_12:
  assumes "a < e" "e \<le> PMM_MAX_PHYS"
  shows "drop_bit 12 a < drop_bit 12 (e + PMM_FRAME_SIZE - 1)"
proof -
  have e: "unat e \<le> 68719476736" using assms(2) by (simp add: const_defs word_le_nat_alt)
  have u: "unat (4095 + e) = unat e + 4095"
    using e by (subst unat_add_lem [THEN iffD1]) simp_all
  have d: "unat (drop_bit 12 x) = unat x div 4096" for x :: u64
    using take_bit_nat_eq_self [OF unsigned_less [of x, where 'a = nat]]
    by (simp add: unsigned_drop_bit_eq) (simp add: drop_bit_eq_div)
  have "unat a div 4096 < (unat e + 4095) div 4096"
    using assms(1) by (simp add: word_less_nat_alt)
  then show ?thesis by (simp add: word_less_nat_alt d u const_defs)
qed

text \<open>
  whatever the memory map says, no frame below \<open>kernel_end\<close> is free after \<open>pmm_init\<close>, so the
  kernel image can never be handed out.
\<close>

theorem pmm_init_protects_kernel:
  assumes "kernel_end \<le> PMM_MAX_PHYS" "a < kernel_end"
  shows "frame_index a \<notin> pmm_free_set (pmm_init bi kernel_end bitmap_addr pmm_bss)"
proof -
  have "frame_index a \<in> range_frames 0 kernel_end"
    using assms drop_bit_less_12 [OF assms(2,1)]
    by (auto simp: range_frames_def frame_index_def word_le_nat_alt word_less_nat_alt)
  then show ?thesis by (simp add: pmm_init_frames)
qed

theorem pmm_init_protects_kernel_witness:
  "frame_index 0x100000 \<notin> pmm_free_set (pmm_init
      \<lparr>memory_map = [\<lparr>mm_addr = 0, mm_length = 0x8000000, mm_type = 1, mm_reserved = 0\<rparr>], framebuffer = 0,
       framebuffer_pitch = 0, framebuffer_height = 0\<rparr> 0x400000 0x200000 pmm_bss)"
  by (rule pmm_init_protects_kernel) (simp_all add: const_defs)

definition pmm_two :: pmm where
  "pmm_two = pmm_free_frame (pmm_free_frame pmm_bss 0x1000) 0x2000"

lemma pmm_two_facts: "pmm_ok pmm_two" "pmm_free_set pmm_two = {1, 2}"
proof -
  have "pmm_ok pmm_bss" by (simp add: pmm_ok_def) (simp add: pmm_bss_def)
  then show "pmm_ok pmm_two" by (simp add: pmm_two_def pmm_free_frame_spec)
  show "pmm_free_set pmm_two = {1, 2}"
    by (auto simp: pmm_two_def pmm_free_frame_spec frame_index_def PMM_MAX_FRAMES_num)
qed

text \<open>
  C7: any number of successive \<open>pmm_alloc_frame\<close> calls, up to the number of free frames, all
  succeed with pairwise distinct non-zero frames that were free, and the allocator is left with
  exactly the remaining free frames and a correct counter.
\<close>

theorem pmm_alloc_frames_distinct:
  assumes "pmm_ok p" "0 \<notin> pmm_free_set p" "n \<le> card (pmm_free_set p)"
  shows "(case alloc_frames pmm_alloc_frame n p of (as, p') \<Rightarrow>
     length as = n \<and> distinct as \<and> 0 \<notin> set as \<and> frame_index ` set as \<subseteq> pmm_free_set p \<and>
     pmm_free_set p' = pmm_free_set p - frame_index ` set as \<and> pmm_ok p')"
proof -
  obtain as p' where r: "alloc_frames pmm_alloc_frame n p = (as, p')" by force
  show ?thesis
    using pf.alloc_frames_spec [OF assms r] by (simp add: r frame_index_def [abs_def])
qed

theorem pmm_alloc_frames_distinct_witness:
  "case alloc_frames pmm_alloc_frame 2 pmm_two of (as, p') \<Rightarrow>
     length as = 2 \<and> distinct as \<and> 0 \<notin> set as \<and> frame_index ` set as \<subseteq> {1, 2} \<and>
     pmm_free_set p' = {1, 2} - frame_index ` set as \<and> pmm_ok p'"
  using pmm_alloc_frames_distinct [of pmm_two 2] by (simp add: pmm_two_facts)

theorem pmm_alloc_contig_run_witness:
  "\<exists>s. fst (pmm_alloc_contig pmm_two 2) = push_bit 12 s \<and> s \<noteq> 0 \<and>
       {x. s \<le> x \<and> unat x < unat s + 2} \<subseteq> {1, 2} \<and>
       pmm_free_set (snd (pmm_alloc_contig pmm_two 2)) = {1, 2} - {x. s \<le> x \<and> unat x < unat s + 2}"
proof -
  have "{x :: u64. 1 \<le> x \<and> unat x < unat (1 :: u64) + unat (2 :: u64)} \<subseteq> pmm_free_set pmm_two"
    by (auto simp: pmm_two_facts word_le_nat_alt word_unat_eq_iff)
  moreover have "unat (1 :: u64) + unat (2 :: u64) \<le> unat PMM_MAX_FRAMES"
    by (simp add: const_defs)
  ultimately have ex: "\<exists>s. unat s + unat (2 :: u64) \<le> unat PMM_MAX_FRAMES \<and>
      {x. s \<le> x \<and> unat x < unat s + unat (2 :: u64)} \<subseteq> pmm_free_set pmm_two" by blast
  have "0 \<notin> pmm_free_set pmm_two" by (simp add: pmm_two_facts)
  from pmm_alloc_contig_run [of pmm_two 2, OF pmm_two_facts(1) this, simplified ex if_True]
  show ?thesis by (auto simp: pmm_two_facts)
qed

end
