(* ===== verification/Paging.thy ===== *)
theory Paging
  imports Pmm
begin

text \<open>
  The virtual memory layer, \<^verbatim>\<open>mem/mm/paging.c\<close>: four-level page tables kept in physical
  frames of the byte memory. The state \<open>machine\<close> holds that memory, the physical memory manager
  and the two static variables of the file. TLB invalidation (\<open>invlpg\<close>) has no counterpart: the
  model walks the tables in memory. Each operation returns the new state, with the value the C
  function returns in front of it.

  The second part gives the tables an abstract meaning, the map \<open>pview\<close> from virtual addresses to
  the physical address and the user-mode permission, and proves what each operation does to it.
\<close>

section \<open>State and operations\<close>

definition PAGING_PAGE :: u64 where
  [const_defs]: "PAGING_PAGE = 0x1000"
definition PAGING_HUGE :: u64 where
  [const_defs]: "PAGING_HUGE = 0x200000"
definition PAGING_USER_BASE :: u64 where
  [const_defs]: "PAGING_USER_BASE = 0x40000000"
definition PAGING_FLAG_PRESENT :: u64 where
  [const_defs]: "PAGING_FLAG_PRESENT = 0x001"
definition PAGING_FLAG_WRITABLE :: u64 where
  [const_defs]: "PAGING_FLAG_WRITABLE = 0x002"
definition PAGING_FLAG_USER :: u64 where
  [const_defs]: "PAGING_FLAG_USER = 0x004"
definition PAGING_FLAG_LARGE :: u64 where
  [const_defs]: "PAGING_FLAG_LARGE = 0x080"

definition PML4_IDX :: "u64 \<Rightarrow> u64" where
  "PML4_IDX a = drop_bit 39 a AND 0x1FF"
definition PDPT_IDX :: "u64 \<Rightarrow> u64" where
  "PDPT_IDX a = drop_bit 30 a AND 0x1FF"
definition PD_IDX :: "u64 \<Rightarrow> u64" where
  "PD_IDX a = drop_bit 21 a AND 0x1FF"
definition PT_IDX :: "u64 \<Rightarrow> u64" where
  "PT_IDX a = drop_bit 12 a AND 0x1FF"

record machine =
  phys_mem :: mem
  frames :: pmm
  kernel_cr3 :: u64
  g_lapic_base :: u64

text \<open>An entry of a table, and the table an entry points to.\<close>

definition tbl_get :: "machine \<Rightarrow> u64 \<Rightarrow> u64 \<Rightarrow> u64" where
  "tbl_get s tbl i = rd64 (phys_mem s) (tbl + 8 * i)"

definition tbl_set :: "machine \<Rightarrow> u64 \<Rightarrow> u64 \<Rightarrow> u64 \<Rightarrow> machine" where
  "tbl_set s tbl i v = s\<lparr>phys_mem := wr64 (phys_mem s) (tbl + 8 * i) v\<rparr>"

definition tbl_addr :: "u64 \<Rightarrow> u64" where
  "tbl_addr e = e AND NOT 0xFFF"

definition alloc_frame :: "machine \<Rightarrow> u64 \<times> machine" where
  "alloc_frame s = (case pmm_alloc_frame (frames s) of (a, p) \<Rightarrow> (a, s\<lparr>frames := p\<rparr>))"

definition free_frame :: "machine \<Rightarrow> u64 \<Rightarrow> machine" where
  "free_frame s a = s\<lparr>frames := pmm_free_frame (frames s) a\<rparr>"

definition zero_page :: "machine \<Rightarrow> u64 \<Rightarrow> machine" where
  "zero_page s a = s\<lparr>phys_mem := pmm_zero_page (phys_mem s) a\<rparr>"

text \<open>
  The block that \<open>paging_map\<close> and \<open>paging_map_large\<close> repeat at each level: follow a present entry,
  or allocate and zero a table for it.
\<close>

definition new_table :: "machine \<Rightarrow> u64 \<Rightarrow> u64 \<Rightarrow> u64 option \<times> machine" where
  "new_table s tbl i =
     (case alloc_frame s of (f, s) \<Rightarrow>
        if f = 0 then (None, s)
        else (Some f, tbl_set (zero_page s f) tbl i (f OR 0x07)))"

definition next_table :: "machine \<Rightarrow> u64 \<Rightarrow> u64 \<Rightarrow> u64 option \<times> machine" where
  "next_table s tbl i =
     (if tbl_get s tbl i AND 1 \<noteq> 0 then (Some (tbl_addr (tbl_get s tbl i)), s)
      else new_table s tbl i)"

text \<open>The first two levels, again common to both.\<close>

definition walk_pd :: "machine \<Rightarrow> u64 \<Rightarrow> u64 \<Rightarrow> u64 option \<times> machine" where
  "walk_pd s cr3 vaddr =
     (case next_table s cr3 (PML4_IDX vaddr) of (None, s) \<Rightarrow> (None, s)
      | (Some pdpt, s) \<Rightarrow> next_table s pdpt (PDPT_IDX vaddr))"

definition paging_map :: "machine \<Rightarrow> u64 \<Rightarrow> u64 \<Rightarrow> u64 \<Rightarrow> u64 \<Rightarrow> bool \<times> machine" where
  "paging_map s cr3 vaddr phys flags =
     (if vaddr < PAGING_USER_BASE \<or> vaddr AND 0xFFF \<noteq> 0 \<or> phys AND 0xFFF \<noteq> 0 then (False, s)
      else case walk_pd s cr3 vaddr of (None, s) \<Rightarrow> (False, s) | (Some pd, s) \<Rightarrow>
          (let e = tbl_get s pd (PD_IDX vaddr);
               v = (phys AND NOT 0xFFF) OR flags OR PAGING_FLAG_PRESENT
           in if e AND 1 \<noteq> 0 \<and> e AND PAGING_FLAG_LARGE = 0 then
                let pt = tbl_addr e
                in if tbl_get s pt (PT_IDX vaddr) AND 1 \<noteq> 0 then (False, s)
                   else (True, tbl_set s pt (PT_IDX vaddr) v)
              else if e AND 1 \<noteq> 0 then (False, s)
              else case new_table s pd (PD_IDX vaddr) of
                     (None, s) \<Rightarrow> (False, s)
                   | (Some pt, s) \<Rightarrow> (True, tbl_set s pt (PT_IDX vaddr) v)))"

definition paging_map_large :: "machine \<Rightarrow> u64 \<Rightarrow> u64 \<Rightarrow> u64 \<Rightarrow> u64 \<Rightarrow> bool \<times> machine" where
  "paging_map_large s cr3 vaddr phys flags =
     (if vaddr < PAGING_USER_BASE \<or> vaddr AND (PAGING_HUGE - 1) \<noteq> 0 \<or>
         phys AND (PAGING_HUGE - 1) \<noteq> 0 then (False, s)
      else case walk_pd s cr3 vaddr of (None, s) \<Rightarrow> (False, s) | (Some pd, s) \<Rightarrow>
          if tbl_get s pd (PD_IDX vaddr) AND 1 \<noteq> 0 then (False, s)
          else (True, tbl_set s pd (PD_IDX vaddr)
                  ((phys AND NOT 0x1FFFFF) OR flags OR PAGING_FLAG_LARGE OR PAGING_FLAG_PRESENT)))"

definition free_huge :: "machine \<Rightarrow> u64 \<Rightarrow> machine" where
  "free_huge s base = foldl (\<lambda>s k. free_frame s (base + of_nat k * PAGING_PAGE)) s [0..<512]"

definition paging_unmap :: "machine \<Rightarrow> u64 \<Rightarrow> u64 \<Rightarrow> machine" where
  "paging_unmap s cr3 vaddr =
     (if vaddr < PAGING_USER_BASE then s
      else if tbl_get s cr3 (PML4_IDX vaddr) AND 1 = 0 then s
      else let pdpt = tbl_addr (tbl_get s cr3 (PML4_IDX vaddr))
      in if tbl_get s pdpt (PDPT_IDX vaddr) AND 1 = 0 then s
      else let pd = tbl_addr (tbl_get s pdpt (PDPT_IDX vaddr)); e = tbl_get s pd (PD_IDX vaddr)
      in if e AND 1 = 0 then s
      else if e AND PAGING_FLAG_LARGE \<noteq> 0
        then tbl_set (free_huge s (e AND NOT 0x1FFFFF)) pd (PD_IDX vaddr) 0
      else let pt = tbl_addr e; p = tbl_get s pt (PT_IDX vaddr)
      in if p AND 1 \<noteq> 0
         then tbl_set (free_frame s (p AND NOT 0xFFF)) pt (PT_IDX vaddr) 0
         else s)"

definition paging_translate :: "machine \<Rightarrow> u64 \<Rightarrow> u64 \<Rightarrow> u64" where
  "paging_translate s cr3 vaddr =
     (if tbl_get s cr3 (PML4_IDX vaddr) AND 1 = 0 then 0
      else let pdpt = tbl_addr (tbl_get s cr3 (PML4_IDX vaddr))
      in if tbl_get s pdpt (PDPT_IDX vaddr) AND 1 = 0 then 0
      else let pd = tbl_addr (tbl_get s pdpt (PDPT_IDX vaddr)); e = tbl_get s pd (PD_IDX vaddr)
      in if e AND 1 = 0 then 0
      else if e AND PAGING_FLAG_LARGE \<noteq> 0
        then (e AND NOT 0x1FFFFF) + (vaddr AND (PAGING_HUGE - 1))
      else let p = tbl_get s (tbl_addr e) (PT_IDX vaddr)
      in if p AND 1 = 0 then 0 else (p AND NOT 0xFFF) + (vaddr AND 0xFFF))"

definition paging_init :: "machine \<Rightarrow> u64 \<Rightarrow> machine" where
  "paging_init s cr3 = s\<lparr>kernel_cr3 := cr3\<rparr>"

definition paging_map_lapic :: "machine \<Rightarrow> u64 \<Rightarrow> machine" where
  "paging_map_lapic s phys =
     (if g_lapic_base s \<noteq> 0 then s
      else snd (paging_map_large (s\<lparr>g_lapic_base := phys\<rparr>) (kernel_cr3 s) phys phys
                  PAGING_FLAG_WRITABLE))"

definition paging_new_address_space :: "machine \<Rightarrow> u64 \<times> machine" where
  "paging_new_address_space s =
     (case alloc_frame s of (pml4, s) \<Rightarrow> case alloc_frame s of (pdpt, s) \<Rightarrow>
        if pml4 = 0 \<or> pdpt = 0
        then (let s = (if pml4 \<noteq> 0 then free_frame s pml4 else s);
                  s = (if pdpt \<noteq> 0 then free_frame s pdpt else s) in (0, s))
        else
          let s = zero_page (zero_page s pml4) pdpt;
              kroot = kernel_cr3 s;
              s = foldl (\<lambda>s i. tbl_set s pml4 (of_nat i) (tbl_get s kroot (of_nat i))) s [1..<512];
              kpdpt = tbl_addr (tbl_get s kroot 0);
              s = tbl_set s pdpt 0 ((tbl_get s kpdpt 0 AND NOT 0x04) OR 0x01);
              s = tbl_set s pml4 0 (pdpt OR 0x07);
              s = (if g_lapic_base s \<noteq> 0
                   then snd (paging_map_large s pml4 (g_lapic_base s) (g_lapic_base s)
                               PAGING_FLAG_WRITABLE)
                   else s)
          in (pml4, s))"

definition free_pt :: "machine \<Rightarrow> u64 \<Rightarrow> machine" where
  "free_pt s pt = free_frame (foldl (\<lambda>s k.
       if tbl_get s pt (of_nat k) AND 1 \<noteq> 0
       then free_frame s (tbl_get s pt (of_nat k) AND NOT 0xFFF) else s) s [0..<512]) pt"

definition free_pd :: "machine \<Rightarrow> u64 \<Rightarrow> machine" where
  "free_pd s pd = free_frame (foldl (\<lambda>s j.
       let e = tbl_get s pd (of_nat j)
       in if e AND 1 = 0 then s
          else if e AND PAGING_FLAG_LARGE \<noteq> 0 then free_huge s (e AND NOT 0x1FFFFF)
          else free_pt s (tbl_addr e)) s [0..<512]) pd"

definition free_user_tree :: "machine \<Rightarrow> u64 \<Rightarrow> machine" where
  "free_user_tree s cr3 =
     (let pdpt = tbl_addr (tbl_get s cr3 0);
          s = foldl (\<lambda>s i.
                let e = tbl_get s pdpt (of_nat i)
                in if e AND 1 = 0 then s
                   else if g_lapic_base s \<noteq> 0 \<and>
                           (of_nat i :: u32) = ucast (drop_bit 30 (g_lapic_base s)) then s
                   else free_pd s (tbl_addr e)) s [1..<512]
      in free_frame (free_frame s pdpt) cr3)"

definition paging_free_address_space :: "machine \<Rightarrow> u64 \<Rightarrow> machine" where
  "paging_free_address_space s cr3 =
     (if cr3 = 0 \<or> cr3 = kernel_cr3 s then s else free_user_tree s cr3)"

text \<open>One page of \<open>paging_clone_user_space\<close>, and its loops from the innermost outwards.\<close>

definition clone_page :: "machine \<Rightarrow> u64 \<Rightarrow> u64 \<Rightarrow> u64 \<Rightarrow> bool \<times> machine" where
  "clone_page s dst_cr3 vaddr srcp =
     (case alloc_frame s of (frame, s) \<Rightarrow>
        if frame = 0 then (False, s)
        else let s = zero_page s frame;
                 s = s\<lparr>phys_mem := k_memcpy (phys_mem s) frame srcp PAGING_PAGE\<rparr>
          in paging_map s dst_cr3 vaddr frame (PAGING_FLAG_USER OR PAGING_FLAG_WRITABLE))"

definition clone_huge :: "u64 \<Rightarrow> u64 \<Rightarrow> u64 \<Rightarrow> machine \<Rightarrow> bool \<times> machine" where
  "clone_huge dst_cr3 base srcp = for_ok (\<lambda>k s.
     clone_page s dst_cr3 (base + of_nat k * PAGING_PAGE) (srcp + of_nat k * PAGING_PAGE)) [0..<512]"

definition clone_pt :: "u64 \<Rightarrow> u64 \<Rightarrow> u64 \<Rightarrow> machine \<Rightarrow> bool \<times> machine" where
  "clone_pt dst_cr3 base spt = for_ok (\<lambda>k s.
     let e = tbl_get s spt (of_nat k)
     in if e AND 1 = 0 then (True, s)
        else if e AND PAGING_FLAG_USER = 0 then (True, s)
        else clone_page s dst_cr3 (base + of_nat k * PAGING_PAGE) (e AND NOT 0xFFF)) [0..<512]"

definition clone_pd :: "u64 \<Rightarrow> nat \<Rightarrow> nat \<Rightarrow> u64 \<Rightarrow> machine \<Rightarrow> bool \<times> machine" where
  "clone_pd dst_cr3 a b spd = for_ok (\<lambda>c s.
     let e = tbl_get s spd (of_nat c)
     in if e AND 1 = 0 then (True, s)
        else if e AND PAGING_FLAG_USER = 0 then (True, s)
        else let base = push_bit 39 (of_nat a) OR push_bit 30 (of_nat b) OR push_bit 21 (of_nat c)
        in if base < PAGING_USER_BASE then (True, s)
        else if e AND PAGING_FLAG_LARGE \<noteq> 0 then clone_huge dst_cr3 base (e AND NOT 0x1FFFFF) s
        else clone_pt dst_cr3 base (tbl_addr e) s) [0..<512]"

definition clone_pdpt :: "u64 \<Rightarrow> nat \<Rightarrow> u64 \<Rightarrow> machine \<Rightarrow> bool \<times> machine" where
  "clone_pdpt dst_cr3 a spdpt = for_ok (\<lambda>b s.
     let e = tbl_get s spdpt (of_nat b)
     in if e AND 1 = 0 then (True, s) else clone_pd dst_cr3 a b (tbl_addr e) s) [0..<512]"

definition paging_clone_user_space :: "machine \<Rightarrow> u64 \<Rightarrow> u64 \<Rightarrow> bool \<times> machine" where
  "paging_clone_user_space s src_cr3 dst_cr3 =
     (if src_cr3 = 0 \<or> dst_cr3 = 0 then (False, s)
      else for_ok (\<lambda>a s.
        let e = tbl_get s src_cr3 (of_nat a)
        in if e AND 1 = 0 then (True, s) else clone_pdpt dst_cr3 a (tbl_addr e) s) [0..<512] s)"

section \<open>Bits of table entries\<close>

lemma flag_bit:
  fixes e :: u64
  shows "e AND 1 = 0 \<longleftrightarrow> \<not> bit e 0" "e AND 4 = 0 \<longleftrightarrow> \<not> bit e 2" "e AND 0x80 = 0 \<longleftrightarrow> \<not> bit e 7"
  using and_exp_eq_0_iff_not_bit [of e 0] and_exp_eq_0_iff_not_bit [of e 2]
    and_exp_eq_0_iff_not_bit [of e 7] by simp_all

lemma mask_lits: "(0xFFF :: u64) = mask 12" "(7 :: u64) = mask 3" "(0x1FFFFF :: u64) = mask 21"
  "(0x1FF :: u64) = mask 9"
  by (simp_all add: mask_eq_exp_minus_1)

definition page_aligned :: "u64 \<Rightarrow> bool" where
  "page_aligned a \<longleftrightarrow> take_bit 12 a = 0"

lemma page_aligned_bit: "page_aligned a \<Longrightarrow> bit a n \<Longrightarrow> 12 \<le> n"
  unfolding page_aligned_def by (metis bit_take_bit_iff bit_0_eq bot_apply bot_bool_def linorder_not_le)

lemma page_aligned_and: "page_aligned a \<longleftrightarrow> a AND 0xFFF = 0"
  by (simp only: page_aligned_def mask_lits take_bit_eq_mask)

lemma page_aligned_addr [simp]: "page_aligned (tbl_addr e)"
  unfolding page_aligned_def tbl_addr_def mask_lits
  by (rule bit_word_eqI) (simp add: bit_simps)

lemma table_entry:
  assumes "page_aligned f"
  shows "tbl_addr (f OR 7) = f" "bit (f OR 7) 0" "bit (f OR 7) 2" "\<not> bit (f OR 7) 7"
proof -
  show "tbl_addr (f OR 7) = f"
    unfolding tbl_addr_def mask_lits
    by (rule bit_word_eqI) (auto simp: bit_simps dest: page_aligned_bit [OF assms])
  show "bit (f OR 7) 0" "bit (f OR 7) 2" "\<not> bit (f OR 7) 7"
    unfolding mask_lits using page_aligned_bit [OF assms, of 7] by (auto simp: bit_simps)
qed

lemma page_aligned_unat: "page_aligned a \<Longrightarrow> \<exists>t < 2 ^ 52. unat a = 4096 * t"
proof -
  assume "page_aligned a"
  then have "unat (take_bit 12 a) = 0" by (simp add: page_aligned_def)
  then have "take_bit 12 (unat a) = 0" by (simp only: unsigned_take_bit_eq)
  then have "unat a mod 4096 = 0" by (simp add: take_bit_eq_mod)
  then obtain t where t: "unat a = 4096 * t" by auto
  moreover have "unat a < 2 ^ 64" using unsigned_less [of a, where 'a = nat] by simp
  ultimately show ?thesis by auto
qed

lemma unat_page_offset:
  assumes "page_aligned a" "o' < 4096"
  shows "unat (a + o') = unat a + unat o'"
proof -
  obtain t where t: "t < 2 ^ 52" "unat a = 4096 * t" using page_aligned_unat [OF assms(1)] by auto
  have "unat o' < 4096" using assms(2) by (simp add: word_less_nat_alt)
  then have "unat a + unat o' < 2 ^ LENGTH(64)" using t by simp
  then show ?thesis by (simp only: unat_add_lem)
qed

lemma page_decomp:
  assumes "page_aligned a" "page_aligned b" "x < 4096" "y < 4096" "a + x = b + y"
  shows "a = b \<and> x = y"
proof -
  obtain s t where st: "unat a = 4096 * s" "unat b = 4096 * t"
    using page_aligned_unat [OF assms(1)] page_aligned_unat [OF assms(2)] by auto
  have xy: "unat x < 4096" "unat y < 4096" using assms(3,4) by (simp_all add: word_less_nat_alt)
  have eq: "4096 * s + unat x = 4096 * t + unat y"
    using arg_cong [OF assms(5), of unat] unat_page_offset [OF assms(1,3)]
      unat_page_offset [OF assms(2,4)] st by simp
  from arg_cong [OF eq, of "\<lambda>n. n div 4096"] xy have "s = t" by simp
  with eq st show ?thesis by (simp add: word_unat_eq_iff)
qed

lemma slot_less: "i < 512 \<Longrightarrow> k < 8 \<Longrightarrow> 8 * i + k < (4096 :: u64)" for i k :: u64
proof -
  assume "i < 512" "k < 8"
  then have i: "unat i < 512" and k: "unat k < 8" by (simp_all add: word_less_nat_alt)
  have "unat (8 * i) = 8 * unat i"
    using unat_mult_lem [of 8 i] i by simp
  then have "unat (8 * i + k) = 8 * unat i + unat k"
    using unat_add_lem [of "8 * i" k] i k by simp
  then show ?thesis using i k by (simp add: word_less_nat_alt)
qed

lemma mult_8_ge: "8 * z \<noteq> 0 \<Longrightarrow> 8 \<le> 8 * (z :: u64)"
proof -
  assume nz: "8 * z \<noteq> 0"
  have "8 * z = push_bit 3 z" by (simp add: push_bit_eq_mult)
  then have "take_bit 3 (8 * z) = 0" by (simp add: take_bit_push_bit)
  then have "take_bit 3 (unat (8 * z)) = 0" by (simp only: unsigned_take_bit_eq [symmetric] unsigned_0)
  then have "unat (8 * z) mod 8 = 0" by (simp add: take_bit_eq_mod)
  moreover have "unat (8 * z) \<noteq> 0" using nz by (simp add: unat_eq_zero)
  ultimately have "8 \<le> unat (8 * z)" by auto
  then show ?thesis by (simp add: word_le_nat_alt)
qed

lemma slots_apart:
  assumes "page_aligned a" "page_aligned b" "i < 512" "j < 512" "(a, i) \<noteq> (b, j)"
  shows "cells_apart (a + 8 * i) (b + 8 * j)"
proof -
  have al: "\<exists>p. x = 8 * p" if "page_aligned x" for x :: u64
  proof -
    have "x = push_bit 12 (drop_bit 12 x)"
      using that bits_ident [of 12 x] by (simp add: page_aligned_def)
    also have "\<dots> = 8 * push_bit 9 (drop_bit 12 x)" by (simp add: push_bit_eq_mult)
    finally show ?thesis by blast
  qed
  obtain p q where pq: "a = 8 * p" "b = 8 * q" using al assms by metis
  have ne: "a + 8 * i \<noteq> b + 8 * j"
  proof
    assume "a + 8 * i = b + 8 * j"
    with page_decomp [OF assms(1,2), of "8 * i" "8 * j"] slot_less [OF assms(3), of 0]
      slot_less [OF assms(4), of 0]
    have "a = b" and ij: "8 * i = 8 * j" by auto
    have "unat i < 512" "unat j < 512" using assms by (simp_all add: word_less_nat_alt)
    then have "unat (8 * i) = 8 * unat i" "unat (8 * j) = 8 * unat j"
      using unat_mult_lem [of 8 i] unat_mult_lem [of 8 j] by simp_all
    with ij have "unat i = unat j" by simp
    with \<open>a = b\<close> assms(5) show False by (simp add: word_unat_eq_iff)
  qed
  have "a + 8 * i - (b + 8 * j) = 8 * (p + i - q - j)"
    "b + 8 * j - (a + 8 * i) = 8 * (q + j - p - i)"
    by (simp_all add: pq algebra_simps)
  then show ?thesis
    using ne mult_8_ge by (metis cells_apart_def eq_iff_diff_eq_0)
qed


section \<open>The meaning of the tables\<close>

text \<open>
  The index of a virtual address at level \<open>k\<close> (0 = PML4), an entry in memory, and the table the
  hardware walk reaches at each level, if it gets that far.
\<close>

definition idx :: "nat \<Rightarrow> u64 \<Rightarrow> u64" where
  "idx k v = drop_bit (39 - 9 * k) v AND 0x1FF"

definition ent :: "mem \<Rightarrow> u64 \<Rightarrow> u64 \<Rightarrow> u64" where
  "ent m b i = rd64 m (b + 8 * i)"

fun node :: "mem \<Rightarrow> u64 \<Rightarrow> u64 \<Rightarrow> nat \<Rightarrow> u64 option" where
  "node m cr3 v 0 = Some cr3"
| "node m cr3 v (Suc k) =
     (case node m cr3 v k of None \<Rightarrow> None
      | Some b \<Rightarrow> if bit (ent m b (idx k v)) 0 \<and> \<not> (k = 2 \<and> bit (ent m b (idx k v)) 7)
                 then Some (tbl_addr (ent m b (idx k v))) else None)"

text \<open>Every entry of the walk down to level \<open>k\<close> has the user bit.\<close>

fun upath :: "mem \<Rightarrow> u64 \<Rightarrow> u64 \<Rightarrow> nat \<Rightarrow> bool" where
  "upath m cr3 v 0 = True"
| "upath m cr3 v (Suc k) =
     (upath m cr3 v k \<and> (case node m cr3 v k of None \<Rightarrow> False | Some b \<Rightarrow> bit (ent m b (idx k v)) 2))"

text \<open>The mapping a page-table root stands for: physical address and user-mode access.\<close>

definition pview :: "mem \<Rightarrow> u64 \<Rightarrow> u64 \<Rightarrow> (u64 \<times> bool) option" where
  "pview m cr3 v =
     (case node m cr3 v 2 of None \<Rightarrow> None | Some pd \<Rightarrow>
        let e = ent m pd (idx 2 v)
        in if \<not> bit e 0 then None
           else if bit e 7 then Some ((e AND NOT 0x1FFFFF) + (v AND 0x1FFFFF), upath m cr3 v 3)
           else case node m cr3 v 3 of None \<Rightarrow> None | Some pt \<Rightarrow>
             let p = ent m pt (idx 3 v)
             in if \<not> bit p 0 then None
                else Some ((p AND NOT 0xFFF) + (v AND 0xFFF), upath m cr3 v 4))"

definition agree :: "nat \<Rightarrow> u64 \<Rightarrow> u64 \<Rightarrow> bool" where
  "agree k v w \<longleftrightarrow> (\<forall>j < k. idx j v = idx j w)"

text \<open>
  The tables form a tree: no table is reached at two places, and none of them lies in a frame the
  physical memory manager considers free.
\<close>

definition pt_ok :: "mem \<Rightarrow> pmm \<Rightarrow> u64 \<Rightarrow> bool" where
  "pt_ok m P cr3 \<longleftrightarrow> page_aligned cr3 \<and>
     (\<forall>v w j k b. j < 4 \<and> k < 4 \<and> node m cr3 v j = Some b \<and> node m cr3 w k = Some b \<longrightarrow>
        j = k \<and> agree k v w) \<and>
     (\<forall>v k b. k < 4 \<and> node m cr3 v k = Some b \<longrightarrow> frame_index b \<notin> pmm_free_set P)"

lemma idx_less [simp]: "idx k v < 512"
proof -
  have "idx k v \<le> 0x1FF" unfolding idx_def by (rule word_and_le1)
  then show ?thesis by (simp add: word_le_nat_alt word_less_nat_alt)
qed

lemma idx_levels:
  "PML4_IDX v = idx 0 v" "PDPT_IDX v = idx 1 v" "PD_IDX v = idx 2 v" "PT_IDX v = idx 3 v"
  by (simp_all add: idx_def PML4_IDX_def PDPT_IDX_def PD_IDX_def PT_IDX_def)

lemma tbl_get_ent: "tbl_get s b i = ent (phys_mem s) b i"
  by (simp add: tbl_get_def ent_def)

lemma node_cong:
  assumes "\<And>j b. j < k \<Longrightarrow> node m cr3 v j = Some b \<Longrightarrow> ent m' b (idx j v) = ent m b (idx j v)"
  shows "node m' cr3 v k = node m cr3 v k"
  using assms by (induction k) (auto split: option.splits)

lemma upath_cong:
  assumes "\<And>j b. j < k \<Longrightarrow> node m cr3 v j = Some b \<Longrightarrow> ent m' b (idx j v) = ent m b (idx j v)"
  shows "upath m' cr3 v k = upath m cr3 v k"
  using assms
proof (induction k)
  case (Suc k)
  moreover have "node m' cr3 v k = node m cr3 v k" using Suc.prems by (intro node_cong) simp
  ultimately show ?case by (auto split: option.splits)
qed simp

lemma pview_cong:
  assumes "\<And>j b. j < 4 \<Longrightarrow> node m cr3 v j = Some b \<Longrightarrow> ent m' b (idx j v) = ent m b (idx j v)"
  shows "pview m' cr3 v = pview m cr3 v"
proof -
  have "node m' cr3 v 2 = node m cr3 v 2" "node m' cr3 v 3 = node m cr3 v 3"
    "upath m' cr3 v 3 = upath m cr3 v 3" "upath m' cr3 v 4 = upath m cr3 v 4"
    using assms by (auto intro!: node_cong upath_cong)
  then show ?thesis
    using assms [of 2] assms [of 3]
    by (auto simp: pview_def Let_def split: option.splits)
qed

lemma node_agree: "agree k v w \<Longrightarrow> node m cr3 v k = node m cr3 w k"
  by (induction k) (auto simp: agree_def split: option.splits)

lemma upath_agree: "agree k v w \<Longrightarrow> upath m cr3 v k = upath m cr3 w k"
proof (induction k)
  case (Suc k)
  then have "agree k v w" "idx k v = idx k w" by (auto simp: agree_def)
  with Suc.IH node_agree [of k v w m cr3] show ?case by (simp split: option.splits)
qed simp

lemma node_absent:
  assumes "node m cr3 v k = Some b" "\<not> bit (ent m b (idx k v)) 0" "k < j"
  shows "node m cr3 v j = None"
  using assms(3) by (induction j) (use assms in \<open>auto simp: less_Suc_eq\<close>)

lemma node_None: "node m cr3 v k = None \<Longrightarrow> k \<le> j \<Longrightarrow> node m cr3 v j = None"
  by (induction j) (auto simp: le_Suc_eq)

lemma node_3:
  "node m cr3 v 3 = (case node m cr3 v 2 of None \<Rightarrow> None
     | Some b \<Rightarrow> if bit (ent m b (idx 2 v)) 0 \<and> \<not> bit (ent m b (idx 2 v)) 7
                then Some (tbl_addr (ent m b (idx 2 v))) else None)"
  using node.simps(2) [of m cr3 v 2] by (simp add: eval_nat_numeral)

lemma pview_absent:
  assumes "node m cr3 v k = Some b" "\<not> bit (ent m b (idx k v)) 0" "k < 4"
  shows "pview m cr3 v = None"
proof -
  consider "k < 2" | "k = 2" | "k = 3" using assms(3) by linarith
  then show ?thesis
  proof cases
    case 1
    then show ?thesis using node_absent [OF assms(1,2), of 2] by (simp add: pview_def)
  qed (use assms in \<open>auto simp: pview_def Let_def node_3 split: option.splits if_splits\<close>)
qed

lemma pview_None_node: "node m cr3 v 2 = None \<Longrightarrow> pview m cr3 v = None"
  by (simp add: pview_def)

lemma page_aligned_node: "page_aligned cr3 \<Longrightarrow> node m cr3 v k = Some b \<Longrightarrow> page_aligned b"
  by (cases k) (auto split: option.splits if_splits)

text \<open>
  \<open>m'\<close> is \<open>m\<close> with entry \<open>i\<close> of the table \<open>T\<close> replaced, as far as the tables of \<open>cr3\<close> are concerned.
\<close>

definition pt_upd :: "mem \<Rightarrow> mem \<Rightarrow> u64 \<Rightarrow> u64 \<Rightarrow> u64 \<Rightarrow> u64 \<Rightarrow> bool" where
  "pt_upd m m' cr3 T i e \<longleftrightarrow> ent m' T i = e \<and>
     (\<forall>v j b i'. j < 4 \<and> node m cr3 v j = Some b \<and> i' < 512 \<and> (b, i') \<noteq> (T, i) \<longrightarrow>
        ent m' b i' = ent m b i')"

lemma pt_upd_outside:
  assumes "pt_ok m P cr3" "k < 4" "node m cr3 w k = Some T" "pt_upd m m' cr3 T (idx k w) e"
    and "\<not> agree (Suc k) v w"
  shows "j \<le> 4 \<Longrightarrow> node m' cr3 v j = node m cr3 v j" "pview m' cr3 v = pview m cr3 v"
    "j < 4 \<Longrightarrow> node m cr3 v j = Some b \<Longrightarrow> ent m' b (idx j v) = ent m b (idx j v)"
proof -
  have c: "ent m' b (idx j v) = ent m b (idx j v)" if "j < 4" "node m cr3 v j = Some b" for j b
  proof (cases "(b, idx j v) = (T, idx k w)")
    case True
    with assms(1,2,3) that have "j = k" "agree k v w" unfolding pt_ok_def by blast+
    with True have "agree (Suc k) v w" by (auto simp: agree_def less_Suc_eq)
    with assms(5) show ?thesis by simp
  next
    case False
    with that assms(4) idx_less [of j v] show ?thesis unfolding pt_upd_def by blast
  qed
  then show "j \<le> 4 \<Longrightarrow> node m' cr3 v j = node m cr3 v j" by (intro node_cong) simp
  from c show "pview m' cr3 v = pview m cr3 v" by (rule pview_cong)
  from c show "j < 4 \<Longrightarrow> node m cr3 v j = Some b \<Longrightarrow> ent m' b (idx j v) = ent m b (idx j v)" .
qed

lemma pt_upd_above:
  assumes "pt_ok m P cr3" "k < 4" "node m cr3 w k = Some T" "pt_upd m m' cr3 T (idx k w) e"
    and "agree (Suc k) v w" "j \<le> k"
  shows "node m' cr3 v j = node m cr3 v j" "upath m' cr3 v j = upath m cr3 v j"
    "i < j \<Longrightarrow> node m cr3 v i = Some b \<Longrightarrow> ent m' b (idx i v) = ent m b (idx i v)"
proof -
  have c: "ent m' b (idx i v) = ent m b (idx i v)" if "i < j" "node m cr3 v i = Some b" for i b
  proof -
    have "b \<noteq> T"
    proof
      assume "b = T"
      moreover have "i < 4" using that(1) assms(2,6) by simp
      ultimately have "i = k" using assms(1,2,3) that(2) unfolding pt_ok_def by blast
      with that assms(6) show False by simp
    qed
    moreover have "i < 4" using that(1) assms(2,6) by simp
    ultimately show ?thesis
      using that(2) assms(4) idx_less [of i v] unfolding pt_upd_def by blast
  qed
  from c show "node m' cr3 v j = node m cr3 v j" by (rule node_cong)
  from c show "upath m' cr3 v j = upath m cr3 v j" by (rule upath_cong)
  from c show "i < j \<Longrightarrow> node m cr3 v i = Some b \<Longrightarrow> ent m' b (idx i v) = ent m b (idx i v)" .
qed

lemma pt_upd_at:
  assumes "pt_ok m P cr3" "k < 4" "node m cr3 w k = Some T" "pt_upd m m' cr3 T (idx k w) e"
    and "agree (Suc k) v w"
  shows "node m' cr3 v k = Some T" "ent m' T (idx k v) = e"
proof -
  have "agree k v w" "idx k v = idx k w" using assms(5) by (auto simp: agree_def)
  then show "node m' cr3 v k = Some T" "ent m' T (idx k v) = e"
    using pt_upd_above [OF assms, of k] node_agree [of k v w m cr3] assms(3,4)
    by (simp_all add: pt_upd_def)
qed


text \<open>Every entry that is present in \<open>m\<close> is reached in \<open>m'\<close> unchanged.\<close>

definition keeps :: "mem \<Rightarrow> mem \<Rightarrow> u64 \<Rightarrow> bool" where
  "keeps m m' cr3 \<longleftrightarrow> (\<forall>v j b. j < 4 \<and> node m cr3 v j = Some b \<and> bit (ent m b (idx j v)) 0 \<longrightarrow>
     node m' cr3 v j = Some b \<and> ent m' b (idx j v) = ent m b (idx j v))"

lemma keeps_refl [simp]: "keeps m m cr3"
  by (simp add: keeps_def)

lemma keeps_trans: "keeps m m' cr3 \<Longrightarrow> keeps m' m'' cr3 \<Longrightarrow> keeps m m'' cr3"
  unfolding keeps_def by metis

lemma pt_upd_keeps:
  assumes "pt_ok m P cr3" "k < 4" "node m cr3 w k = Some T" "pt_upd m m' cr3 T (idx k w) e"
    and "\<not> bit (ent m T (idx k w)) 0"
  shows "keeps m m' cr3"
  unfolding keeps_def
proof (intro allI impI; elim conjE)
  fix v j b
  assume a: "j < 4" "node m cr3 v j = Some b" "bit (ent m b (idx j v)) 0"
  show "node m' cr3 v j = Some b \<and> ent m' b (idx j v) = ent m b (idx j v)"
  proof (cases "agree (Suc k) v w")
    case False
    then show ?thesis using pt_upd_outside [OF assms(1-4) False] a by auto
  next
    case True
    then have i: "idx k v = idx k w" "agree k v w" by (auto simp: agree_def)
    have n: "node m cr3 v k = Some T" using node_agree [OF i(2), of m cr3] assms(3) by simp
    have "\<not> k \<le> j"
    proof
      assume "k \<le> j"
      then consider "j = k" | "k < j" by linarith
      then show False
        using a n assms(5) node_absent [OF n, of j] i(1) by cases auto
    qed
    then show ?thesis using pt_upd_above(1,3) [OF assms(1-4) True] a
      by (metis linorder_not_le nle_le)
  qed
qed

section \<open>Stores into tables\<close>

lemma ent_wr64:
  assumes "page_aligned T" "page_aligned b" "i < 512" "i' < 512"
  shows "ent (wr64 m (T + 8 * i) e) b i' = (if (b, i') = (T, i) then e else ent m b i')"
proof (cases "(b, i') = (T, i)")
  case False
  then have "cells_apart (T + 8 * i) (b + 8 * i')"
    using slots_apart [OF assms(1,2,3,4)] by auto
  with False show ?thesis by (auto simp: ent_def rd64_wr64_other)
qed (simp add: ent_def)

lemma rd64_bytes:
  assumes "\<And>k. k < 8 \<Longrightarrow> m' (a + k) = m (b + k)"
  shows "rd64 m' a = rd64 m b"
  using assms [of 0] assms [of 1] assms [of 2] assms [of 3] assms [of 4] assms [of 5]
    assms [of 6] assms [of 7] by (simp add: rd64_def)

lemma zero_page_byte:
  assumes "page_aligned f" "page_aligned b" "x < 4096" "f \<noteq> 0"
  shows "pmm_zero_page m f (b + x) = (if b = f then 0 else m (b + x))"
proof -
  have "b = f" if "b + x - f < 4096"
    using page_decomp [OF assms(2,1,3) that] by simp
  with assms(3,4) show ?thesis
    by (auto simp: pmm_zero_page_def k_memset_apply PMM_FRAME_SIZE_def)
qed

lemma ent_zero_page:
  assumes "page_aligned f" "page_aligned b" "i < 512" "f \<noteq> 0"
  shows "ent (pmm_zero_page m f) b i = (if b = f then 0 else ent m b i)"
proof -
  have b: "pmm_zero_page m f (b + 8 * i + k) = (if b = f then 0 else m (b + 8 * i + k))"
    if "k < 8" for k
    using zero_page_byte [OF assms(1,2) slot_less [OF assms(3) that] assms(4)]
    by (simp add: add.assoc)
  show ?thesis
  proof (cases "b = f")
    case True
    then have "rd64 (pmm_zero_page m f) (b + 8 * i) = rd64 (\<lambda>_. 0) (b + 8 * i)"
      using b by (intro rd64_bytes) simp
    then show ?thesis using True by (simp add: ent_def rd64_def)
  next
    case False
    then show ?thesis using b by (auto simp: ent_def intro!: rd64_bytes)
  qed
qed

lemma pt_upd_wr64:
  assumes "page_aligned cr3" "page_aligned T" "i < 512"
  shows "pt_upd m (wr64 m (T + 8 * i) e) cr3 T i e"
  unfolding pt_upd_def using assms page_aligned_node [OF assms(1)]
  by (auto simp: ent_wr64)

lemma pt_upd_new:
  assumes "page_aligned cr3" "page_aligned T" "i < 512" "page_aligned f" "f \<noteq> 0"
    and "\<forall>v j b. j < 4 \<and> node m cr3 v j = Some b \<longrightarrow> b \<noteq> f"
  shows "pt_upd m (wr64 (pmm_zero_page m f) (T + 8 * i) e) cr3 T i e"
  unfolding pt_upd_def
proof (intro conjI allI impI)
  show "ent (wr64 (pmm_zero_page m f) (T + 8 * i) e) T i = e"
    using assms by (simp add: ent_wr64)
next
  fix v j b i'
  assume a: "j < 4 \<and> node m cr3 v j = Some b \<and> i' < 512 \<and> (b, i') \<noteq> (T, i)"
  then have "page_aligned b" using page_aligned_node [OF assms(1)] by auto
  moreover have "b \<noteq> f" using a assms(6) by blast
  ultimately show "ent (wr64 (pmm_zero_page m f) (T + 8 * i) e) b i' = ent m b i'"
    using a assms by (auto simp: ent_wr64 ent_zero_page)
qed

text \<open>Linking a fresh zeroed table changes no translation and keeps the tree.\<close>

lemma link_table:
  assumes ok: "pt_ok m P cr3" and k: "k < 3" and T: "node m cr3 w k = Some T"
    and absent: "\<not> bit (ent m T (idx k w)) 0"
    and f: "page_aligned f" "f \<noteq> 0" "\<forall>v j b. j < 4 \<and> node m cr3 v j = Some b \<longrightarrow> b \<noteq> f"
    and m': "m' = wr64 (pmm_zero_page m f) (T + 8 * idx k w) (f OR 7)"
  shows "pview m' cr3 v = pview m cr3 v"
    and "node m' cr3 v (Suc k) = (if agree (Suc k) v w then Some f else node m cr3 v (Suc k))"
    and "j < 4 \<Longrightarrow> node m' cr3 v j = Some b \<Longrightarrow>
           node m cr3 v j = Some b \<or> (b = f \<and> j = Suc k \<and> agree (Suc k) v w)"
    and "i < 512 \<Longrightarrow> ent m' f i = 0"
proof -
  have al: "page_aligned cr3" using ok by (simp add: pt_ok_def)
  have Tal: "page_aligned T" using page_aligned_node [OF al T] .
  have k4: "k < 4" using k by simp
  have Tf: "T \<noteq> f" using f(3) T k4 by blast
  have upd: "pt_upd m m' cr3 T (idx k w) (f OR 7)"
    unfolding m' using al Tal f by (intro pt_upd_new) auto
  have zero: "ent m' f i = 0" if "i < 512" for i
    using that Tal Tf f by (simp add: m' ent_wr64 ent_zero_page)
  then show "i < 512 \<Longrightarrow> ent m' f i = 0" .
  note at = pt_upd_at [OF ok k4 T upd] and out = pt_upd_outside [OF ok k4 T upd]
    and above = pt_upd_above [OF ok k4 T upd]
  have nf: "node m' cr3 v (Suc k) = Some f" if "agree (Suc k) v w" for v
    using at [OF that] table_entry [OF f(1)] by simp
  show "pview m' cr3 v = pview m cr3 v"
  proof (cases "agree (Suc k) v w")
    case True
    then have "node m cr3 v k = Some T" "idx k v = idx k w"
      using at(1) [OF True] above(1) [OF True, of k] by (auto simp: agree_def)
    with absent k4 have "pview m cr3 v = None" by (intro pview_absent [of m cr3 v k T]) auto
    moreover have "pview m' cr3 v = None"
      using nf [OF True] zero k by (intro pview_absent [of m' cr3 v "Suc k" f]) auto
    ultimately show ?thesis by simp
  qed (use out in auto)
  show "node m' cr3 v (Suc k) = (if agree (Suc k) v w then Some f else node m cr3 v (Suc k))"
    using nf [of v] out(1) [of v "Suc k"] k4
    by (cases "agree (Suc k) v w") (simp_all del: node.simps)
  assume j: "j < 4" "node m' cr3 v j = Some b"
  show "node m cr3 v j = Some b \<or> (b = f \<and> j = Suc k \<and> agree (Suc k) v w)"
  proof (cases "agree (Suc k) v w")
    case True
    consider "j \<le> k" | "j = Suc k" | "Suc k < j" by linarith
    then show ?thesis
    proof cases
      case 1 then show ?thesis using above(1) [OF True 1] j by simp
    next
      case 2 then show ?thesis using nf [OF True] j True by simp
    next
      case 3 then show ?thesis using node_absent [OF nf [OF True]] zero j by simp
    qed
  next
    case False
    then show ?thesis using out(1) [OF False] j by simp
  qed
qed

lemma link_table_ok:
  assumes ok: "pt_ok m P cr3" and k: "k < 3" and T: "node m cr3 w k = Some T"
    and absent: "\<not> bit (ent m T (idx k w)) 0"
    and f: "page_aligned f" "f \<noteq> 0" "frame_index f \<in> pmm_free_set P"
    and P': "pmm_free_set P' = pmm_free_set P - {frame_index f}"
    and m': "m' = wr64 (pmm_zero_page m f) (T + 8 * idx k w) (f OR 7)"
  shows "pt_ok m' P' cr3"
proof -
  have fresh: "\<forall>v j b. j < 4 \<and> node m cr3 v j = Some b \<longrightarrow> b \<noteq> f"
    using ok f(3) unfolding pt_ok_def by metis
  note l = link_table [OF ok k T absent f(1,2) fresh m']
  show ?thesis
    unfolding pt_ok_def
  proof (intro conjI allI impI; (elim conjE)?)
    show "page_aligned cr3" using ok by (simp add: pt_ok_def)
  next
    fix v x i j b
    assume a: "i < 4" "j < 4" "node m' cr3 v i = Some b" "node m' cr3 x j = Some b"
    from l(3) [OF a(1,3)] l(3) [OF a(2,4)]
    have "(i = j \<and> agree j v x)"
    proof (elim disjE)
      assume "node m cr3 v i = Some b" "node m cr3 x j = Some b"
      with ok a(1,2) show ?thesis unfolding pt_ok_def by blast
    next
      assume "node m cr3 v i = Some b" "b = f \<and> j = Suc k \<and> agree (Suc k) x w"
      with fresh a(1) show ?thesis by blast
    next
      assume "b = f \<and> i = Suc k \<and> agree (Suc k) v w" "node m cr3 x j = Some b"
      with fresh a(2) show ?thesis by blast
    next
      assume "b = f \<and> i = Suc k \<and> agree (Suc k) v w" "b = f \<and> j = Suc k \<and> agree (Suc k) x w"
      then show ?thesis by (simp add: agree_def)
    qed
    then show "i = j" "agree j v x" by auto
  next
    fix v j b assume a: "j < 4" "node m' cr3 v j = Some b"
    from l(3) [OF a] show "frame_index b \<notin> pmm_free_set P'"
      using ok a(1) P' unfolding pt_ok_def by blast
  qed
qed


text \<open>Every present entry on the walk to \<open>w\<close> above level \<open>n\<close> has the user bit.\<close>

definition utab :: "mem \<Rightarrow> u64 \<Rightarrow> u64 \<Rightarrow> nat \<Rightarrow> bool" where
  "utab m cr3 w n \<longleftrightarrow> (\<forall>j < n. \<forall>b. node m cr3 w j = Some b \<and> bit (ent m b (idx j w)) 0 \<longrightarrow>
     bit (ent m b (idx j w)) 2)"

lemma utab_Suc: "utab m cr3 w (Suc n) \<longleftrightarrow> utab m cr3 w n \<and>
   (\<forall>b. node m cr3 w n = Some b \<and> bit (ent m b (idx n w)) 0 \<longrightarrow> bit (ent m b (idx n w)) 2)"
  by (auto simp: utab_def less_Suc_eq)

lemma upath_utab: "node m cr3 w k = Some b \<Longrightarrow> upath m cr3 w k = utab m cr3 w k"
proof (induction k arbitrary: b)
  case 0
  then show ?case by (simp add: utab_def)
next
  case (Suc k)
  then obtain c where "node m cr3 w k = Some c" "bit (ent m c (idx k w)) 0"
    by (auto split: option.splits if_splits)
  with Suc.IH show ?case by (simp add: utab_Suc)
qed

lemma link_table_utab:
  assumes ok: "pt_ok m P cr3" and k: "k < 3" and T: "node m cr3 w k = Some T"
    and absent: "\<not> bit (ent m T (idx k w)) 0"
    and f: "page_aligned f" "f \<noteq> 0" "\<forall>v j b. j < 4 \<and> node m cr3 v j = Some b \<longrightarrow> b \<noteq> f"
    and m': "m' = wr64 (pmm_zero_page m f) (T + 8 * idx k w) (f OR 7)"
  shows "utab m' cr3 w n = utab m cr3 w n"
proof (induction n)
  case 0
  then show ?case by (simp add: utab_def)
next
  case (Suc n)
  have al: "page_aligned cr3" using ok by (simp add: pt_ok_def)
  have k4: "k < 4" using k by simp
  have upd: "pt_upd m m' cr3 T (idx k w) (f OR 7)"
    unfolding m' using al page_aligned_node [OF al T] f by (intro pt_upd_new) auto
  have ag: "agree (Suc k) w w" by (simp add: agree_def)
  note l = link_table [OF ok k T absent f m']
  have f': "node m' cr3 w (Suc k) = Some f" using l(2) [of w] ag by (simp del: node.simps)
  have z: "\<not> bit (ent m' f (idx (Suc k) w)) 0" using l(4) by simp
  consider "n < k" | "n = k" | "n = Suc k" | "Suc k < n" by linarith
  then show ?case
  proof cases
    case 1
    then show ?thesis
      using Suc pt_upd_above(1) [OF ok k4 T upd ag, of n] pt_upd_above(3) [OF ok k4 T upd ag, of k n]
      by (auto simp: utab_Suc)
  next
    case 2
    then show ?thesis
      using Suc pt_upd_at [OF ok k4 T upd ag] T absent table_entry [OF f(1)] by (auto simp: utab_Suc)
  next
    case 3
    then show ?thesis
      using Suc f' z node_absent [OF T absent, of n] by (simp add: utab_Suc del: node.simps)
  next
    case 4
    then show ?thesis
      using Suc node_absent [OF f' z, of n] node_absent [OF T absent, of n] by (simp add: utab_Suc)
  qed
qed

lemma leaf_write:
  assumes ok: "pt_ok m P cr3" and k: "k = 3 \<or> k = 2" and T: "node m cr3 w k = Some T"
    and m': "m' = wr64 m (T + 8 * idx k w) e"
    and old: "k = 2 \<Longrightarrow> \<not> bit (ent m T (idx k w)) 0 \<or> bit (ent m T (idx k w)) 7"
    and new: "k = 2 \<Longrightarrow> \<not> bit e 0 \<or> bit e 7"
  shows "j < 4 \<Longrightarrow> node m' cr3 v j = node m cr3 v j"
    and "pview m' cr3 v =
      (if \<not> agree (Suc k) v w then pview m cr3 v
       else if \<not> bit e 0 then None
       else Some (if k = 2 then (e AND NOT 0x1FFFFF) + (v AND 0x1FFFFF)
                  else (e AND NOT 0xFFF) + (v AND 0xFFF), utab m cr3 w k \<and> bit e 2))"
    and "j < 2 \<Longrightarrow> node m cr3 v j = Some b \<Longrightarrow> ent m' b (idx j v) = ent m b (idx j v)"
proof -
  have al: "page_aligned cr3" using ok by (simp add: pt_ok_def)
  have k4: "k < 4" using k by auto
  have upd: "pt_upd m m' cr3 T (idx k w) e"
    unfolding m' using al page_aligned_node [OF al T] by (intro pt_upd_wr64) auto
  note at = pt_upd_at [OF ok k4 T upd] and out = pt_upd_outside [OF ok k4 T upd]
    and above = pt_upd_above [OF ok k4 T upd]
  have n: "node m' cr3 v j = node m cr3 v j" if "j < 4" for j v
  proof (cases "agree (Suc k) v w")
    case True
    show ?thesis
    proof (cases "j \<le> k")
      case False
      with that k have kj: "k = 2" "j = 3" by auto
      have "node m cr3 v 2 = Some T" "idx 2 v = idx 2 w"
        using above(1) [OF True, of 2] at(1) [OF True] kj True by (auto simp: agree_def)
      then show ?thesis using at [OF True] old new by (auto simp: kj node_3)
    qed (use above(1) [OF True] in auto)
  qed (use out(1) that in auto)
  then show "j < 4 \<Longrightarrow> node m' cr3 v j = node m cr3 v j" .
  show "j < 2 \<Longrightarrow> node m cr3 v j = Some b \<Longrightarrow> ent m' b (idx j v) = ent m b (idx j v)"
    using out(3) [of v j b] above(3) [of v k j b] k by (cases "agree (Suc k) v w") auto
  show "pview m' cr3 v =
      (if \<not> agree (Suc k) v w then pview m cr3 v
       else if \<not> bit e 0 then None
       else Some (if k = 2 then (e AND NOT 0x1FFFFF) + (v AND 0x1FFFFF)
                  else (e AND NOT 0xFFF) + (v AND 0xFFF), utab m cr3 w k \<and> bit e 2))"
  proof (cases "agree (Suc k) v w")
    case True
    note at = at [OF True]
    have "upath m' cr3 v k = upath m cr3 v k" using above(2) [OF True] by simp
    also have "\<dots> = upath m cr3 w k" using True by (intro upath_agree) (auto simp: agree_def)
    also have "\<dots> = utab m cr3 w k" by (rule upath_utab [OF T])
    finally have up: "upath m' cr3 v k = utab m cr3 w k" .
    show ?thesis
    proof (cases "k = 2")
      case True
      have "upath m' cr3 v 3 = (upath m' cr3 v 2 \<and> bit e 2)"
        using upath.simps(2) [of m' cr3 v 2] at True by (simp add: eval_nat_numeral)
      then show ?thesis
        using at up new \<open>agree (Suc k) v w\<close> True by (auto simp: pview_def)
    next
      case False
      then have k3: "k = 3" using k by simp
      then obtain c where c: "node m' cr3 v 2 = Some c" "bit (ent m' c (idx 2 v)) 0"
        "\<not> bit (ent m' c (idx 2 v)) 7"
        using at(1) by (auto simp: node_3 split: option.splits if_splits)
      have "upath m' cr3 v 4 = (upath m' cr3 v 3 \<and> bit e 2)"
        using upath.simps(2) [of m' cr3 v 3] at k3 by (simp add: eval_nat_numeral)
      then show ?thesis
        using at up c \<open>agree (Suc k) v w\<close> k3 by (auto simp: pview_def)
    qed
  qed (use out in auto)
qed


section \<open>The operations on the abstract mapping\<close>

definition pm_inv :: "machine \<Rightarrow> u64 \<Rightarrow> bool" where
  "pm_inv s cr3 \<longleftrightarrow> pmm_ok (frames s) \<and> 0 \<notin> pmm_free_set (frames s) \<and>
     pt_ok (phys_mem s) (frames s) cr3"

text \<open>
  What the operations that add mappings have in common: they keep the present entries, take frames
  from the free ones only, and every table they add lies in such a frame.
\<close>

definition pt_ext :: "machine \<Rightarrow> machine \<Rightarrow> u64 \<Rightarrow> bool" where
  "pt_ext s s' cr3 \<longleftrightarrow> keeps (phys_mem s) (phys_mem s') cr3 \<and>
     pmm_free_set (frames s') \<subseteq> pmm_free_set (frames s) \<and>
     (\<forall>v j b. j < 4 \<and> node (phys_mem s') cr3 v j = Some b \<longrightarrow>
        node (phys_mem s) cr3 v j = Some b \<or> frame_index b \<in> pmm_free_set (frames s))"

lemma pt_ext_refl [simp]: "pt_ext s s cr3"
  by (simp add: pt_ext_def)

lemma pt_ext_trans: "pt_ext s s' cr3 \<Longrightarrow> pt_ext s' s'' cr3 \<Longrightarrow> pt_ext s s'' cr3"
  unfolding pt_ext_def using keeps_trans by blast

lemma new_table_spec:
  assumes inv: "pm_inv s cr3" and k: "k < 3" and T: "node (phys_mem s) cr3 w k = Some T"
    and absent: "\<not> bit (ent (phys_mem s) T (idx k w)) 0"
    and r: "new_table s T (idx k w) = (r, s')"
  shows "pm_inv s' cr3" "pview (phys_mem s') cr3 v = pview (phys_mem s) cr3 v"
    "utab (phys_mem s') cr3 w n = utab (phys_mem s) cr3 w n"
    "r = None \<Longrightarrow> s' = s \<and> pmm_free_set (frames s) = {}"
    "r = Some t \<Longrightarrow> node (phys_mem s') cr3 w (Suc k) = Some t \<and> (\<forall>i < 512. ent (phys_mem s') t i = 0)"
    "card (pmm_free_set (frames s)) \<le> Suc (card (pmm_free_set (frames s')))"
    "pt_ext s s' cr3"
proof -
  let ?P = "frames s"
  obtain f P' where f: "pmm_alloc_frame ?P = (f, P')" by force
  have P: "pmm_ok ?P" "0 \<notin> pmm_free_set ?P" and ok: "pt_ok (phys_mem s) ?P cr3"
    using inv by (auto simp: pm_inv_def)
  have all: "pm_inv s' cr3 \<and> pview (phys_mem s') cr3 v = pview (phys_mem s) cr3 v \<and>
      utab (phys_mem s') cr3 w n = utab (phys_mem s) cr3 w n \<and>
      (r = None \<longrightarrow> s' = s \<and> pmm_free_set ?P = {}) \<and>
      (\<forall>f. r = Some f \<longrightarrow> node (phys_mem s') cr3 w (Suc k) = Some f \<and>
         (\<forall>i < 512. ent (phys_mem s') f i = 0)) \<and>
      card (pmm_free_set ?P) \<le> Suc (card (pmm_free_set (frames s'))) \<and>
      pt_ext s s' cr3" for v n
  proof (cases "f = 0")
    case True
    then have "pmm_free_set ?P = {}" "P' = ?P" using pf.alloc_zero [OF P] f by auto
    moreover have "r = None" "s' = s\<lparr>frames := P'\<rparr>"
      using r f True by (auto simp: new_table_def alloc_frame_def)
    ultimately show ?thesis using inv by simp
  next
    case False
    have al: "page_aligned f" "frame_index f \<in> pmm_free_set ?P"
      "pmm_free_set P' = pmm_free_set ?P - {frame_index f}" "pmm_ok P'"
      using pf.alloc_nonzero [OF P] f False by (auto simp: page_aligned_def frame_index_def)
    have fresh: "\<forall>v j b. j < 4 \<and> node (phys_mem s) cr3 v j = Some b \<longrightarrow> b \<noteq> f"
      using ok al(2) unfolding pt_ok_def by metis
    have s': "r = Some f" "frames s' = P'"
      "phys_mem s' = wr64 (pmm_zero_page (phys_mem s) f) (T + 8 * idx k w) (f OR 7)"
      using r f False by (auto simp: new_table_def alloc_frame_def zero_page_def tbl_set_def)
    note l = link_table [OF ok k T absent al(1) False fresh s'(3)]
    have "keeps (phys_mem s) (phys_mem s') cr3"
    proof (rule pt_upd_keeps [OF ok _ T _ absent])
      have "page_aligned cr3" using ok by (simp add: pt_ok_def)
      then show "pt_upd (phys_mem s) (phys_mem s') cr3 T (idx k w) (f OR 7)"
        unfolding s'(3) using page_aligned_node [OF _ T] al False fresh by (intro pt_upd_new) auto
    qed (use k in simp)
    moreover have "pmm_free_set (frames s') \<subseteq> pmm_free_set ?P" using al(3) s'(2) by auto
    moreover have "\<forall>v j b. j < 4 \<and> node (phys_mem s') cr3 v j = Some b \<longrightarrow>
        node (phys_mem s) cr3 v j = Some b \<or> frame_index b \<in> pmm_free_set ?P"
      using l(3) al(2) by blast
    ultimately have "pt_ext s s' cr3" unfolding pt_ext_def by blast
    moreover have "pt_ok (phys_mem s') P' cr3"
      by (rule link_table_ok [OF ok k T absent al(1) False al(2) al(3) s'(3)])
    moreover have "node (phys_mem s') cr3 w (Suc k) = Some f"
      using l(2) [of w] by (simp add: agree_def del: node.simps)
    moreover have "utab (phys_mem s') cr3 w n = utab (phys_mem s) cr3 w n"
      by (rule link_table_utab [OF ok k T absent al(1) False fresh s'(3)])
    moreover have "card (pmm_free_set ?P) \<le> Suc (card (pmm_free_set P'))"
      using al(2,3) pf.avail_finite [of ?P] by (simp add: card_Diff_singleton)
    ultimately show ?thesis
      using P al l(1,4) s' by (auto simp: pm_inv_def simp del: node.simps)
  qed
  from all show "pm_inv s' cr3" "pview (phys_mem s') cr3 v = pview (phys_mem s) cr3 v"
    "utab (phys_mem s') cr3 w n = utab (phys_mem s) cr3 w n"
    "r = None \<Longrightarrow> s' = s \<and> pmm_free_set (frames s) = {}"
    "r = Some t \<Longrightarrow> node (phys_mem s') cr3 w (Suc k) = Some t \<and> (\<forall>i < 512. ent (phys_mem s') t i = 0)"
    "card (pmm_free_set (frames s)) \<le> Suc (card (pmm_free_set (frames s')))"
    "pt_ext s s' cr3"
    by (blast, metis, metis, blast, blast, blast, blast)
qed

lemma next_table_spec:
  assumes inv: "pm_inv s cr3" and k: "k < 2" and T: "node (phys_mem s) cr3 w k = Some T"
    and r: "next_table s T (idx k w) = (r, s')"
  shows "pm_inv s' cr3" "pview (phys_mem s') cr3 v = pview (phys_mem s) cr3 v"
    "utab (phys_mem s') cr3 w n = utab (phys_mem s) cr3 w n"
    "r = None \<Longrightarrow> s' = s \<and> pmm_free_set (frames s) = {}"
    "r = Some f \<Longrightarrow> node (phys_mem s') cr3 w (Suc k) = Some f"
    "card (pmm_free_set (frames s)) \<le> Suc (card (pmm_free_set (frames s')))"
    "pt_ext s s' cr3"
proof -
  have k3: "k < 3" using k by simp
  have "pm_inv s' cr3 \<and> pview (phys_mem s') cr3 v = pview (phys_mem s) cr3 v \<and>
      utab (phys_mem s') cr3 w n = utab (phys_mem s) cr3 w n \<and>
      (r = None \<longrightarrow> s' = s \<and> pmm_free_set (frames s) = {}) \<and>
      (r = Some f \<longrightarrow> node (phys_mem s') cr3 w (Suc k) = Some f) \<and>
      card (pmm_free_set (frames s)) \<le> Suc (card (pmm_free_set (frames s'))) \<and>
      pt_ext s s' cr3"
  proof (cases "bit (ent (phys_mem s) T (idx k w)) 0")
    case True
    then have "r = Some (tbl_addr (ent (phys_mem s) T (idx k w)))" "s' = s"
      using r by (auto simp: next_table_def tbl_get_ent flag_bit)
    then show ?thesis using inv T True k by simp
  next
    case False
    then have "new_table s T (idx k w) = (r, s')"
      using r by (simp add: next_table_def tbl_get_ent flag_bit)
    from new_table_spec [OF inv k3 T False this] show ?thesis by blast
  qed
  then show "pm_inv s' cr3" "pview (phys_mem s') cr3 v = pview (phys_mem s) cr3 v"
    "utab (phys_mem s') cr3 w n = utab (phys_mem s) cr3 w n"
    "r = None \<Longrightarrow> s' = s \<and> pmm_free_set (frames s) = {}"
    "r = Some f \<Longrightarrow> node (phys_mem s') cr3 w (Suc k) = Some f"
    "card (pmm_free_set (frames s)) \<le> Suc (card (pmm_free_set (frames s')))"
    "pt_ext s s' cr3"
    by blast+
qed

lemma pm_inv_same_nodes:
  assumes "pm_inv s cr3" "frames s' = frames s"
    "\<And>v j. j < 4 \<Longrightarrow> node (phys_mem s') cr3 v j = node (phys_mem s) cr3 v j"
  shows "pm_inv s' cr3"
  using assms unfolding pm_inv_def pt_ok_def by metis

lemma pte_bits:
  assumes "page_aligned phys" "flags AND NOT 0xFFF = 0"
    and "e = (phys AND NOT 0xFFF) OR flags OR PAGING_FLAG_PRESENT"
  shows "bit e 0" "e AND NOT 0xFFF = phys" "bit e 2 \<longleftrightarrow> flags AND 4 \<noteq> 0"
proof -
  have fl: "n < 12" if "bit flags n" for n
  proof (rule ccontr)
    assume "\<not> n < 12"
    moreover have "\<not> bit (flags AND NOT (mask 12)) n" using assms(2) by (simp add: mask_lits)
    ultimately show False
      using that bit_imp_le_length [OF that] by (simp add: bit_simps)
  qed
  note al = page_aligned_bit [OF assms(1)]
  show "bit e 0" by (simp add: assms(3) const_defs bit_simps)
  show "e AND NOT 0xFFF = phys"
    unfolding assms(3) const_defs mask_lits
    by (rule bit_word_eqI) (auto simp: bit_simps bit_1_iff dest: al fl)
  show "bit e 2 \<longleftrightarrow> flags AND 4 \<noteq> 0"
    unfolding flag_bit assms(3) const_defs mask_lits using al [of 2]
    by (auto simp: bit_simps bit_1_iff)
qed


lemma pview_mapped:
  assumes "node m cr3 v 2 = Some pd" "bit (ent m pd (idx 2 v)) 0"
    "bit (ent m pd (idx 2 v)) 7 \<or> bit (ent m (tbl_addr (ent m pd (idx 2 v))) (idx 3 v)) 0"
  shows "pview m cr3 v \<noteq> None"
  using assms by (auto simp: pview_def node_3 Let_def)

text \<open>The last step of \<open>paging_map\<close>: a leaf entry is written where none was present.\<close>

lemma leaf_map:
  assumes inv: "pm_inv s cr3" and k: "k = 3 \<or> k = 2" and T: "node (phys_mem s) cr3 w k = Some T"
    and absent: "\<not> bit (ent (phys_mem s) T (idx k w)) 0"
    and e: "bit e 0" "k = 2 \<Longrightarrow> bit e 7"
    and s': "s' = tbl_set s T (idx k w) e"
  shows "pm_inv s' cr3" "pview (phys_mem s) cr3 w = None"
    "pview (phys_mem s') cr3 v =
       (if agree (Suc k) v w
        then Some (if k = 2 then (e AND NOT 0x1FFFFF) + (v AND 0x1FFFFF)
                   else (e AND NOT 0xFFF) + (v AND 0xFFF), utab (phys_mem s) cr3 w k \<and> bit e 2)
        else pview (phys_mem s) cr3 v)"
    "pt_ext s s' cr3"
    "node (phys_mem s') cr3 w k = Some T \<and> ent (phys_mem s') T (idx k w) = e"
proof -
  have ok: "pt_ok (phys_mem s) (frames s) cr3" using inv by (simp add: pm_inv_def)
  have m': "phys_mem s' = wr64 (phys_mem s) (T + 8 * idx k w) e" "frames s' = frames s"
    using s' by (simp_all add: tbl_set_def)
  note l = leaf_write [OF ok k T m'(1)]
  have n: "j < 4 \<Longrightarrow> node (phys_mem s') cr3 v j = node (phys_mem s) cr3 v j" for v j
    using l(1) absent e by blast
  from pm_inv_same_nodes [OF inv m'(2) n] show "pm_inv s' cr3" .
  show "pview (phys_mem s) cr3 w = None" using pview_absent [OF T absent] k by auto
  show "pview (phys_mem s') cr3 v =
       (if agree (Suc k) v w
        then Some (if k = 2 then (e AND NOT 0x1FFFFF) + (v AND 0x1FFFFF)
                   else (e AND NOT 0xFFF) + (v AND 0xFFF), utab (phys_mem s) cr3 w k \<and> bit e 2)
        else pview (phys_mem s) cr3 v)"
    using l(2) [of v] absent e by (cases "k = 2") simp_all
  have "page_aligned cr3" using ok by (simp add: pt_ok_def)
  then have upd: "pt_upd (phys_mem s) (phys_mem s') cr3 T (idx k w) e"
    unfolding m' using page_aligned_node [OF _ T] by (intro pt_upd_wr64) auto
  have k4: "k < 4" using k by auto
  show "node (phys_mem s') cr3 w k = Some T \<and> ent (phys_mem s') T (idx k w) = e"
    using pt_upd_at [OF ok k4 T upd, of w] by (simp add: agree_def)
  have "keeps (phys_mem s) (phys_mem s') cr3" by (rule pt_upd_keeps [OF ok k4 T upd absent])
  then show "pt_ext s s' cr3" using n m'(2) by (auto simp: pt_ext_def)
qed

lemma walk_pd_spec:
  assumes inv: "pm_inv s cr3" and r: "walk_pd s cr3 w = (r, s')"
  shows "pm_inv s' cr3" "pview (phys_mem s') cr3 v = pview (phys_mem s) cr3 v"
    "utab (phys_mem s') cr3 w n = utab (phys_mem s) cr3 w n"
    "r = None \<Longrightarrow> card (pmm_free_set (frames s)) < 2"
    "r = Some pd \<Longrightarrow> node (phys_mem s') cr3 w 2 = Some pd"
    "card (pmm_free_set (frames s)) \<le> card (pmm_free_set (frames s')) + 2"
    "pt_ext s s' cr3"
proof -
  obtain r1 s1 where 1: "next_table s cr3 (idx 0 w) = (r1, s1)" by force
  have n0: "node (phys_mem s) cr3 w 0 = Some cr3" by simp
  note N1 = next_table_spec [OF inv _ n0 1, simplified]
  have "pm_inv s' cr3 \<and> pview (phys_mem s') cr3 v = pview (phys_mem s) cr3 v \<and>
      utab (phys_mem s') cr3 w n = utab (phys_mem s) cr3 w n \<and>
      (r = None \<longrightarrow> card (pmm_free_set (frames s)) < 2) \<and>
      (r = Some pd \<longrightarrow> node (phys_mem s') cr3 w 2 = Some pd) \<and>
      card (pmm_free_set (frames s)) \<le> card (pmm_free_set (frames s')) + 2 \<and>
      pt_ext s s' cr3"
  proof (cases r1)
    case None
    then have "r = None" "s' = s1" using r 1 by (simp_all add: walk_pd_def idx_levels)
    then show ?thesis using N1 None by simp
  next
    case (Some pdpt)
    then have 2: "next_table s1 pdpt (idx 1 w) = (r, s')"
      using r 1 by (simp add: walk_pd_def idx_levels)
    have n1: "node (phys_mem s1) cr3 w 1 = Some pdpt"
      using next_table_spec(5) [OF inv _ n0 1 Some] by simp
    note N2 = next_table_spec [OF N1(1) _ n1 2]
    have "pt_ext s s' cr3" using pt_ext_trans [OF N1(7) N2(7)] by simp
    moreover have "r = Some pd \<longrightarrow> node (phys_mem s') cr3 w 2 = Some pd"
      using N2(5) [of pd] by (simp add: eval_nat_numeral)
    moreover have "r = None \<longrightarrow> card (pmm_free_set (frames s)) < 2"
      using N2(4) N1(6) by auto
    ultimately show ?thesis using N1 N2 by simp
  qed
  then show "pm_inv s' cr3" "pview (phys_mem s') cr3 v = pview (phys_mem s) cr3 v"
    "utab (phys_mem s') cr3 w n = utab (phys_mem s) cr3 w n"
    "r = None \<Longrightarrow> card (pmm_free_set (frames s)) < 2"
    "r = Some pd \<Longrightarrow> node (phys_mem s') cr3 w 2 = Some pd"
    "card (pmm_free_set (frames s)) \<le> card (pmm_free_set (frames s')) + 2"
    "pt_ext s s' cr3"
    by blast+
qed

definition map_spec :: "machine \<Rightarrow> u64 \<Rightarrow> u64 \<Rightarrow> u64 \<Rightarrow> u64 \<Rightarrow> bool \<Rightarrow> machine \<Rightarrow> bool" where
  "map_spec s cr3 vaddr phys flags ok s' \<longleftrightarrow> pm_inv s' cr3 \<and> pt_ext s s' cr3 \<and>
     (ok \<longrightarrow> pview (phys_mem s) cr3 vaddr = None) \<and>
     (\<forall>v. pview (phys_mem s') cr3 v =
        (if ok \<and> agree 4 v vaddr
         then Some (phys + (v AND 0xFFF), utab (phys_mem s) cr3 vaddr 3 \<and> flags AND 4 \<noteq> 0)
         else pview (phys_mem s) cr3 v)) \<and>
     (ok \<longrightarrow> (\<exists>pt. node (phys_mem s') cr3 vaddr 3 = Some pt \<and> bit (ent (phys_mem s') pt (idx 3 vaddr)) 0 \<and>
        ent (phys_mem s') pt (idx 3 vaddr) AND NOT 0xFFF = phys)) \<and>
     (\<not> ok \<longrightarrow> pview (phys_mem s) cr3 vaddr \<noteq> None \<or> card (pmm_free_set (frames s)) < 3)"

lemma paging_map_impl:
  assumes inv: "pm_inv s cr3" and fl: "flags AND NOT 0xFFF = 0"
    and g: "PAGING_USER_BASE \<le> vaddr" "vaddr AND 0xFFF = 0" "phys AND 0xFFF = 0"
    and r: "paging_map s cr3 vaddr phys flags = (ok, s')"
  shows "map_spec s cr3 vaddr phys flags ok s'"
proof -
  let ?w = vaddr and ?m = "phys_mem s" and ?F = "\<lambda>s. card (pmm_free_set (frames s))"
  let ?e = "(phys AND NOT 0xFFF) OR flags OR PAGING_FLAG_PRESENT"
  have g': "\<not> (vaddr < PAGING_USER_BASE \<or> vaddr AND 0xFFF \<noteq> 0 \<or> phys AND 0xFFF \<noteq> 0)"
    using g by auto
  note e = pte_bits [OF _ fl refl, of phys, unfolded page_aligned_and, OF g(3)]
  obtain r2 s2 where 2: "walk_pd s cr3 ?w = (r2, s2)" by force
  note W = walk_pd_spec [OF inv 2]
  show ?thesis
  proof (cases r2)
    case None
    then show ?thesis using r 2 W g' by (simp add: paging_map_def map_spec_def)
  next
    case (Some pd)
    note n2 = W(5) [OF Some]
    let ?p = "ent (phys_mem s2) pd (idx 2 ?w)"
    have r': "(if bit ?p 0 \<and> \<not> bit ?p 7 then
              if bit (ent (phys_mem s2) (tbl_addr ?p) (idx 3 ?w)) 0 then (False, s2)
              else (True, tbl_set s2 (tbl_addr ?p) (idx 3 ?w) ?e)
            else if bit ?p 0 then (False, s2)
            else case new_table s2 pd (idx 2 ?w) of
                   (None, s) \<Rightarrow> (False, s)
                 | (Some pt, s) \<Rightarrow> (True, tbl_set s pt (idx 3 ?w) ?e)) = (ok, s')"
      using r [unfolded paging_map_def idx_levels tbl_get_ent flag_bit PAGING_FLAG_LARGE_def
          Let_def not_not] 2 Some g'
      by (simp only: flag_bit not_not if_False prod.case option.case)
    consider (huge) "bit ?p 0" "bit ?p 7" | (pt) "bit ?p 0" "\<not> bit ?p 7" | (none) "\<not> bit ?p 0" by blast
    then show ?thesis
    proof cases
      case huge
      then show ?thesis using r' W pview_mapped [OF n2] by (auto simp: map_spec_def)
    next
      case pt
      have n3: "node (phys_mem s2) cr3 ?w 3 = Some (tbl_addr ?p)" using pt n2 by (simp add: node_3)
      show ?thesis
      proof (cases "bit (ent (phys_mem s2) (tbl_addr ?p) (idx 3 ?w)) 0")
        case True
        then show ?thesis using r' pt W pview_mapped [OF n2] by (auto simp: map_spec_def)
      next
        case False
        then have s': "ok" "s' = tbl_set s2 (tbl_addr ?p) (idx 3 ?w) ?e" using r' pt by auto
        note L = leaf_map [OF W(1) _ n3 False e(1) _ s'(2)]
        have "pt_ext s s' cr3" using pt_ext_trans [OF W(7) L(4)] by simp
        with L s'(1) W(2,3) e show ?thesis by (simp add: map_spec_def)
      qed
    next
      case none
      obtain r3 s3 where 3: "new_table s2 pd (idx 2 ?w) = (r3, s3)" by force
      note N3 = new_table_spec [OF W(1) _ n2 none 3]
      show ?thesis
      proof (cases r3)
        case None
        then show ?thesis using r' none 3 W N3(4) by (auto simp: map_spec_def)
      next
        case (Some pt)
        have n3: "node (phys_mem s3) cr3 ?w 3 = Some pt"
          and z: "\<not> bit (ent (phys_mem s3) pt (idx 3 ?w)) 0"
          using N3(5) [OF _ Some] by (simp_all add: eval_nat_numeral)
        have s': "ok" "s' = tbl_set s3 pt (idx 3 ?w) ?e" using r' none 3 Some by auto
        have inv3: "pm_inv s3 cr3" using N3(1) by simp
        note L = leaf_map [OF inv3 _ n3 z e(1) _ s'(2)]
        have "pt_ext s s' cr3"
          using pt_ext_trans [OF pt_ext_trans [OF W(7) N3(7)] L(4)] by simp
        with L s'(1) W(2,3) N3(2,3) e show ?thesis by (simp add: map_spec_def)
      qed
    qed
  qed
qed


lemma paging_map_guard:
  "vaddr < PAGING_USER_BASE \<or> vaddr AND 0xFFF \<noteq> 0 \<or> phys AND 0xFFF \<noteq> 0 \<Longrightarrow>
   paging_map s cr3 vaddr phys flags = (False, s)"
  unfolding paging_map_def by (rule if_P)

lemma huge_bits:
  assumes "phys AND 0x1FFFFF = 0" "flags AND NOT 0xFFF = 0"
    and "e = (phys AND NOT 0x1FFFFF) OR flags OR PAGING_FLAG_LARGE OR PAGING_FLAG_PRESENT"
  shows "bit e 0" "bit e 7" "e AND NOT 0x1FFFFF = phys" "bit e 2 \<longleftrightarrow> flags AND 4 \<noteq> 0"
proof -
  have fl: "n < 12" if "bit flags n" for n
  proof (rule ccontr)
    assume "\<not> n < 12"
    moreover have "\<not> bit (flags AND NOT (mask 12)) n" using assms(2) by (simp add: mask_lits)
    ultimately show False
      using that bit_imp_le_length [OF that] by (simp add: bit_simps)
  qed
  have al: "21 \<le> n" if "bit phys n" for n
  proof (rule ccontr)
    assume "\<not> 21 \<le> n"
    moreover have "\<not> bit (phys AND mask 21) n" using assms(1) by (simp add: mask_lits)
    ultimately show False using that by (simp add: bit_simps)
  qed
  have large: "(0x80 :: u64) = 2 ^ 7" by simp
  have "take_bit 8 (129 :: int) = 129" by simp
  then have low: "n < 8" if "bit (129 :: int) n" for n using that by (metis bit_take_bit_iff)
  show "bit e 0" "bit e 7"
    unfolding assms(3) const_defs large by (auto simp: bit_simps bit_1_iff bit_exp_iff)
  show "e AND NOT 0x1FFFFF = phys"
    unfolding assms(3) const_defs mask_lits large
    by (rule bit_word_eqI) (auto simp: bit_simps bit_1_iff bit_exp_iff dest: al fl low)
  show "bit e 2 \<longleftrightarrow> flags AND 4 \<noteq> 0"
    unfolding flag_bit assms(3) const_defs mask_lits large using al [of 2]
    by (auto simp: bit_simps bit_1_iff bit_exp_iff)
qed

lemma paging_map_large_impl:
  assumes inv: "pm_inv s cr3" and fl: "flags AND NOT 0xFFF = 0"
    and r: "paging_map_large s cr3 vaddr phys flags = (ok, s')"
  shows "pm_inv s' cr3" "pt_ext s s' cr3"
    "pview (phys_mem s') cr3 v =
       (if ok \<and> agree 3 v vaddr
        then Some (phys + (v AND 0x1FFFFF), utab (phys_mem s) cr3 vaddr 2 \<and> flags AND 4 \<noteq> 0)
        else pview (phys_mem s) cr3 v)"
    "ok \<Longrightarrow> agree 3 v vaddr \<Longrightarrow> pview (phys_mem s) cr3 v = None"
proof -
  let ?e = "(phys AND NOT 0x1FFFFF) OR flags OR PAGING_FLAG_LARGE OR PAGING_FLAG_PRESENT"
  have hm: "PAGING_HUGE - 1 = 0x1FFFFF" by (simp add: const_defs)
  have "pm_inv s' cr3 \<and> pt_ext s s' cr3 \<and>
    pview (phys_mem s') cr3 v =
       (if ok \<and> agree 3 v vaddr
        then Some (phys + (v AND 0x1FFFFF), utab (phys_mem s) cr3 vaddr 2 \<and> flags AND 4 \<noteq> 0)
        else pview (phys_mem s) cr3 v) \<and>
    (ok \<and> agree 3 v vaddr \<longrightarrow> pview (phys_mem s) cr3 v = None)"
  proof (cases "vaddr < PAGING_USER_BASE \<or> vaddr AND 0x1FFFFF \<noteq> 0 \<or> phys AND 0x1FFFFF \<noteq> 0")
    case True
    then have "(ok, s') = (False, s)" using r unfolding paging_map_large_def hm by simp
    then show ?thesis using inv by simp
  next
    case False
    then have g: "phys AND 0x1FFFFF = 0" by simp
    note e = huge_bits [OF g fl refl]
    obtain r2 s2 where 2: "walk_pd s cr3 vaddr = (r2, s2)" by force
    note W = walk_pd_spec [OF inv 2]
    have r': "(case r2 of None \<Rightarrow> (False, s2) | Some pd \<Rightarrow>
        if bit (ent (phys_mem s2) pd (idx 2 vaddr)) 0 then (False, s2)
        else (True, tbl_set s2 pd (idx 2 vaddr) ?e)) = (ok, s')"
      using r [unfolded paging_map_large_def idx_levels tbl_get_ent flag_bit hm not_not] 2 False
      by (simp only: flag_bit not_not if_False prod.case)
    consider "r2 = None" | pd where "r2 = Some pd" "bit (ent (phys_mem s2) pd (idx 2 vaddr)) 0"
      | pd where "r2 = Some pd" "\<not> bit (ent (phys_mem s2) pd (idx 2 vaddr)) 0" by (cases r2) auto
    then show ?thesis
    proof cases
      case 1
      with r' have "\<not> ok" "s' = s2" by simp_all
      then show ?thesis using W by simp
    next
      case 2
      with r' have "\<not> ok" "s' = s2" by simp_all
      then show ?thesis using W by simp
    next
      case (3 pd)
      note n2 = W(5) [OF 3(1)]
      have s': "ok" "s' = tbl_set s2 pd (idx 2 vaddr) ?e" using r' 3 by simp_all
      note L = leaf_map [OF W(1) _ n2 3(2) e(1,2) s'(2)]
      have "pt_ext s s' cr3" using pt_ext_trans [OF W(7) L(4)] by simp
      moreover have "pview (phys_mem s) cr3 v = None" if "agree 3 v vaddr"
      proof -
        have ag: "agree 2 v vaddr" "idx 2 v = idx 2 vaddr" using that by (auto simp: agree_def)
        have "node (phys_mem s2) cr3 v 2 = Some pd" using node_agree [OF ag(1)] n2 by simp
        then have "pview (phys_mem s2) cr3 v = None"
          using 3(2) ag(2) by (intro pview_absent [of _ _ _ 2 pd]) auto
        then show ?thesis using W(2) by simp
      qed
      ultimately show ?thesis using L s'(1) W(2,3) e by simp
    qed
  qed
  then show "pm_inv s' cr3" "pt_ext s s' cr3"
    "pview (phys_mem s') cr3 v =
       (if ok \<and> agree 3 v vaddr
        then Some (phys + (v AND 0x1FFFFF), utab (phys_mem s) cr3 vaddr 2 \<and> flags AND 4 \<noteq> 0)
        else pview (phys_mem s) cr3 v)"
    "ok \<Longrightarrow> agree 3 v vaddr \<Longrightarrow> pview (phys_mem s) cr3 v = None"
    by blast+
qed

lemma translate_pview:
  "paging_translate s cr3 v = (case pview (phys_mem s) cr3 v of None \<Rightarrow> 0 | Some (p, u) \<Rightarrow> p)"
proof -
  let ?m = "phys_mem s"
  have n1: "node ?m cr3 v 1 = (if bit (ent ?m cr3 (idx 0 v)) 0
      then Some (tbl_addr (ent ?m cr3 (idx 0 v))) else None)" by simp
  have n2: "node ?m cr3 v 2 = (case node ?m cr3 v 1 of None \<Rightarrow> None
     | Some b \<Rightarrow> if bit (ent ?m b (idx 1 v)) 0 then Some (tbl_addr (ent ?m b (idx 1 v))) else None)"
    using node.simps(2) [of ?m cr3 v 1] by (simp add: eval_nat_numeral)
  have hm: "PAGING_HUGE - 1 = 0x1FFFFF" by (simp add: const_defs)
  show ?thesis
    unfolding paging_translate_def idx_levels tbl_get_ent flag_bit PAGING_FLAG_LARGE_def Let_def hm
      pview_def node_3 n2 n1
    by simp
qed


section \<open>Unmapping\<close>

text \<open>The physical pages behind a virtual address, and how many indices identify its mapping.\<close>

definition backing :: "mem \<Rightarrow> u64 \<Rightarrow> u64 \<Rightarrow> u64 set" where
  "backing m cr3 v =
     (case node m cr3 v 2 of None \<Rightarrow> {} | Some pd \<Rightarrow>
        let e = ent m pd (idx 2 v)
        in if \<not> bit e 0 then {}
           else if bit e 7 then (\<lambda>k. (e AND NOT 0x1FFFFF) + of_nat k * PAGING_PAGE) ` {..<512}
           else case node m cr3 v 3 of None \<Rightarrow> {} | Some pt \<Rightarrow>
             if bit (ent m pt (idx 3 v)) 0 then {ent m pt (idx 3 v) AND NOT 0xFFF} else {})"

definition page_depth :: "mem \<Rightarrow> u64 \<Rightarrow> u64 \<Rightarrow> nat" where
  "page_depth m cr3 v =
     (case node m cr3 v 2 of None \<Rightarrow> 4 | Some pd \<Rightarrow>
        if bit (ent m pd (idx 2 v)) 0 \<and> bit (ent m pd (idx 2 v)) 7 then 3 else 4)"

text \<open>The pages behind \<open>v\<close> are data pages: none of them is page 0 or one of the tables.\<close>

definition data_pages :: "machine \<Rightarrow> u64 \<Rightarrow> u64 \<Rightarrow> bool" where
  "data_pages s cr3 v \<longleftrightarrow> (\<forall>a \<in> backing (phys_mem s) cr3 v. frame_index a \<noteq> 0 \<and>
     (\<forall>w j b. j < 4 \<and> node (phys_mem s) cr3 w j = Some b \<longrightarrow> frame_index b \<noteq> frame_index a))"

lemma free_frames_fold:
  "phys_mem (foldl (\<lambda>s k. free_frame s (g k)) s ks) = phys_mem s"
  "pmm_ok (frames s) \<Longrightarrow> pmm_ok (frames (foldl (\<lambda>s k. free_frame s (g k)) s ks))"
  "pmm_free_set (frames (foldl (\<lambda>s k. free_frame s (g k)) s ks)) =
     pmm_free_set (frames s) \<union> (frame_index ` g ` set ks \<inter> {..<PMM_MAX_FRAMES})"
  by (induction ks arbitrary: s) (auto simp: free_frame_def pmm_free_frame_spec)

lemma free_huge_spec:
  "phys_mem (free_huge s base) = phys_mem s" "pmm_ok (frames s) \<Longrightarrow> pmm_ok (frames (free_huge s base))"
  "pmm_free_set (frames (free_huge s base)) = pmm_free_set (frames s) \<union>
     (frame_index ` (\<lambda>k. base + of_nat k * PAGING_PAGE) ` {..<512} \<inter> {..<PMM_MAX_FRAMES})"
  unfolding free_huge_def by (simp_all add: free_frames_fold atLeast0LessThan)

lemma node_12:
  "node m cr3 v 1 = (if bit (ent m cr3 (idx 0 v)) 0
      then Some (tbl_addr (ent m cr3 (idx 0 v))) else None)"
  "node m cr3 v 2 = (case node m cr3 v 1 of None \<Rightarrow> None
     | Some b \<Rightarrow> if bit (ent m b (idx 1 v)) 0 then Some (tbl_addr (ent m b (idx 1 v))) else None)"
  using node.simps(2) [of m cr3 v 1] by (simp_all add: eval_nat_numeral)

lemma paging_unmap_eq:
  assumes "PAGING_USER_BASE \<le> v"
  shows "paging_unmap s cr3 v =
     (case node (phys_mem s) cr3 v 2 of None \<Rightarrow> s | Some pd \<Rightarrow>
        let e = ent (phys_mem s) pd (idx 2 v)
        in if \<not> bit e 0 then s
           else if bit e 7 then tbl_set (free_huge s (e AND NOT 0x1FFFFF)) pd (idx 2 v) 0
           else case node (phys_mem s) cr3 v 3 of None \<Rightarrow> s | Some pt \<Rightarrow>
             if bit (ent (phys_mem s) pt (idx 3 v)) 0
             then tbl_set (free_frame s (ent (phys_mem s) pt (idx 3 v) AND NOT 0xFFF)) pt (idx 3 v) 0
             else s)"
proof -
  have "\<not> v < PAGING_USER_BASE" using assms by simp
  then show ?thesis
    unfolding paging_unmap_def idx_levels tbl_get_ent flag_bit PAGING_FLAG_LARGE_def Let_def node_3
      node_12
    by simp
qed

lemma unmap_leaf:
  assumes inv: "pm_inv s cr3" and k: "k = 3 \<or> k = 2" and T: "node (phys_mem s) cr3 w k = Some T"
    and old: "k = 2 \<Longrightarrow> bit (ent (phys_mem s) T (idx k w)) 7"
    and s0: "phys_mem s0 = phys_mem s" "pmm_ok (frames s0)"
    and fr: "pmm_free_set (frames s0) = pmm_free_set (frames s) \<union> (frame_index ` B \<inter> {..<PMM_MAX_FRAMES})"
    and B: "\<forall>a \<in> B. frame_index a \<noteq> 0 \<and>
     (\<forall>w j b. j < 4 \<and> node (phys_mem s) cr3 w j = Some b \<longrightarrow> frame_index b \<noteq> frame_index a)"
    and s': "s' = tbl_set s0 T (idx k w) 0"
  shows "pm_inv s' cr3"
    "pview (phys_mem s') cr3 v = (if agree (Suc k) v w then None else pview (phys_mem s) cr3 v)"
    "pmm_free_set (frames s') = pmm_free_set (frames s) \<union> (frame_index ` B \<inter> {..<PMM_MAX_FRAMES})"
    "j < 2 \<Longrightarrow> node (phys_mem s) cr3 v j = Some b \<Longrightarrow> node (phys_mem s') cr3 v j = Some b \<and>
       ent (phys_mem s') b (idx j v) = ent (phys_mem s) b (idx j v)"
proof -
  have ok: "pt_ok (phys_mem s) (frames s) cr3" using inv by (simp add: pm_inv_def)
  have m': "phys_mem s' = wr64 (phys_mem s) (T + 8 * idx k w) 0" and f': "frames s' = frames s0"
    using s' s0(1) by (simp_all add: tbl_set_def)
  have o: "k = 2 \<Longrightarrow> \<not> bit (ent (phys_mem s) T (idx k w)) 0 \<or> bit (ent (phys_mem s) T (idx k w)) 7"
    and n: "k = 2 \<Longrightarrow> \<not> bit (0 :: u64) 0 \<or> bit (0 :: u64) 7"
    using old by auto
  note l = leaf_write [OF ok k T m' o n]
  have nodes: "node (phys_mem s') cr3 v j = node (phys_mem s) cr3 v j" if "j < 4" for v j
    using l(1) that by auto
  have "pt_ok (phys_mem s') (frames s') cr3"
    unfolding pt_ok_def
  proof (intro conjI allI impI; (elim conjE)?)
    show "page_aligned cr3" using ok by (simp add: pt_ok_def)
  next
    fix v w j k b
    assume "j < 4" "k < 4" "node (phys_mem s') cr3 v j = Some b" "node (phys_mem s') cr3 w k = Some b"
    then show "j = k" "agree k v w" using ok nodes unfolding pt_ok_def by metis+
  next
    fix v k b assume a: "k < 4" "node (phys_mem s') cr3 v k = Some b"
    then have "node (phys_mem s) cr3 v k = Some b" using nodes by simp
    with a ok B show "frame_index b \<notin> pmm_free_set (frames s')"
      unfolding f' fr pt_ok_def by blast
  qed
  moreover have "0 \<notin> pmm_free_set (frames s')"
    using inv B unfolding f' fr pm_inv_def by auto
  ultimately show "pm_inv s' cr3" using s0(2) f' by (simp add: pm_inv_def)
  show "pview (phys_mem s') cr3 v = (if agree (Suc k) v w then None else pview (phys_mem s) cr3 v)"
    using l(2) by simp
  show "pmm_free_set (frames s') = pmm_free_set (frames s) \<union> (frame_index ` B \<inter> {..<PMM_MAX_FRAMES})"
    by (simp add: f' fr)
  show "j < 2 \<Longrightarrow> node (phys_mem s) cr3 v j = Some b \<Longrightarrow> node (phys_mem s') cr3 v j = Some b \<and>
       ent (phys_mem s') b (idx j v) = ent (phys_mem s) b (idx j v)"
    using l(3) nodes by auto
qed

lemma agree_pview_None:
  assumes "agree 4 v w" "node m cr3 w k = Some b" "\<not> bit (ent m b (idx k w)) 0" "k < 4"
  shows "pview m cr3 v = None"
proof -
  have "agree k v w" "idx k v = idx k w" using assms by (auto simp: agree_def)
  then show ?thesis
    using pview_absent [of m cr3 v k b] node_agree [of k v w m cr3] assms by simp
qed

lemma pview_agree_None: "agree 4 v w \<Longrightarrow> pview m cr3 w = None \<Longrightarrow> pview m cr3 v = None"
proof -
  assume ag: "agree 4 v w" and n: "pview m cr3 w = None"
  have "agree 2 v w" "agree 3 v w" "idx 2 v = idx 2 w" "idx 3 v = idx 3 w"
    using ag by (auto simp: agree_def)
  then have "node m cr3 v 2 = node m cr3 w 2" "node m cr3 v 3 = node m cr3 w 3"
    "idx 2 v = idx 2 w" "idx 3 v = idx 3 w" using node_agree by auto
  with n show ?thesis by (auto simp: pview_def Let_def split: option.splits if_splits)
qed

definition unmap_spec :: "machine \<Rightarrow> u64 \<Rightarrow> u64 \<Rightarrow> machine \<Rightarrow> bool" where
  "unmap_spec s cr3 w s' \<longleftrightarrow> pm_inv s' cr3 \<and>
     (\<forall>v. pview (phys_mem s') cr3 v =
        (if agree (page_depth (phys_mem s) cr3 w) v w then None else pview (phys_mem s) cr3 v)) \<and>
     pmm_free_set (frames s') = pmm_free_set (frames s) \<union>
       (frame_index ` backing (phys_mem s) cr3 w \<inter> {..<PMM_MAX_FRAMES}) \<and>
     (\<forall>v j b. j < 2 \<and> node (phys_mem s) cr3 v j = Some b \<longrightarrow> node (phys_mem s') cr3 v j = Some b \<and>
       ent (phys_mem s') b (idx j v) = ent (phys_mem s) b (idx j v))"

lemma paging_unmap_impl:
  assumes inv: "pm_inv s cr3" and g: "PAGING_USER_BASE \<le> w" and d: "data_pages s cr3 w"
  shows "unmap_spec s cr3 w (paging_unmap s cr3 w)"
proof (cases "node (phys_mem s) cr3 w 2")
  case None
  have "pview (phys_mem s) cr3 v = None" if "agree 4 v w" for v
    using node_agree [of 2 v w] None that by (intro pview_None_node) (auto simp: agree_def)
  with None inv show ?thesis
    by (simp add: unmap_spec_def paging_unmap_eq [OF g] page_depth_def backing_def)
next
  case (Some pd)
  let ?m = "phys_mem s" and ?e = "ent (phys_mem s) pd (idx 2 w)"
  have P: "pmm_ok (frames s)" using inv by (simp add: pm_inv_def)
  consider (none) "\<not> bit ?e 0" | (huge) "bit ?e 0" "bit ?e 7" | (pt) "bit ?e 0" "\<not> bit ?e 7" by blast
  then show ?thesis
  proof cases
    case none
    then show ?thesis
      using Some inv agree_pview_None [OF _ Some none]
      by (simp add: unmap_spec_def paging_unmap_eq [OF g] page_depth_def backing_def)
  next
    case huge
    let ?b = "?e AND NOT 0x1FFFFF"
    have bk: "backing ?m cr3 w = (\<lambda>k. ?b + of_nat k * PAGING_PAGE) ` {..<512}"
      and pd: "page_depth ?m cr3 w = Suc 2"
      and u: "paging_unmap s cr3 w = tbl_set (free_huge s ?b) pd (idx 2 w) 0"
      using Some huge by (simp_all add: backing_def page_depth_def paging_unmap_eq [OF g])
    show ?thesis
      using unmap_leaf [OF inv _ Some _ free_huge_spec(1,2) free_huge_spec(3) _ u, OF _ _ P] huge d
      unfolding unmap_spec_def data_pages_def bk pd by simp
  next
    case pt
    then have n3: "node ?m cr3 w 3 = Some (tbl_addr ?e)" using Some by (simp add: node_3)
    let ?p = "ent ?m (tbl_addr ?e) (idx 3 w)"
    have pd: "page_depth ?m cr3 w = 4" using Some pt by (simp add: page_depth_def)
    show ?thesis
    proof (cases "bit ?p 0")
      case True
      let ?s0 = "free_frame s (?p AND NOT 0xFFF)"
      have bk: "backing ?m cr3 w = {?p AND NOT 0xFFF}"
        and u: "paging_unmap s cr3 w = tbl_set ?s0 (tbl_addr ?e) (idx 3 w) 0"
        using Some pt n3 True by (simp_all add: backing_def paging_unmap_eq [OF g] Let_def)
      have s0: "phys_mem ?s0 = ?m" "pmm_ok (frames ?s0)" "pmm_free_set (frames ?s0) =
          pmm_free_set (frames s) \<union> (frame_index ` {?p AND NOT 0xFFF} \<inter> {..<PMM_MAX_FRAMES})"
        using P pmm_free_frame_spec by (auto simp: free_frame_def)
      show ?thesis
        using unmap_leaf [OF inv _ n3 _ s0 _ u] d
        unfolding unmap_spec_def data_pages_def bk pd by simp
    next
      case False
      then show ?thesis
        using Some pt n3 inv pd agree_pview_None [OF _ n3 False]
        by (simp add: unmap_spec_def paging_unmap_eq [OF g] backing_def)
    qed
  qed
qed


section \<open>Kernel memory is out of reach of user mode\<close>

text \<open>
  The entry that covers the first GiB is present and lacks the user bit. This is what every
  address space starts with and what its operations keep.
\<close>

definition kernel_guard :: "mem \<Rightarrow> u64 \<Rightarrow> bool" where
  "kernel_guard m cr3 \<longleftrightarrow> (\<exists>pdpt. node m cr3 0 1 = Some pdpt \<and>
     bit (ent m pdpt 0) 0 \<and> \<not> bit (ent m pdpt 0) 2)"

lemma idx_zero [simp]: "idx k 0 = 0"
  by (simp add: idx_def)

lemma low_idx: "v < PAGING_USER_BASE \<Longrightarrow> idx 0 v = 0 \<and> idx 1 v = 0"
proof -
  assume "v < PAGING_USER_BASE"
  then have v: "unat v < 2 ^ 30" by (simp add: const_defs word_less_nat_alt)
  have "drop_bit k v = 0" if "30 \<le> k" for k
  proof -
    have "unat v < 2 ^ k" using v that by (meson one_le_numeral order_less_le_trans power_increasing)
    moreover have "take_bit 64 (unat v) = unat v"
      using v by (intro take_bit_nat_eq_self) simp
    ultimately have "unat (drop_bit k v) = 0"
      by (simp add: unsigned_drop_bit_eq) (simp add: drop_bit_eq_div)
    then show ?thesis by (simp add: unat_eq_zero)
  qed
  then show ?thesis by (simp add: idx_def)
qed

lemma upath_mono: "upath m cr3 v j \<Longrightarrow> k \<le> j \<Longrightarrow> upath m cr3 v k"
  by (induction j) (auto simp: le_Suc_eq)

lemma kernel_guard_hidden:
  assumes "kernel_guard m cr3" "v < PAGING_USER_BASE" "pview m cr3 v = Some (p, u)"
  shows "\<not> u"
proof -
  obtain pdpt where g: "node m cr3 0 1 = Some pdpt" "\<not> bit (ent m pdpt 0) 2"
    using assms(1) by (auto simp: kernel_guard_def)
  have i: "idx 0 v = 0" "idx 1 v = 0" using low_idx [OF assms(2)] by auto
  have "agree 1 v 0" using i by (simp add: agree_def)
  then have "node m cr3 v 1 = Some pdpt" using node_agree g(1) by metis
  then have "\<not> upath m cr3 v 2"
    using g(2) i upath.simps(2) [of m cr3 v 1] by (simp add: eval_nat_numeral)
  then have "\<not> upath m cr3 v 3" "\<not> upath m cr3 v 4"
    using upath_mono [of m cr3 v 3 2] upath_mono [of m cr3 v 4 2] by auto
  with assms(3) show ?thesis
    by (auto simp: pview_def Let_def split: option.splits if_splits)
qed

lemma kernel_guard_ext:
  assumes g: "kernel_guard (phys_mem s) cr3" and k: "pt_ext s s' cr3"
  shows "kernel_guard (phys_mem s') cr3"
proof -
  let ?m = "phys_mem s" and ?m' = "phys_mem s'"
  obtain pdpt where p: "node ?m cr3 0 1 = Some pdpt" "bit (ent ?m pdpt (idx 1 0)) 0"
    "\<not> bit (ent ?m pdpt 0) 2" using g by (auto simp: kernel_guard_def)
  have "node ?m' cr3 0 1 = Some pdpt \<and> ent ?m' pdpt (idx 1 0) = ent ?m pdpt (idx 1 0)"
    using k p(1,2) unfolding keeps_def pt_ext_def by (meson one_less_numeral_iff semiring_norm(76))
  with p show ?thesis by (auto simp: kernel_guard_def)
qed

lemma kernel_guard_unmap: "kernel_guard (phys_mem s) cr3 \<Longrightarrow> unmap_spec s cr3 w s' \<Longrightarrow> kernel_guard (phys_mem s') cr3"
proof -
  assume g: "kernel_guard (phys_mem s) cr3" and u: "unmap_spec s cr3 w s'"
  then obtain pdpt where p: "node (phys_mem s) cr3 0 1 = Some pdpt" "bit (ent (phys_mem s) pdpt 0) 0"
    "\<not> bit (ent (phys_mem s) pdpt 0) 2" by (auto simp: kernel_guard_def)
  have "node (phys_mem s') cr3 0 1 = Some pdpt \<and>
      ent (phys_mem s') pdpt (idx 1 0) = ent (phys_mem s) pdpt (idx 1 0)"
    using u p(1) unfolding unmap_spec_def by (meson one_less_numeral_iff semiring_norm(76))
  with p show ?thesis by (auto simp: kernel_guard_def)
qed

text \<open>
  The calls the kernel makes on an address space after creating it. All callers pass flags below
  \<open>0x1000\<close> (\<open>process.c\<close> lines 119 and 155, \<open>syscall_dispatch.c\<close> line 437) and frames the physical memory manager
  gave out as data; \<open>paging_map\<close> and \<open>paging_unmap\<close> themselves check neither, so both are
  conditions of the steps.
\<close>

inductive as_step :: "u64 \<Rightarrow> machine \<Rightarrow> machine \<Rightarrow> bool" for cr3 where
  step_map: "flags AND NOT 0xFFF = 0 \<Longrightarrow> as_step cr3 s (snd (paging_map s cr3 v p flags))"
| step_map_large: "flags AND NOT 0xFFF = 0 \<Longrightarrow> as_step cr3 s (snd (paging_map_large s cr3 v p flags))"
| step_unmap: "data_pages s cr3 v \<Longrightarrow> as_step cr3 s (paging_unmap s cr3 v)"

lemma as_step_inv:
  assumes "as_step cr3 s s'" "pm_inv s cr3 \<and> kernel_guard (phys_mem s) cr3"
  shows "pm_inv s' cr3 \<and> kernel_guard (phys_mem s') cr3"
  using assms
proof cases
  case (step_map flags v p)
  show ?thesis
  proof (cases "v < PAGING_USER_BASE \<or> v AND 0xFFF \<noteq> 0 \<or> p AND 0xFFF \<noteq> 0")
    case True
    then show ?thesis using assms(2) step_map paging_map_guard [OF True] by simp
  next
    case False
    then have g: "PAGING_USER_BASE \<le> v" "v AND 0xFFF = 0" "p AND 0xFFF = 0" by auto
    have "map_spec s cr3 v p flags (fst (paging_map s cr3 v p flags)) s'"
      using assms(2) step_map g by (intro paging_map_impl) (auto simp: prod_eq_iff)
    then show ?thesis using assms(2) kernel_guard_ext by (auto simp: map_spec_def)
  qed
next
  case (step_map_large flags v p)
  obtain ok where r: "paging_map_large s cr3 v p flags = (ok, s')" using step_map_large by (metis prod.collapse)
  show ?thesis
    using paging_map_large_impl(1,2) [OF _ step_map_large(2) r] assms(2) kernel_guard_ext by auto
next
  case (step_unmap v)
  show ?thesis
  proof (cases "PAGING_USER_BASE \<le> v")
    case True
    then have "unmap_spec s cr3 v s'" using paging_unmap_impl step_unmap assms(2) by simp
    then show ?thesis using kernel_guard_unmap assms(2) by (auto simp: unmap_spec_def)
  next
    case False
    then have "v < PAGING_USER_BASE" by simp
    then have "paging_unmap s cr3 v = s" unfolding paging_unmap_def by (rule if_P)
    then show ?thesis using step_unmap assms(2) by simp
  qed
qed

lemma as_steps_inv:
  "(as_step cr3)\<^sup>*\<^sup>* s s' \<Longrightarrow> pm_inv s cr3 \<and> kernel_guard (phys_mem s) cr3 \<Longrightarrow>
   pm_inv s' cr3 \<and> kernel_guard (phys_mem s') cr3"
  by (induction rule: rtranclp_induct) (blast dest: as_step_inv)+


section \<open>A fresh address space\<close>

lemma copy_root_entries:
  assumes "page_aligned a" "page_aligned K" "a \<noteq> K" "n \<le> 512"
    and "s' = foldl (\<lambda>s i. tbl_set s a (of_nat i) (tbl_get s K (of_nat i))) s [1..<n]"
  shows "frames s' = frames s \<and> kernel_cr3 s' = kernel_cr3 s \<and> g_lapic_base s' = g_lapic_base s \<and>
    (\<forall>b i. page_aligned b \<and> i < 512 \<longrightarrow> ent (phys_mem s') b i =
       (if b = a \<and> 1 \<le> unat i \<and> unat i < n then ent (phys_mem s) K i else ent (phys_mem s) b i))"
  using assms(4,5)
proof (induction n arbitrary: s')
  case (Suc n)
  show ?case
  proof (cases "1 \<le> n")
    case False
    then show ?thesis using Suc.prems by auto
  next
    case True
    let ?s = "foldl (\<lambda>s i. tbl_set s a (of_nat i) (tbl_get s K (of_nat i))) s [1..<n]"
    let ?i = "of_nat n :: u64"
    have IH: "frames ?s = frames s \<and> kernel_cr3 ?s = kernel_cr3 s \<and> g_lapic_base ?s = g_lapic_base s \<and>
      (\<forall>b i. page_aligned b \<and> i < 512 \<longrightarrow> ent (phys_mem ?s) b i =
       (if b = a \<and> 1 \<le> unat i \<and> unat i < n then ent (phys_mem s) K i else ent (phys_mem s) b i))"
      using Suc.IH [OF _ refl] Suc.prems(1) by simp
    have ni: "unat ?i = n" "?i < 512"
      using Suc.prems(1) by (simp_all add: unat_of_nat word_less_nat_alt)
    have s': "s' = tbl_set ?s a ?i (ent (phys_mem s) K ?i)"
      using Suc.prems(2) True IH assms ni by (simp add: tbl_get_ent)
    have i: "i = ?i \<longleftrightarrow> unat i = n" for i :: u64 using ni(1) by (auto simp: word_unat_eq_iff)
    have "ent (phys_mem s') b i =
       (if b = a \<and> 1 \<le> unat i \<and> unat i < Suc n then ent (phys_mem s) K i else ent (phys_mem s) b i)"
      if "page_aligned b" "i < 512" for b i
      using IH that assms(1,3) ni(2) True i [of i]
      by (auto simp: s' tbl_set_def ent_wr64 less_Suc_eq)
    then show ?thesis using IH by (simp add: s' tbl_set_def)
  qed
qed simp

text \<open>The entries after the tables of the new address space have been filled in.\<close>

definition fresh_tables :: "mem \<Rightarrow> u64 \<Rightarrow> u64 \<Rightarrow> u64 \<Rightarrow> mem \<Rightarrow> bool" where
  "fresh_tables m K a d m' \<longleftrightarrow>
     ent m' a 0 = d OR 7 \<and> (\<forall>i. i \<noteq> 0 \<and> i < 512 \<longrightarrow> ent m' a i = ent m K i) \<and>
     ent m' d 0 = (ent m (tbl_addr (ent m K 0)) 0 AND NOT 4) OR 1 \<and>
     (\<forall>i. i \<noteq> 0 \<and> i < 512 \<longrightarrow> ent m' d i = 0) \<and>
     (\<forall>b i. page_aligned b \<and> b \<noteq> a \<and> b \<noteq> d \<and> i < 512 \<longrightarrow> ent m' b i = ent m b i)"

lemma supervisor_entry:
  "tbl_addr ((x AND NOT 4) OR 1) = tbl_addr x" "bit ((x AND NOT 4) OR 1) 0" "\<not> bit ((x AND NOT 4) OR 1) 2"
proof -
  have four: "(4 :: u64) = 2 ^ 2" by simp
  have "take_bit 3 (4 :: int) = 4" by simp
  then have low: "n < 3" if "bit (4 :: int) n" for n using that by (metis bit_take_bit_iff)
  show "tbl_addr ((x AND NOT 4) OR 1) = tbl_addr x"
    unfolding tbl_addr_def mask_lits four
    by (rule bit_word_eqI) (auto simp: bit_simps bit_1_iff bit_exp_iff dest: low)
  show "bit ((x AND NOT 4) OR 1) 0" "\<not> bit ((x AND NOT 4) OR 1) 2"
    unfolding four by (auto simp: bit_simps bit_1_iff bit_exp_iff)
qed

lemma fresh_tables_node:
  assumes ok: "pt_ok m P K" and P: "bit (ent m K 0) 0" "bit (ent m (tbl_addr (ent m K 0)) 0) 0"
    and a: "page_aligned a" "frame_index a \<in> pmm_free_set P"
    and d: "page_aligned d" "frame_index d \<in> pmm_free_set P" "d \<noteq> a"
    and ft: "fresh_tables m K a d m'"
  shows "j < 4 \<Longrightarrow> node m' a v j =
     (if j = 0 then Some a
      else if idx 0 v \<noteq> 0 then node m K v j
      else if j = 1 then Some d
      else if idx 1 v = 0 then node m K v j else None)"
proof -
  have al: "page_aligned K" using ok by (simp add: pt_ok_def)
  have nf: "b \<noteq> a \<and> b \<noteq> d" if "j < 4" "node m K v j = Some b" for j v b
    using ok that a(2) d(2) unfolding pt_ok_def by metis
  have old: "ent m' b (idx i w) = ent m b (idx i w)" if "j < 4" "node m K v j = Some b" for j v b i w
    using ft nf [OF that] page_aligned_node [OF al that(2)] idx_less unfolding fresh_tables_def by blast
  have n1: "node m' a v 1 = (if idx 0 v = 0 then Some d else node m K v 1)" for v
    using ft idx_less [of 0 v] table_entry [OF d(1)] unfolding fresh_tables_def
    by (cases "idx 0 v = 0") (simp_all add: node_12(1))
  have n2: "node m' a v 2 = (if idx 0 v \<noteq> 0 then node m K v 2
      else if idx 1 v = 0 then node m K v 2 else None)" for v
  proof (cases "idx 0 v = 0")
    case True
    then have k1: "node m K v 1 = Some (tbl_addr (ent m K 0))" using P by (simp add: node_12(1))
    show ?thesis
    proof (cases "idx 1 v = 0")
      case c: True
      have "ent m' d 0 = (ent m (tbl_addr (ent m K 0)) 0 AND NOT 4) OR 1"
        using ft by (simp add: fresh_tables_def)
      then show ?thesis
        using True c n1 [of v] k1 P supervisor_entry by (simp add: node_12(2))
    next
      case False
      then have "ent m' d (idx 1 v) = 0" using ft idx_less by (simp add: fresh_tables_def)
      then show ?thesis using True False n1 [of v] by (simp add: node_12(2))
    qed
  next
    case False
    then show ?thesis using n1 [of v] old [of 1 v _ 1 v] by (auto simp: node_12(2) split: option.splits)
  qed
  have n3: "node m' a v 3 = (if idx 0 v \<noteq> 0 then node m K v 3
      else if idx 1 v = 0 then node m K v 3 else None)" for v
    using n2 [of v] old [of 2 v _ 2 v] by (auto simp: node_3 split: option.splits)
  assume "j < 4"
  then consider "j = 0" | "j = 1" | "j = 2" | "j = 3" by linarith
  then show ?thesis using n1 [of v] n2 [of v] n3 [of v] by cases auto
qed


lemma fresh_tables_ok:
  assumes ok: "pt_ok m P K" and P: "bit (ent m K 0) 0" "bit (ent m (tbl_addr (ent m K 0)) 0) 0"
    and a: "page_aligned a" "frame_index a \<in> pmm_free_set P"
    and d: "page_aligned d" "frame_index d \<in> pmm_free_set P" "d \<noteq> a"
    and ft: "fresh_tables m K a d m'"
    and P': "pmm_free_set P' = pmm_free_set P - {frame_index a, frame_index d}"
  shows "pt_ok m' P' a" "kernel_guard m' a"
proof -
  note n = fresh_tables_node [OF assms(1-9)]
  have nf: "b \<noteq> a \<and> b \<noteq> d" if "j < 4" "node m K v j = Some b" for j v b
    using ok that a(2) d(2) unfolding pt_ok_def by metis
  have c: "(j = 0 \<and> b = a) \<or> (j = 1 \<and> b = d \<and> idx 0 v = 0) \<or> (1 \<le> j \<and> node m K v j = Some b)"
    if "j < 4" "node m' a v j = Some b" for j v b
    using n [OF that(1), of v] that(2) by (auto split: if_splits)
  show "pt_ok m' P' a"
    unfolding pt_ok_def
  proof (intro conjI allI impI; (elim conjE)?)
    show "page_aligned a" by (rule a(1))
  next
    fix v w j k b
    assume x: "j < 4" "k < 4" "node m' a v j = Some b" "node m' a w k = Some b"
    have "j = k \<and> agree k v w"
      using c [OF x(1,3)] c [OF x(2,4)]
    proof (elim disjE)
      assume "1 \<le> j \<and> node m K v j = Some b" "1 \<le> k \<and> node m K w k = Some b"
      then show ?thesis using ok x(1,2) unfolding pt_ok_def by blast
    qed (use d(3) nf x in \<open>auto simp: agree_def\<close>)
    then show "j = k" "agree k v w" by auto
  next
    fix v j b assume "j < 4" "node m' a v j = Some b"
    from c [OF this] \<open>j < 4\<close> show "frame_index b \<notin> pmm_free_set P'"
      using ok P' unfolding pt_ok_def by auto
  qed
  have "ent m' d 0 = (ent m (tbl_addr (ent m K 0)) 0 AND NOT 4) OR 1"
    using ft by (simp add: fresh_tables_def)
  then show "kernel_guard m' a"
    using n [of 1 0] supervisor_entry by (auto simp: kernel_guard_def)
qed

lemma fresh_tables_kernel_view:
  assumes ok: "pt_ok m P K" and P: "bit (ent m K 0) 0" "bit (ent m (tbl_addr (ent m K 0)) 0) 0"
    and a: "page_aligned a" "frame_index a \<in> pmm_free_set P"
    and d: "page_aligned d" "frame_index d \<in> pmm_free_set P" "d \<noteq> a"
    and ft: "fresh_tables m K a d m'"
    and v: "v < PAGING_USER_BASE" "pview m K v = Some (p, u)"
  shows "pview m' a v = Some (p, False)"
proof -
  note n = fresh_tables_node [OF assms(1-9)]
  have i: "idx 0 v = 0" "idx 1 v = 0" using low_idx [OF v(1)] by auto
  have al: "page_aligned K" using ok by (simp add: pt_ok_def)
  have old: "ent m' b (idx i w) = ent m b (idx i w)" if "j < 4" "node m K v j = Some b" for j v b i w
  proof -
    have "b \<noteq> a \<and> b \<noteq> d" using ok that a(2) d(2) unfolding pt_ok_def by metis
    then show ?thesis
      using ft page_aligned_node [OF al that(2)] idx_less unfolding fresh_tables_def by blast
  qed
  have "\<exists>u'. pview m' a v = Some (p, u')"
    using v(2) n [of 2 v] n [of 3 v] i old [of 2 v _ 2 v] old [of 3 v _ 3 v]
    by (auto simp: pview_def Let_def split: option.splits if_splits)
  then obtain u' where u': "pview m' a v = Some (p, u')" by blast
  have "kernel_guard m' a"
    using n [of 1 0] ft supervisor_entry by (auto simp: kernel_guard_def fresh_tables_def)
  from kernel_guard_hidden [OF this v(1) u'] u' show ?thesis by simp
qed

definition kernel_tables :: "machine \<Rightarrow> bool" where
  "kernel_tables s \<longleftrightarrow> pm_inv s (kernel_cr3 s) \<and> bit (ent (phys_mem s) (kernel_cr3 s) 0) 0 \<and>
     bit (ent (phys_mem s) (tbl_addr (ent (phys_mem s) (kernel_cr3 s) 0)) 0) 0"

text \<open>The body of \<open>paging_new_address_space\<close> between the two allocations and the LAPIC mapping.\<close>

lemma fresh_tables_fill:
  assumes ok: "pt_ok (phys_mem s) P (kernel_cr3 s)" and P: "bit (ent (phys_mem s) (kernel_cr3 s) 0) 0"
    and a: "page_aligned a" "frame_index a \<in> pmm_free_set P" "a \<noteq> 0"
    and d: "page_aligned d" "frame_index d \<in> pmm_free_set P" "d \<noteq> a" "d \<noteq> 0"
    and s1: "s1 = zero_page (zero_page s a) d"
    and s2: "s2 = foldl (\<lambda>s i. tbl_set s a (of_nat i) (tbl_get s (kernel_cr3 s1) (of_nat i))) s1 [1..<512]"
    and s3: "s3 = tbl_set s2 d 0 ((tbl_get s2 (tbl_addr (tbl_get s2 (kernel_cr3 s1) 0)) 0 AND NOT 0x04) OR 0x01)"
    and s4: "s4 = tbl_set s3 a 0 (d OR 0x07)"
  shows "fresh_tables (phys_mem s) (kernel_cr3 s) a d (phys_mem s4) \<and> frames s4 = frames s \<and>
    g_lapic_base s4 = g_lapic_base s"
proof -
  let ?K = "kernel_cr3 s" and ?m = "phys_mem s"
  have K: "page_aligned ?K" using ok by (simp add: pt_ok_def)
  have nf: "b \<noteq> a \<and> b \<noteq> d" if "j < 4" "node ?m ?K v j = Some b" for j v b
    using ok that a(2) d(2) unfolding pt_ok_def by metis
  have K': "?K \<noteq> a" "?K \<noteq> d" using nf [of 0] by auto
  let ?kp = "tbl_addr (ent ?m ?K 0)"
  have kp: "?kp \<noteq> a" "?kp \<noteq> d" using nf [of 1 0] P by (simp_all add: node_12(1))
  have e1: "ent (phys_mem s1) b i = (if b = a \<or> b = d then 0 else ent ?m b i)"
    if "page_aligned b" "i < 512" for b i
    using that a d by (simp add: s1 zero_page_def ent_zero_page)
  have k1: "kernel_cr3 s1 = ?K" by (simp add: s1 zero_page_def)
  have c2: "frames s2 = frames s1 \<and> kernel_cr3 s2 = kernel_cr3 s1 \<and> g_lapic_base s2 = g_lapic_base s1 \<and>
    (\<forall>b i. page_aligned b \<and> i < 512 \<longrightarrow> ent (phys_mem s2) b i =
       (if b = a \<and> 1 \<le> unat i \<and> unat i < 512 then ent (phys_mem s1) ?K i else ent (phys_mem s1) b i))"
    using copy_root_entries [OF a(1) K _ _ s2 [unfolded k1]] K' by simp
  have lim: "unat i < 512" if "i < 512" for i :: u64 using that by (simp add: word_less_nat_alt)
  have e2: "ent (phys_mem s2) b i = (if b = a then (if i = 0 then 0 else ent ?m ?K i)
      else if b = d then 0 else ent ?m b i)" if "page_aligned b" "i < 512" for b i
    using c2 that e1 K K' lim [OF that(2)] by (auto simp: Suc_le_eq unat_gt_0)
  have "tbl_get s2 (tbl_addr (tbl_get s2 (kernel_cr3 s1) 0)) 0 = ent ?m ?kp 0"
    using e2 [of ?K 0] e2 [of ?kp 0] K K' kp by (simp add: tbl_get_ent k1)
  then have s3': "s3 = tbl_set s2 d 0 ((ent ?m ?kp 0 AND NOT 0x04) OR 0x01)" using s3 by simp
  have e4: "ent (phys_mem s4) b i = (if b = a \<and> i = 0 then d OR 7
      else if b = d \<and> i = 0 then (ent ?m ?kp 0 AND NOT 4) OR 1 else ent (phys_mem s2) b i)"
    if "page_aligned b" "i < 512" for b i
    using that a d ent_wr64 [of _ b 0 i] by (auto simp: s4 s3' tbl_set_def)
  have "fresh_tables ?m ?K a d (phys_mem s4)"
    unfolding fresh_tables_def using e4 e2 a d by (auto simp: less_imp_neq)
  then show ?thesis using c2 by (simp add: s4 s3' s1 tbl_set_def zero_page_def)
qed


lemma alloc_frame_cases:
  assumes "pmm_ok (frames s)" "0 \<notin> pmm_free_set (frames s)" "alloc_frame s = (a, s')"
  shows "(a = 0 \<and> s' = s) \<or> (a \<noteq> 0 \<and> page_aligned a \<and> frame_index a \<in> pmm_free_set (frames s) \<and>
     s' = s\<lparr>frames := frames s'\<rparr> \<and> pmm_ok (frames s') \<and>
     pmm_free_set (frames s') = pmm_free_set (frames s) - {frame_index a})"
proof -
  obtain P' where P': "pmm_alloc_frame (frames s) = (a, P')" "s' = s\<lparr>frames := P'\<rparr>"
    using assms(3) by (auto simp: alloc_frame_def split: prod.splits)
  show ?thesis
  proof (cases "a = 0")
    case True
    then show ?thesis using pf.alloc_zero [OF assms(1,2)] P' by simp
  next
    case False
    then show ?thesis
      using pf.alloc_nonzero [OF assms(1,2)] P' by (simp add: page_aligned_def frame_index_def)
  qed
qed

lemma new_address_space_impl:
  assumes kt: "kernel_tables s" and lb: "paging_new_address_space s = (cr3, s')"
  shows "cr3 = 0 \<Longrightarrow> pmm_free_set (frames s') = pmm_free_set (frames s)"
    and "cr3 \<noteq> 0 \<Longrightarrow> pm_inv s' cr3 \<and> kernel_guard (phys_mem s') cr3 \<and>
      (\<forall>v p u. v < PAGING_USER_BASE \<and> pview (phys_mem s) (kernel_cr3 s) v = Some (p, u) \<longrightarrow>
         pview (phys_mem s') cr3 v = Some (p, False))"
proof -
  let ?m = "phys_mem s" and ?K = "kernel_cr3 s"
  have P: "pmm_ok (frames s)" "0 \<notin> pmm_free_set (frames s)" and ok: "pt_ok ?m (frames s) ?K"
    and k: "bit (ent ?m ?K 0) 0" "bit (ent ?m (tbl_addr (ent ?m ?K 0)) 0) 0"
    using kt by (auto simp: kernel_tables_def pm_inv_def)
  obtain a sa where a: "alloc_frame s = (a, sa)" by force
  note A = alloc_frame_cases [OF P a]
  obtain d sd where d: "alloc_frame sa = (d, sd)" by force
  have Pa: "pmm_ok (frames sa)" "0 \<notin> pmm_free_set (frames sa)" using A P by auto
  note D = alloc_frame_cases [OF Pa d]
  have all: "(cr3 = 0 \<longrightarrow> pmm_free_set (frames s') = pmm_free_set (frames s)) \<and>
     (cr3 \<noteq> 0 \<longrightarrow> pm_inv s' cr3 \<and> kernel_guard (phys_mem s') cr3 \<and>
      (\<forall>v p u. v < PAGING_USER_BASE \<and> pview ?m ?K v = Some (p, u) \<longrightarrow>
         pview (phys_mem s') cr3 v = Some (p, False)))"
  proof (cases "a = 0 \<or> d = 0")
    case True
    have bound: "frame_index a < PMM_MAX_FRAMES" if "a \<noteq> 0" using A that pf.avail_bound by blast
    have "cr3 = 0" "frames s' = frames (let s = (if a \<noteq> 0 then free_frame sd a else sd) in
        if d \<noteq> 0 then free_frame s d else s)"
      using lb True a d by (auto simp: paging_new_address_space_def Let_def)
    moreover have "pmm_free_set (frames (free_frame sd a)) = pmm_free_set (frames s)"
      if "a \<noteq> 0" "d = 0"
      using A D that bound pmm_free_frame_spec(2) [of "frames sd" a]
      by (auto simp: free_frame_def)
    moreover have "a = 0 \<Longrightarrow> d = 0"
      using A D a d by auto
    ultimately show ?thesis using True A D by auto
  next
    case False
    have A': "page_aligned a" "frame_index a \<in> pmm_free_set (frames s)" "sa = s\<lparr>frames := frames sa\<rparr>"
      "pmm_free_set (frames sa) = pmm_free_set (frames s) - {frame_index a}"
      and D': "page_aligned d" "frame_index d \<in> pmm_free_set (frames s)" "d \<noteq> a"
        "sd = sa\<lparr>frames := frames sd\<rparr>" "pmm_ok (frames sd)"
        "pmm_free_set (frames sd) = pmm_free_set (frames s) - {frame_index a, frame_index d}"
      using A D False by auto
    have same: "phys_mem sd = ?m" "kernel_cr3 sd = ?K" "g_lapic_base sd = g_lapic_base s"
      using A'(3) D'(4) by (metis machine.surjective machine.update_convs(2) machine.select_convs)+
    define s1 where "s1 = zero_page (zero_page sd a) d"
    define s2 where "s2 = foldl (\<lambda>s i. tbl_set s a (of_nat i) (tbl_get s (kernel_cr3 s1) (of_nat i))) s1 [1..<512]"
    define s3 where "s3 = tbl_set s2 d 0 ((tbl_get s2 (tbl_addr (tbl_get s2 (kernel_cr3 s1) 0)) 0 AND NOT 0x04) OR 0x01)"
    define s4 where "s4 = tbl_set s3 a 0 (d OR 0x07)"
    have F: "fresh_tables ?m ?K a d (phys_mem s4) \<and> frames s4 = frames sd \<and> g_lapic_base s4 = g_lapic_base sd"
      using fresh_tables_fill [OF _ _ A'(1,2) _ D'(1,2,3) _ s1_def s2_def s3_def s4_def]
        ok k False same by simp
    note args = ok k A'(1,2) D'(1,2,3) F [THEN conjunct1]
    have inv4: "pm_inv s4 a" and g4: "kernel_guard (phys_mem s4) a"
      using fresh_tables_ok [OF args D'(6)] F D'(5,6) P by (auto simp: pm_inv_def)
    note view4 = fresh_tables_kernel_view [OF args]
    have r: "cr3 = a" "s' = (if g_lapic_base s4 \<noteq> 0
        then snd (paging_map_large s4 a (g_lapic_base s4) (g_lapic_base s4) PAGING_FLAG_WRITABLE) else s4)"
      using lb a d False unfolding paging_new_address_space_def Let_def s4_def s3_def s2_def s1_def
      by (auto simp del: upt_Suc)
    show ?thesis
    proof (cases "g_lapic_base s4 = 0")
      case True
      then show ?thesis using r False inv4 g4 view4 by auto
    next
      case c: False
      obtain ok' where q: "paging_map_large s4 a (g_lapic_base s4) (g_lapic_base s4) PAGING_FLAG_WRITABLE = (ok', s')"
        using r(2) c by (metis prod.collapse)
      have w: "PAGING_FLAG_WRITABLE AND NOT 0xFFF = 0" by (simp add: const_defs)
      note L = paging_map_large_impl [OF inv4 w q]
      have "pview (phys_mem s') a v = Some (p, False)"
        if "v < PAGING_USER_BASE" "pview ?m ?K v = Some (p, u)" for v p u
        using L(3) [of v] L(4) [of v] view4 [OF that] by auto
      then show ?thesis using r False L(1) kernel_guard_ext [OF g4 L(2)] by auto
    qed
  qed
  then show "cr3 = 0 \<Longrightarrow> pmm_free_set (frames s') = pmm_free_set (frames s)" by blast
  from all show "cr3 \<noteq> 0 \<Longrightarrow> pm_inv s' cr3 \<and> kernel_guard (phys_mem s') cr3 \<and>
      (\<forall>v p u. v < PAGING_USER_BASE \<and> pview (phys_mem s) (kernel_cr3 s) v = Some (p, u) \<longrightarrow>
         pview (phys_mem s') cr3 v = Some (p, False))" by blast
qed


lemma new_address_space_succeeds:
  assumes "kernel_tables s" "2 \<le> card (pmm_free_set (frames s))"
  shows "fst (paging_new_address_space s) \<noteq> 0"
proof -
  have P: "pmm_ok (frames s)" "0 \<notin> pmm_free_set (frames s)"
    using assms(1) by (auto simp: kernel_tables_def pm_inv_def)
  obtain a sa where a: "alloc_frame s = (a, sa)" by force
  obtain d sd where d: "alloc_frame sa = (d, sd)" by force
  have some: "pmm_free_set (frames t) = {}"
    if "alloc_frame t = (0, t')" "pmm_ok (frames t)" "0 \<notin> pmm_free_set (frames t)" for t t'
    using that pf.alloc_zero [OF that(2,3)] by (auto simp: alloc_frame_def split: prod.splits)
  have a0: "a \<noteq> 0" using some [of s sa] a P assms(2) by auto
  note A = alloc_frame_cases [OF P a]
  then have "card (pmm_free_set (frames sa)) \<noteq> 0"
    using a0 assms(2) pf.avail_finite [of "frames s"] by (auto simp: card_Diff_singleton)
  then have "d \<noteq> 0" using some [of sa sd] d A a0 P by (auto simp del: card_eq_0_iff)
  with a0 a d show ?thesis by (simp add: paging_new_address_space_def Let_def)
qed

section \<open>Properties\<close>

text \<open>
  C5: \<open>paging_map\<close> on a well-formed page table changes the virtual-to-physical mapping at most in the
  page of \<open>vaddr\<close>. When it returns true that page was unmapped and now leads to \<open>phys\<close>, with
  user access exactly if the flags ask for it and all table entries above allow it; when it returns
  false no translation changes. It returns true whenever the addresses are aligned, \<open>vaddr\<close> is an
  unmapped user address and three frames are free; the tables stay well formed.
\<close>

theorem paging_map_refines:
  assumes "pm_inv s cr3" "flags AND NOT 0xFFF = 0"
  shows "case paging_map s cr3 vaddr phys flags of (ok, s') \<Rightarrow>
     pm_inv s' cr3 \<and>
     (\<forall>v. pview (phys_mem s') cr3 v =
        (if ok \<and> agree 4 v vaddr
         then Some (phys + (v AND 0xFFF), utab (phys_mem s) cr3 vaddr 3 \<and> flags AND 4 \<noteq> 0)
         else pview (phys_mem s) cr3 v)) \<and>
     (ok \<longrightarrow> pview (phys_mem s) cr3 vaddr = None \<and> paging_translate s' cr3 vaddr = phys) \<and>
     (PAGING_USER_BASE \<le> vaddr \<and> vaddr AND 0xFFF = 0 \<and> phys AND 0xFFF = 0 \<and>
        pview (phys_mem s) cr3 vaddr = None \<and> 3 \<le> card (pmm_free_set (frames s)) \<longrightarrow> ok)"
proof (cases "vaddr < PAGING_USER_BASE \<or> vaddr AND 0xFFF \<noteq> 0 \<or> phys AND 0xFFF \<noteq> 0")
  case True
  then show ?thesis using assms(1) paging_map_guard [OF True] by auto
next
  case False
  obtain ok s' where r: "paging_map s cr3 vaddr phys flags = (ok, s')" by force
  have m: "map_spec s cr3 vaddr phys flags ok s'"
    using False r assms by (intro paging_map_impl) auto
  then have "ok \<longrightarrow> paging_translate s' cr3 vaddr = phys"
    using False by (simp add: map_spec_def translate_pview agree_def)
  moreover have "pview (phys_mem s) cr3 vaddr = None \<and> 3 \<le> card (pmm_free_set (frames s)) \<longrightarrow> ok"
    using m unfolding map_spec_def by (metis linorder_not_le)
  ultimately show ?thesis using m r unfolding map_spec_def by simp
qed

text \<open>
  A machine with one zeroed root table and six free frames, and the same machine with the tables
  that lead to the first GiB.
\<close>

definition pmm_six :: pmm where
  "pmm_six = foldl pmm_free_frame pmm_bss [0x1000, 0x2000, 0x3000, 0x4000, 0x5000, 0x6000]"

definition machine0 :: machine where
  "machine0 = \<lparr>phys_mem = (\<lambda>_. 0), frames = pmm_six, kernel_cr3 = 0xA000, g_lapic_base = 0\<rparr>"

definition machine1 :: machine where
  "machine1 = snd (walk_pd machine0 0xA000 0)"

lemma pmm_six_facts: "pmm_ok pmm_six" "pmm_free_set pmm_six = {1, 2, 3, 4, 5, 6}"
proof -
  have "pmm_ok pmm_bss" by (simp add: pmm_ok_def) (simp add: pmm_bss_def)
  then show "pmm_ok pmm_six" by (simp add: pmm_six_def pmm_free_frame_spec)
  show "pmm_free_set pmm_six = {1, 2, 3, 4, 5, 6}"
    by (auto simp: pmm_six_def pmm_free_frame_spec frame_index_def PMM_MAX_FRAMES_num)
qed

lemma ent_zero_mem: "ent (\<lambda>_. 0) b i = 0"
  by (simp add: ent_def rd64_def)

lemma node_zero_mem: "node (\<lambda>_. 0) cr3 v k = (if k = 0 then Some cr3 else None)"
  by (induction k) (auto simp: ent_zero_mem)

lemma machine0_inv: "pm_inv machine0 0xA000"
  by (auto simp: pm_inv_def machine0_def pmm_six_facts pt_ok_def node_zero_mem agree_def
      page_aligned_def frame_index_def split: if_splits)

lemma pview_zero_mem: "pview (\<lambda>_. 0) cr3 v = None"
  by (simp add: pview_def node_zero_mem)

theorem paging_map_refines_witness:
  "fst (paging_map machine0 0xA000 0x40000000 0xC000 7) \<and>
   paging_translate (snd (paging_map machine0 0xA000 0x40000000 0xC000 7)) 0xA000 0x40000000 = 0xC000"
  using paging_map_refines [of machine0 "0xA000" 7 "0x40000000" "0xC000"] machine0_inv
  by (auto simp: machine0_def pmm_six_facts pview_zero_mem const_defs)


text \<open>
  C15: unmapping a page that \<open>paging_map\<close> has just mapped restores the whole virtual-to-physical
  mapping and hands the page's frame back to the physical memory manager, provided the mapped page is
  neither frame 0 nor one of the page tables.
\<close>

theorem paging_map_unmap:
  assumes "pm_inv s cr3" "flags AND NOT 0xFFF = 0"
    and "fst (paging_map s cr3 vaddr phys flags)"
    and "frame_index phys \<noteq> 0" "frame_index phys < PMM_MAX_FRAMES"
    and "frame_index phys \<notin> pmm_free_set (frames s)"
    and "\<forall>w j b. j < 4 \<and> node (phys_mem s) cr3 w j = Some b \<longrightarrow> frame_index b \<noteq> frame_index phys"
  shows "let s' = snd (paging_map s cr3 vaddr phys flags); s'' = paging_unmap s' cr3 vaddr
     in pview (phys_mem s'') cr3 = pview (phys_mem s) cr3 \<and> pm_inv s'' cr3 \<and>
        pmm_free_set (frames s'') = insert (frame_index phys) (pmm_free_set (frames s'))"
proof -
  obtain s' where r: "paging_map s cr3 vaddr phys flags = (True, s')"
    using assms(3) by (metis prod.collapse)
  have g: "\<not> (vaddr < PAGING_USER_BASE \<or> vaddr AND 0xFFF \<noteq> 0 \<or> phys AND 0xFFF \<noteq> 0)"
    using r paging_map_guard by fastforce
  have m: "map_spec s cr3 vaddr phys flags True s'"
    using g r assms by (intro paging_map_impl) auto
  let ?B = "backing (phys_mem s') cr3 vaddr"
  obtain pt where pt: "node (phys_mem s') cr3 vaddr 3 = Some pt" "bit (ent (phys_mem s') pt (idx 3 vaddr)) 0"
    "ent (phys_mem s') pt (idx 3 vaddr) AND NOT 0xFFF = phys"
    using m by (auto simp: map_spec_def)
  then have depth: "page_depth (phys_mem s') cr3 vaddr = 4" and B: "?B = {phys}"
    by (auto simp: page_depth_def backing_def node_3 split: option.splits if_splits)
  have "data_pages s' cr3 vaddr"
  proof -
    have "pt_ext s s' cr3" using m by (simp add: map_spec_def)
    then have "frame_index b \<noteq> frame_index phys" if "j < 4" "node (phys_mem s') cr3 w j = Some b" for w j b
      using that assms(6,7) unfolding pt_ext_def by metis
    then show ?thesis using assms(4) by (auto simp: data_pages_def B)
  qed
  then have u: "unmap_spec s' cr3 vaddr (paging_unmap s' cr3 vaddr)"
  proof -
    have "PAGING_USER_BASE \<le> vaddr" "pm_inv s' cr3" using g m by (auto simp: map_spec_def)
    with \<open>data_pages s' cr3 vaddr\<close> show ?thesis by (intro paging_unmap_impl)
  qed
  have "pview (phys_mem (paging_unmap s' cr3 vaddr)) cr3 v = pview (phys_mem s) cr3 v" for v
  proof (cases "agree 4 v vaddr")
    case True
    then have "pview (phys_mem (paging_unmap s' cr3 vaddr)) cr3 v = None"
      using u depth by (simp add: unmap_spec_def)
    moreover have "pview (phys_mem s) cr3 vaddr = None" using m by (simp add: map_spec_def)
    ultimately show ?thesis using pview_agree_None [OF True] by simp
  next
    case False
    then show ?thesis
      using u m depth by (simp add: unmap_spec_def map_spec_def)
  qed
  then show ?thesis
    using u r B assms(5) by (auto simp: unmap_spec_def)
qed

theorem paging_map_unmap_witness:
  "pview (phys_mem (paging_unmap (snd (paging_map machine0 0xA000 0x40000000 0xC000 7)) 0xA000 0x40000000))
     0xA000 = pview (phys_mem machine0) 0xA000"
proof -
  have "fst (paging_map machine0 0xA000 0x40000000 0xC000 7)"
  proof -
    have "map_spec machine0 0xA000 0x40000000 0xC000 7 (fst (paging_map machine0 0xA000 0x40000000 0xC000 7))
        (snd (paging_map machine0 0xA000 0x40000000 0xC000 7))"
      using machine0_inv by (intro paging_map_impl) (simp_all add: const_defs)
    then show ?thesis
      by (auto simp: map_spec_def) (simp_all add: machine0_def pmm_six_facts pview_zero_mem)
  qed
  then show ?thesis
    using paging_map_unmap [of machine0 "0xA000" 7 "0x40000000" "0xC000"] machine0_inv
    by (simp add: machine0_def node_zero_mem pmm_six_facts frame_index_def PMM_MAX_FRAMES_num Let_def)
qed

text \<open>
  creating an address space takes two frames or, when fewer are free, fails and gives back what
  it took. The new space sees kernel memory below 1 GiB exactly where the kernel does, but without
  user access, and has well-formed tables.
\<close>

theorem paging_new_address_space_spec:
  assumes "kernel_tables s"
  shows "case paging_new_address_space s of (cr3, s') \<Rightarrow>
     if cr3 = 0 then card (pmm_free_set (frames s)) < 2 \<and> pmm_free_set (frames s') = pmm_free_set (frames s)
     else pm_inv s' cr3 \<and>
       (\<forall>v p u. v < PAGING_USER_BASE \<and> pview (phys_mem s) (kernel_cr3 s) v = Some (p, u) \<longrightarrow>
          pview (phys_mem s') cr3 v = Some (p, False))"
proof -
  obtain cr3 s' where r: "paging_new_address_space s = (cr3, s')" by force
  note n = new_address_space_impl [OF assms r]
  show ?thesis
  proof (cases "cr3 = 0")
    case True
    then have "\<not> 2 \<le> card (pmm_free_set (frames s))" using new_address_space_succeeds [OF assms] r by auto
    then show ?thesis using n(1) r True by simp
  qed (use n(2) r in auto)
qed

lemma next_table_kernel: "kernel_cr3 (snd (next_table s t i)) = kernel_cr3 s"
  by (auto simp: next_table_def new_table_def alloc_frame_def zero_page_def tbl_set_def
      split: prod.split)

lemma walk_pd_kernel: "kernel_cr3 (snd (walk_pd s t v)) = kernel_cr3 s"
  using next_table_kernel [of s t "PML4_IDX v"]
  by (cases "next_table s t (PML4_IDX v)") (auto simp: walk_pd_def next_table_kernel split: option.split)

lemma machine1_facts: "kernel_tables machine1" "2 \<le> card (pmm_free_set (frames machine1))"
proof -
  obtain r where r: "walk_pd machine0 0xA000 0 = (r, machine1)" by (simp add: machine1_def prod_eq_iff)
  note W = walk_pd_spec [OF machine0_inv r]
  have c: "card (pmm_free_set (frames machine0)) = 6" by (simp add: machine0_def pmm_six_facts)
  then obtain pd where pd: "r = Some pd" using W(4) by (cases r) auto
  have k: "kernel_cr3 machine1 = 0xA000" by (simp add: machine1_def walk_pd_kernel machine0_def)
  note n = W(5) [OF pd]
  then obtain b where "node (phys_mem machine1) 0xA000 0 1 = Some b" "bit (ent (phys_mem machine1) b 0) 0"
    by (auto simp: node_12(2) split: option.splits if_splits)
  then show "kernel_tables machine1"
    using W(1) k by (auto simp: kernel_tables_def node_12(1) split: if_splits)
  show "2 \<le> card (pmm_free_set (frames machine1))" using W(6) c by simp
qed

theorem paging_new_address_space_spec_witness:
  "case paging_new_address_space machine1 of (cr3, s') \<Rightarrow> cr3 \<noteq> 0 \<and> pm_inv s' cr3"
  using paging_new_address_space_spec [OF machine1_facts(1)] machine1_facts(2)
  by (auto split: prod.splits if_splits)

text \<open>
  C1: in an address space made by \<open>paging_new_address_space\<close>, no sequence of \<open>paging_map\<close> and
  \<open>paging_map_large\<close> calls for any virtual and physical address with flags within the low 12 bits,
  and of \<open>paging_unmap\<close> calls for any address behind which there are only data frames, that is
  neither frame 0 nor a frame that is one of the page tables of the space, gives user mode access to
  an address below 1 GiB, where the kernel lives. The restriction on unmapping is needed:
  \<open>paging_unmap\<close> frees whatever frame the page has, so the caller must not map the page tables
  themselves as data. Stores that a program makes through its mappings are not steps.
\<close>

theorem user_never_reaches_kernel:
  assumes "kernel_tables s" "paging_new_address_space s = (cr3, s0)" "cr3 \<noteq> 0"
    and "(as_step cr3)\<^sup>*\<^sup>* s0 s1" "v < PAGING_USER_BASE"
  shows "pview (phys_mem s1) cr3 v \<noteq> Some (p, True)"
proof -
  have "pm_inv s0 cr3 \<and> kernel_guard (phys_mem s0) cr3"
    using new_address_space_impl(2) [OF assms(1,2,3)] by blast
  then have "kernel_guard (phys_mem s1) cr3" using as_steps_inv [OF assms(4)] by blast
  then show ?thesis using kernel_guard_hidden [OF _ assms(5)] by blast
qed

theorem user_never_reaches_kernel_witness:
  "\<exists>cr3 s0 s1. paging_new_address_space machine1 = (cr3, s0) \<and> cr3 \<noteq> 0 \<and>
     s1 = snd (paging_map s0 cr3 0x40000000 0xC000 7) \<and>
     pview (phys_mem s1) cr3 0x1000 \<noteq> Some (0x1000, True)"
proof -
  obtain cr3 s0 where r: "paging_new_address_space machine1 = (cr3, s0)" by force
  have c: "cr3 \<noteq> 0" using new_address_space_succeeds [OF machine1_facts] r by simp
  have "as_step cr3 s0 (snd (paging_map s0 cr3 0x40000000 0xC000 7))"
    by (rule step_map) simp
  then have "(as_step cr3)\<^sup>*\<^sup>* s0 (snd (paging_map s0 cr3 0x40000000 0xC000 7))" by blast
  from user_never_reaches_kernel [OF machine1_facts(1) r c this, of "0x1000" "0x1000"]
  show ?thesis using r c by (simp add: const_defs)
qed

end
