(* ===== verification/Kheap.thy ===== *)
theory Kheap
  imports Pmm
begin

text \<open>
  The kernel heap, \<^verbatim>\<open>mem/mm/kheap.c\<close>: a first-fit allocator over an address-sorted, doubly
  linked list of blocks. The 48-byte block headers live in the byte memory, at the offsets the C
  compiler gives the struct, so that a header read through a wrong pointer reads what is really
  there. The two static variables and the memory make up the record \<open>kheap\<close>; the spinlock is
  omitted, as every operation runs under it. The loops that follow \<open>next\<close> pointers need not end on a
  damaged list, so the operations return \<open>None\<close> when they do not.

  The second part gives the block list its meaning and shows that on a well-formed heap every
  operation ends, keeps the list well formed, and never gives out memory twice.
\<close>

section \<open>State and operations\<close>

definition HEAP_MAGIC :: u64 where
  "HEAP_MAGIC = 0x484541504B44414E"
definition HEAP_HEADER :: u64 where
  [const_defs]: "HEAP_HEADER = 48"
definition HEAP_MIN_FREE :: u64 where
  [const_defs]: "HEAP_MIN_FREE = HEAP_HEADER + 16"
definition HEAP_GROW_CHUNK :: u64 where
  [const_defs]: "HEAP_GROW_CHUNK = 4 * 1024 * 1024"

text \<open>The fields of \<open>heap_block\<close> at their offsets: 0 magic, 8 size, 16 pad, 24 flags, 32 next, 40 prev.\<close>

definition fld :: "mem \<Rightarrow> u64 \<Rightarrow> u64 \<Rightarrow> u64" where
  "fld m b k = rd64 m (b + 8 * k)"
definition set_fld :: "mem \<Rightarrow> u64 \<Rightarrow> u64 \<Rightarrow> u64 \<Rightarrow> mem" where
  "set_fld m b k v = wr64 m (b + 8 * k) v"

abbreviation (input) "fmagic \<equiv> 0 :: u64"
abbreviation (input) "fsize \<equiv> 1 :: u64"
abbreviation (input) "fpad \<equiv> 2 :: u64"
abbreviation (input) "fflags \<equiv> 3 :: u64"
abbreviation (input) "fnext \<equiv> 4 :: u64"
abbreviation (input) "fprev \<equiv> 5 :: u64"

record kheap =
  hmem :: mem
  hpmm :: pmm
  heap_head :: u64
  allocated_bytes :: u64

definition put :: "kheap \<Rightarrow> u64 \<Rightarrow> u64 \<Rightarrow> u64 \<Rightarrow> kheap" where
  "put h b k v = h\<lparr>hmem := set_fld (hmem h) b k v\<rparr>"

abbreviation "get h b k \<equiv> fld (hmem h) b k"

definition block_free :: "kheap \<Rightarrow> u64 \<Rightarrow> bool" where
  "block_free h b \<longleftrightarrow> get h b fflags AND 1 \<noteq> 0"

definition block_set_free :: "kheap \<Rightarrow> u64 \<Rightarrow> bool \<Rightarrow> kheap" where
  "block_set_free h b free =
     put h b fflags (if free then get h b fflags OR 1 else get h b fflags AND NOT 1)"

definition align_up :: "u64 \<Rightarrow> u64 \<Rightarrow> u64" where
  "align_up value alignment =
     (let alignment = (if alignment = 0 then 16 else alignment); msk = alignment - 1
      in (value + msk) AND NOT msk)"

partial_function (option) insert_walk :: "mem \<Rightarrow> u64 \<Rightarrow> u64 \<Rightarrow> u64 option" where
  "insert_walk m block cur =
     (if fld m cur fnext \<noteq> 0 \<and> fld m cur fnext < block
      then insert_walk m block (fld m cur fnext) else Some cur)"

definition insert_free_block :: "kheap \<Rightarrow> u64 \<Rightarrow> kheap option" where
  "insert_free_block h block =
     (let h = block_set_free h block True; h = put h block fmagic HEAP_MAGIC; cur = heap_head h
      in if cur = 0 \<or> block < cur
         then let h = put h block fnext cur; h = put h block fprev 0;
                  h = (if cur \<noteq> 0 then put h cur fprev block else h)
              in Some (h\<lparr>heap_head := block\<rparr>)
         else do {
           cur \<leftarrow> insert_walk (hmem h) block cur;
           let h = put h block fnext (get h cur fnext);
           let h = put h block fprev cur;
           let h = (if get h cur fnext \<noteq> 0 then put h (get h cur fnext) fprev block else h);
           Some (put h cur fnext block)
         })"

definition add_region :: "kheap \<Rightarrow> u64 \<Rightarrow> u64 \<Rightarrow> kheap option" where
  "add_region h base len =
     (if len < HEAP_MIN_FREE then Some h
      else insert_free_block (put (put h base fsize (len - HEAP_HEADER)) base fpad 0) base)"

function grow_loop :: "kheap \<Rightarrow> u64 \<Rightarrow> (bool \<times> kheap) option" where
  "grow_loop h chunk =
     (if chunk \<ge> 64 * 1024
      then case pmm_alloc_contig (hpmm h) (chunk div 4096) of (mem, p) \<Rightarrow>
             let h = h\<lparr>hpmm := p\<rparr>
             in if mem \<noteq> 0 then map_option (\<lambda>h. (True, h)) (add_region h mem chunk)
                else grow_loop h (chunk div 2)
      else Some (False, h))"
  by pat_completeness auto
termination
proof (relation "measure (\<lambda>(h, chunk). unat chunk)")
  fix h chunk x mem p and xa :: kheap
  assume "64 * 1024 \<le> (chunk :: u64)"
  then have "unat (64 * 1024 :: u64) \<le> unat chunk" by (simp only: word_le_nat_alt)
  then show "((xa, chunk div 2), h, chunk) \<in> measure (\<lambda>(h, chunk). unat chunk)"
    by (simp add: unat_div)
qed simp

declare grow_loop.simps [simp del]

definition grow_heap :: "kheap \<Rightarrow> (bool \<times> kheap) option" where
  "grow_heap h = grow_loop h HEAP_GROW_CHUNK"

definition unlink_block :: "kheap \<Rightarrow> u64 \<Rightarrow> kheap" where
  "unlink_block h block =
     (let h = (if get h block fprev \<noteq> 0
               then put h (get h block fprev) fnext (get h block fnext)
               else h\<lparr>heap_head := get h block fnext\<rparr>)
      in if get h block fnext \<noteq> 0
         then put h (get h block fnext) fprev (get h block fprev) else h)"

partial_function (option) coalesce_next :: "kheap \<Rightarrow> u64 \<Rightarrow> kheap option" where
  "coalesce_next h block =
     (let n = get h block fnext
      in if n \<noteq> 0 \<and> block_free h n \<and> n = block + get h block fsize
         then coalesce_next
                (unlink_block (put h block fsize (get h block fsize + get h n fsize)) n) block
         else Some h)"

definition coalesce :: "kheap \<Rightarrow> u64 \<Rightarrow> kheap option" where
  "coalesce h block = do {
     h \<leftarrow> coalesce_next h block;
     let p = get h block fprev;
     if p \<noteq> 0 \<and> block_free h p \<and> block = p + get h p fsize
     then Some (unlink_block (put h p fsize (get h p fsize + get h block fsize)) block)
     else Some h
   }"

definition kheap_init :: "kheap \<Rightarrow> kheap option" where
  "kheap_init h = map_option snd (grow_heap (h\<lparr>heap_head := 0, allocated_bytes := 0\<rparr>))"

text \<open>The padding in front of the payload, and the test a block has to pass.\<close>

definition block_pad :: "u64 \<Rightarrow> u64 \<Rightarrow> u64" where
  "block_pad block alignment =
     align_up (block + HEAP_HEADER) alignment - (block + HEAP_HEADER)"

definition block_fits :: "mem \<Rightarrow> u64 \<Rightarrow> u64 \<Rightarrow> u64 \<Rightarrow> bool" where
  "block_fits m block alignment len \<longleftrightarrow> fld m block fflags AND 1 \<noteq> 0 \<and>
     \<not> fld m block fsize < HEAP_HEADER + block_pad block alignment + len"

partial_function (option) find_fit :: "mem \<Rightarrow> u64 \<Rightarrow> u64 \<Rightarrow> u64 \<Rightarrow> u64 option" where
  "find_fit m block alignment len =
     (if block = 0 then Some 0
      else if block_fits m block alignment len then Some block
      else find_fit m (fld m block fnext) alignment len)"

definition split_tail :: "kheap \<Rightarrow> u64 \<Rightarrow> u64 \<Rightarrow> u64 \<Rightarrow> kheap" where
  "split_tail h block used remaining =
     (let tail = block + used;
          h = put h tail fsize (remaining - HEAP_HEADER);
          h = put h tail fpad 0;
          h = put h tail fmagic HEAP_MAGIC;
          h = block_set_free h tail True;
          h = put h tail fnext (get h block fnext);
          h = put h tail fprev block;
          h = (if get h block fnext \<noteq> 0 then put h (get h block fnext) fprev tail else h);
          h = put h block fnext tail
      in put h block fsize used)"

definition take_block :: "kheap \<Rightarrow> u64 \<Rightarrow> u64 \<Rightarrow> u64 \<Rightarrow> u64 \<times> kheap" where
  "take_block h block alignment len =
     (let aligned = align_up (block + HEAP_HEADER) alignment;
          pad = block_pad block alignment;
          used = HEAP_HEADER + pad + len;
          remaining = get h block fsize - used;
          h = (if remaining \<ge> HEAP_MIN_FREE then split_tail h block used remaining else h);
          h = put h block fpad pad;
          h = block_set_free h block False;
          h = h\<lparr>allocated_bytes := allocated_bytes h + used\<rparr>
      in (aligned, h\<lparr>hmem := k_memset (hmem h) aligned 0 len\<rparr>))"

fun alloc_attempts :: "nat \<Rightarrow> kheap \<Rightarrow> u64 \<Rightarrow> u64 \<Rightarrow> (u64 \<times> kheap) option" where
  "alloc_attempts 0 h alignment len = Some (0, h)"
| "alloc_attempts (Suc n) h alignment len = do {
     block \<leftarrow> find_fit (hmem h) (heap_head h) alignment len;
     if block \<noteq> 0 then Some (take_block h block alignment len)
     else do {
       r \<leftarrow> grow_heap h;
       (case r of (grown, h) \<Rightarrow>
          if grown then alloc_attempts n h alignment len else Some (0, h))
     }
   }"

definition kheap_alloc :: "kheap \<Rightarrow> u64 \<Rightarrow> u64 \<Rightarrow> (u64 \<times> kheap) option" where
  "kheap_alloc h len alignment =
     (if len = 0 then Some (0, h)
      else alloc_attempts 2 h (if alignment = 0 then 16 else alignment) ((len + 15) AND NOT 15))"

definition kheap_free :: "kheap \<Rightarrow> u64 \<Rightarrow> kheap option" where
  "kheap_free h ptr =
     (if ptr = 0 then Some h
      else let block = ptr - HEAP_HEADER; block = block - get h block fpad
      in if get h block fmagic \<noteq> HEAP_MAGIC then Some h
         else let h = (if allocated_bytes h \<ge> get h block fsize
                       then h\<lparr>allocated_bytes := allocated_bytes h - get h block fsize\<rparr> else h)
              in coalesce (block_set_free h block True) block)"

section \<open>Reading headers after writing them\<close>

text \<open>A header position that does not run past the end of memory, and two that do not overlap.\<close>

definition hpos :: "u64 \<Rightarrow> bool" where
  "hpos b \<longleftrightarrow> unat b + 48 \<le> 2 ^ 64"

definition happart :: "u64 \<Rightarrow> u64 \<Rightarrow> bool" where
  "happart b c \<longleftrightarrow> hpos b \<and> hpos c \<and> (unat b + 48 \<le> unat c \<or> unat c + 48 \<le> unat b)"

lemma happart_sym: "happart b c \<Longrightarrow> happart c b"
  by (auto simp: happart_def)

lemma unat_diff:
  fixes a b :: u64
  shows "unat (a - b) = (if unat b \<le> unat a then unat a - unat b else unat a + 2 ^ 64 - unat b)"
  using unat_sub_if_size [of a b] by (simp add: word_size)

lemma cells_apart_nat:
  assumes "unat a + 8 \<le> unat b \<or> unat b + 8 \<le> unat a" "unat a + 8 \<le> 2 ^ 64" "unat b + 8 \<le> 2 ^ 64"
  shows "cells_apart a b"
  using assms unsigned_less [of a, where 'a = nat] unsigned_less [of b, where 'a = nat]
  by (auto simp: cells_apart_def word_le_nat_alt unat_diff)

lemma unat_fld:
  assumes "hpos b" "k < 6"
  shows "unat (b + 8 * k) = unat b + 8 * unat k" "unat k < 6"
proof -
  show k: "unat k < 6" using assms(2) by (simp add: word_less_nat_alt)
  have "unat (8 * k) = 8 * unat k" using unat_mult_lem [of 8 k] k by simp
  moreover have "unat b + unat (8 * k) < 2 ^ LENGTH(64)"
    using assms(1) k calculation by (simp add: hpos_def)
  then have "unat (b + 8 * k) = unat b + unat (8 * k)" by (simp only: unat_add_lem)
  ultimately show "unat (b + 8 * k) = unat b + 8 * unat k" by simp
qed

lemma fld_same [simp]:
  assumes "hpos b" "k < 6" "j < 6"
  shows "fld (set_fld m b k v) b j = (if j = k then v else fld m b j)"
proof (cases "j = k")
  case False
  then have "unat j \<noteq> unat k" by (simp add: word_unat_eq_iff)
  then have "cells_apart (b + 8 * k) (b + 8 * j)"
    using unat_fld [OF assms(1,2)] unat_fld [OF assms(1,3)] assms(1)
    by (intro cells_apart_nat) (auto simp: hpos_def)
  with False show ?thesis by (simp add: fld_def set_fld_def rd64_wr64_other)
qed (simp add: fld_def set_fld_def)

lemma fld_other [simp]:
  assumes "happart b c" "k < 6" "j < 6"
  shows "fld (set_fld m b k v) c j = fld m c j"
proof -
  have p: "hpos b" "hpos c" using assms(1) by (auto simp: happart_def)
  have "cells_apart (b + 8 * k) (c + 8 * j)"
    using unat_fld [OF p(1) assms(2)] unat_fld [OF p(2) assms(3)] assms(1) p
    by (intro cells_apart_nat) (auto simp: hpos_def happart_def)
  then show ?thesis by (simp add: fld_def set_fld_def rd64_wr64_other)
qed

lemma set_fld_byte:
  assumes "hpos b" "k < 6" "unat x < unat b \<or> unat b + 48 \<le> unat x"
  shows "set_fld m b k v x = m x"
proof -
  have "8 \<le> x - (b + 8 * k)"
    using unat_fld [OF assms(1,2)] assms(1,3) unsigned_less [of x, where 'a = nat]
    by (auto simp: word_le_nat_alt unat_diff hpos_def)
  then show ?thesis by (simp add: set_fld_def wr64_other)
qed

lemma fld_cong:
  assumes "hpos c" "j < 6" "\<And>x. unat c \<le> unat x \<Longrightarrow> unat x < unat c + 48 \<Longrightarrow> m' x = m x"
  shows "fld m' c j = fld m c j"
proof -
  have "m' (c + 8 * j + k) = m (c + 8 * j + k)" if "k < 8" for k
  proof -
    have k: "unat k < 8" using that by (simp add: word_less_nat_alt)
    have "unat (c + 8 * j) + unat k < 2 ^ LENGTH(64)"
      using unat_fld [OF assms(1,2)] assms(1) k by (simp add: hpos_def)
    then have "unat (c + 8 * j + k) = unat (c + 8 * j) + unat k" by (simp only: unat_add_lem)
    then show ?thesis using unat_fld [OF assms(1,2)] k by (intro assms(3)) auto
  qed
  from this [of 0] this [of 1] this [of 2] this [of 3] this [of 4] this [of 5] this [of 6] this [of 7]
  show ?thesis by (simp add: fld_def rd64_def)
qed

section \<open>The block list\<close>

text \<open>
  \<open>links m prv bs nx\<close>: the blocks \<open>bs\<close> are doubly linked in memory, the first one pointing back to
  \<open>prv\<close> and the last one forward to \<open>nx\<close>.
\<close>

definition hdn :: "u64 list \<Rightarrow> u64 \<Rightarrow> u64" where
  "hdn bs nx = (case bs of [] \<Rightarrow> nx | b # _ \<Rightarrow> b)"

definition lastp :: "u64 \<Rightarrow> u64 list \<Rightarrow> u64" where
  "lastp prv bs = (if bs = [] then prv else last bs)"

fun links :: "mem \<Rightarrow> u64 \<Rightarrow> u64 list \<Rightarrow> u64 \<Rightarrow> bool" where
  "links m prv [] nx = True"
| "links m prv (b # bs) nx =
     (b \<noteq> 0 \<and> fld m b fprev = prv \<and> fld m b fnext = hdn bs nx \<and> links m b bs nx)"

lemma hdn_simps [simp]: "hdn [] nx = nx" "hdn (b # bs) nx = b"
  by (simp_all add: hdn_def)

lemma lastp_simps [simp]: "lastp prv [] = prv" "lastp prv (b # bs) = lastp b bs"
  "lastp prv (bs @ [c]) = c"
  by (simp_all add: lastp_def)

lemma hdn_append [simp]: "hdn (xs @ ys) nx = hdn xs (hdn ys nx)"
  by (cases xs) simp_all

lemma links_append [simp]:
  "links m prv (xs @ ys) nx \<longleftrightarrow> links m prv xs (hdn ys nx) \<and> links m (lastp prv xs) ys nx"
  by (induction xs arbitrary: prv) auto

lemma links_cong:
  assumes "\<And>b. b \<in> set bs \<Longrightarrow> fld m' b fprev = fld m b fprev \<and> fld m' b fnext = fld m b fnext"
  shows "links m' prv bs nx = links m prv bs nx"
  using assms by (induction bs arbitrary: prv) auto

lemma links_nonzero: "links m prv bs nx \<Longrightarrow> 0 \<notin> set bs"
  by (induction bs arbitrary: prv) auto

text \<open>
  The extent of a block and the invariant of the heap with block list \<open>bs\<close>. A block always occupies
  its header: the size field of a split tail does not count the header and can be as small as 16.
\<close>

abbreviation "bsize m b \<equiv> unat (fld m b fsize)"
abbreviation "bfree m b \<equiv> fld m b fflags AND 1 \<noteq> 0"

definition ext :: "mem \<Rightarrow> u64 \<Rightarrow> nat" where
  "ext m b = max 48 (bsize m b)"

definition span :: "mem \<Rightarrow> u64 \<Rightarrow> nat set" where
  "span m b = {unat b ..< unat b + ext m b}"

definition block_ok :: "mem \<Rightarrow> u64 \<Rightarrow> bool" where
  "block_ok m b \<longleftrightarrow> unat b + ext m b \<le> 2 ^ 36 \<and> fld m b fmagic = HEAP_MAGIC"

definition before :: "mem \<Rightarrow> u64 \<Rightarrow> u64 \<Rightarrow> bool" where
  "before m b c \<longleftrightarrow> unat b + ext m b \<le> unat c"

definition blocks_ok :: "mem \<Rightarrow> u64 \<Rightarrow> u64 list \<Rightarrow> bool" where
  "blocks_ok m p bs \<longleftrightarrow> p = hdn bs 0 \<and> links m 0 bs 0 \<and> sorted_wrt (before m) bs \<and>
     (\<forall>b \<in> set bs. block_ok m b)"

definition heap_ok :: "kheap \<Rightarrow> u64 list \<Rightarrow> bool" where
  "heap_ok h bs \<longleftrightarrow> blocks_ok (hmem h) (heap_head h) bs \<and> pmm_ok (hpmm h) \<and>
     0 \<notin> pmm_free_set (hpmm h) \<and>
     (\<forall>b \<in> set bs. \<forall>x. unat x \<in> span (hmem h) b \<longrightarrow> frame_index x \<notin> pmm_free_set (hpmm h))"

lemma block_ok_hpos: "block_ok m b \<Longrightarrow> hpos b"
  by (auto simp: block_ok_def hpos_def ext_def)

lemma before_happart: "before m b c \<Longrightarrow> block_ok m b \<Longrightarrow> block_ok m c \<Longrightarrow> happart b c"
  by (auto simp: before_def happart_def hpos_def block_ok_def ext_def)

lemma sorted_apart:
  assumes "sorted_wrt (before m) bs" "\<forall>b \<in> set bs. block_ok m b" "b \<in> set bs" "c \<in> set bs" "b \<noteq> c"
  shows "before m b c \<or> before m c b"
  using assms by (induction bs) auto

lemma blocks_happart:
  assumes "blocks_ok m p bs" "b \<in> set bs" "c \<in> set bs" "b \<noteq> c"
  shows "happart b c"
  using assms sorted_apart [of m bs b c] before_happart happart_sym by (auto simp: blocks_ok_def)

lemma sorted_distinct:
  assumes "sorted_wrt (before m) bs" "\<forall>b \<in> set bs. block_ok m b"
  shows "distinct bs"
  using assms by (induction bs) (fastforce simp: before_def block_ok_def ext_def)+

text \<open>The scan of \<open>kheap_alloc\<close> ends, at the first block that fits.\<close>

lemma find_fit_links:
  assumes "links m prv bs 0"
  shows "find_fit m (hdn bs 0) alignment len =
     Some (case find (\<lambda>b. block_fits m b alignment len) bs of Some b \<Rightarrow> b | None \<Rightarrow> 0)"
  using assms
proof (induction bs arbitrary: prv)
  case Nil
  then show ?case by (subst find_fit.simps) simp
next
  case (Cons b bs)
  then show ?case using Cons.IH [of b] by (subst find_fit.simps) auto
qed

lemma insert_walk_stop: "fld m cur fnext = 0 \<or> \<not> fld m cur fnext < block \<Longrightarrow> insert_walk m block cur = Some cur"
  by (subst insert_walk.simps) auto

lemma insert_walk_step:
  "fld m cur fnext = z \<Longrightarrow> z \<noteq> 0 \<Longrightarrow> z < block \<Longrightarrow> insert_walk m block cur = insert_walk m block z"
  by (subst insert_walk.simps) simp

lemma insert_walk_links:
  assumes "links m prv bs 0" "bs = ys @ cur # zs"
  shows "\<exists>c us vs. cur # zs = us @ c # vs \<and> insert_walk m block cur = Some c \<and>
     (\<forall>u \<in> set (tl (us @ [c])). u < block) \<and> (vs \<noteq> [] \<longrightarrow> \<not> hd vs < block)"
  using assms
proof (induction zs arbitrary: cur ys)
  case Nil
  then have "fld m cur fnext = 0" by simp
  then show ?case
    by (intro exI [of _ cur] exI [of _ "[]"]) (simp add: insert_walk_stop)
next
  case (Cons z zs)
  have n: "fld m cur fnext = z" "z \<noteq> 0" using Cons.prems by auto
  show ?case
  proof (cases "z < block")
    case True
    obtain c us vs where c: "z # zs = us @ c # vs" "insert_walk m block z = Some c"
      "\<forall>u \<in> set (tl (us @ [c])). u < block" "vs \<noteq> [] \<longrightarrow> \<not> hd vs < block"
      using Cons.IH [of "ys @ [cur]" z] Cons.prems by auto
    have "\<forall>u \<in> set (us @ [c]). u < block"
      using c(1,3) True by (cases us) auto
    then show ?thesis
      using c insert_walk_step [OF n True]
      by (intro exI [of _ c] exI [of _ "cur # us"] exI [of _ vs]) simp
  next
    case False
    then show ?thesis
      using n by (intro exI [of _ cur] exI [of _ "[]"] exI [of _ "z # zs"]) (simp add: insert_walk_stop)
  qed
qed


lemma links_insert:
  assumes "links m 0 (xs @ ys) 0" "distinct (xs @ ys)" "t \<noteq> 0"
    and f: "\<And>b. b \<in> set (xs @ ys) \<Longrightarrow>
      fld m' b fprev = (if ys \<noteq> [] \<and> b = hd ys then t else fld m b fprev) \<and>
      fld m' b fnext = (if xs \<noteq> [] \<and> b = last xs then t else fld m b fnext)"
    and "fld m' t fprev = lastp 0 xs" "fld m' t fnext = hdn ys 0"
  shows "links m' 0 (xs @ t # ys) 0"
proof -
  have "links m' 0 xs t"
  proof (cases xs rule: rev_cases)
    case (snoc us c)
    have "links m' 0 us c = links m 0 us c"
      using assms(2) by (intro links_cong) (auto simp: f snoc)
    moreover have "fld m' c fprev = fld m c fprev" "fld m' c fnext = t"
      using f [of c] assms(2) by (auto simp: snoc)
    ultimately show ?thesis using assms(1) by (simp add: snoc)
  qed simp
  moreover have "links m' t ys 0"
  proof (cases ys)
    case (Cons y zs)
    have "xs \<noteq> [] \<longrightarrow> last xs \<notin> set zs"
      using assms(2) by (cases xs rule: rev_cases) (auto simp: Cons)
    then have "links m' y zs 0 = links m y zs 0"
      using assms(2) by (intro links_cong) (auto simp: f Cons)
    moreover have "fld m' y fprev = t" "fld m' y fnext = fld m y fnext"
      using f [of y] assms(2) by (auto simp: Cons)
    ultimately show ?thesis using assms(1) by (simp add: Cons)
  qed simp
  ultimately show ?thesis using assms(3,5,6) by simp
qed

lemma links_remove:
  assumes "links m 0 (xs @ n # ys) 0" "distinct (xs @ n # ys)"
    and f: "\<And>b. b \<in> set (xs @ ys) \<Longrightarrow>
      fld m' b fprev = (if ys \<noteq> [] \<and> b = hd ys then lastp 0 xs else fld m b fprev) \<and>
      fld m' b fnext = (if xs \<noteq> [] \<and> b = last xs then hdn ys 0 else fld m b fnext)"
  shows "links m' 0 (xs @ ys) 0"
proof -
  have "links m' 0 xs (hdn ys 0)"
  proof (cases xs rule: rev_cases)
    case (snoc us c)
    have "links m' 0 us c = links m 0 us c"
      using assms(2) by (intro links_cong) (auto simp: f snoc)
    moreover have "fld m' c fprev = fld m c fprev" "fld m' c fnext = hdn ys 0"
      using f [of c] assms(2) by (auto simp: snoc)
    ultimately show ?thesis using assms(1) by (simp add: snoc)
  qed simp
  moreover have "links m' (lastp 0 xs) ys 0"
  proof (cases ys)
    case (Cons y zs)
    have "xs \<noteq> [] \<longrightarrow> last xs \<notin> set zs"
      using assms(2) by (cases xs rule: rev_cases) (auto simp: Cons)
    then have "links m' y zs 0 = links m y zs 0"
      using assms(2) by (intro links_cong) (auto simp: f Cons)
    moreover have "fld m' y fprev = lastp 0 xs" "fld m' y fnext = fld m y fnext"
      using f [of y] assms(2) by (auto simp: Cons)
    ultimately show ?thesis using assms(1) by (simp add: Cons)
  qed simp
  ultimately show ?thesis by simp
qed

text \<open>What the rest of the kernel sees of the allocated blocks: address, size and contents.\<close>

definition keeps_live :: "mem \<Rightarrow> u64 list \<Rightarrow> mem \<Rightarrow> u64 list \<Rightarrow> u64 set \<Rightarrow> bool" where
  "keeps_live m bs m' bs' X \<longleftrightarrow> (\<forall>c \<in> set bs. \<not> bfree m c \<and> c \<notin> X \<longrightarrow>
     c \<in> set bs' \<and> \<not> bfree m' c \<and> bsize m' c = bsize m c \<and> fld m' c fpad = fld m c fpad \<and>
     (\<forall>x. unat c + 48 \<le> unat x \<and> unat x < unat c + bsize m c \<longrightarrow> m' x = m x))"

lemma keeps_live_refl: "keeps_live m bs m bs X"
  by (simp add: keeps_live_def)

lemma keeps_live_trans:
  "keeps_live m bs m' bs' X \<Longrightarrow> keeps_live m' bs' m'' bs'' X \<Longrightarrow> keeps_live m bs m'' bs'' X"
  unfolding keeps_live_def by metis

lemma sorted_wrt_replace:
  assumes "sorted_wrt P (xs @ b # ys)" "\<And>x. x \<in> set xs \<Longrightarrow> P x b \<Longrightarrow> Q x b \<and> Q x t"
    "\<And>y. y \<in> set ys \<Longrightarrow> P b y \<Longrightarrow> Q b y \<and> Q t y" "Q b t"
    "\<And>x y. x \<in> set (xs @ ys) \<Longrightarrow> y \<in> set (xs @ ys) \<Longrightarrow> P x y \<Longrightarrow> Q x y"
  shows "sorted_wrt Q (xs @ b # t # ys)"
proof -
  have "sorted_wrt Q xs"
    using assms(1) by (intro sorted_wrt_mono_rel [of xs P Q] assms(5)) (auto simp: sorted_wrt_append)
  moreover have "sorted_wrt Q ys"
    using assms(1) by (intro sorted_wrt_mono_rel [of ys P Q] assms(5)) (auto simp: sorted_wrt_append)
  ultimately show ?thesis
    using assms by (auto simp: sorted_wrt_append)
qed

text \<open>Splitting a block: header by header.\<close>

lemma split_tail_fields:
  assumes ap: "happart b (b + used)"
    and n: "get h b fnext \<noteq> 0 \<longrightarrow> happart (get h b fnext) b \<and> happart (get h b fnext) (b + used)"
    and h': "h' = split_tail h b used rem" and t: "t = b + used"
  shows "get h' t fsize = rem - 48" "get h' t fpad = 0" "get h' t fmagic = HEAP_MAGIC"
    "bfree (hmem h') t" "get h' t fnext = get h b fnext" "get h' t fprev = b"
    "get h' b fnext = t" "get h' b fsize = used"
    "k < 6 \<Longrightarrow> k \<noteq> fnext \<Longrightarrow> k \<noteq> fsize \<Longrightarrow> get h' b k = get h b k"
    "k < 6 \<Longrightarrow> happart c b \<Longrightarrow> happart c t \<Longrightarrow> get h b fnext = 0 \<or> c = get h b fnext \<or> happart c (get h b fnext) \<Longrightarrow>
       get h' c k = (if get h b fnext \<noteq> 0 \<and> c = get h b fnext \<and> k = fprev then t else get h c k)"
    "hpmm h' = hpmm h" "heap_head h' = heap_head h" "allocated_bytes h' = allocated_bytes h"
proof -
  have p: "hpos b" "hpos t" "happart t b" "happart b t"
    using ap happart_sym t by (auto simp: happart_def)
  have n': "happart b (get h b fnext)" "happart t (get h b fnext)" "happart (get h b fnext) b"
    "happart (get h b fnext) t" "hpos (get h b fnext)" if "get h b fnext \<noteq> 0"
    using n that happart_sym t by (auto simp: happart_def)
  have one: "(x OR 1) AND 1 \<noteq> 0" for x :: u64
    by (metis and_one_eq one_neq_zero or.commute bit.conj_disj_distrib2 and.idem or_eq_0_iff)
  note d = h' split_tail_def Let_def put_def block_set_free_def t [symmetric]
  show "get h' t fsize = rem - 48" "get h' t fpad = 0" "get h' t fmagic = HEAP_MAGIC"
    "bfree (hmem h') t" "get h' t fnext = get h b fnext" "get h' t fprev = b"
    "get h' b fnext = t" "get h' b fsize = used"
    "hpmm h' = hpmm h" "heap_head h' = heap_head h" "allocated_bytes h' = allocated_bytes h"
    using p n' one by (auto simp: d HEAP_HEADER_def)
  show "k < 6 \<Longrightarrow> k \<noteq> fnext \<Longrightarrow> k \<noteq> fsize \<Longrightarrow> get h' b k = get h b k"
    using p n' by (auto simp: d)
  show "k < 6 \<Longrightarrow> happart c b \<Longrightarrow> happart c t \<Longrightarrow> get h b fnext = 0 \<or> c = get h b fnext \<or> happart c (get h b fnext) \<Longrightarrow>
       get h' c k = (if get h b fnext \<noteq> 0 \<and> c = get h b fnext \<and> k = fprev then t else get h c k)"
    using p n' happart_sym [of c b] happart_sym [of c t] happart_sym [of c "get h b fnext"] by (auto simp: d)
qed


lemma split_tail_byte:
  assumes "hpos b" "hpos t" "get h b fnext \<noteq> 0 \<Longrightarrow> hpos (get h b fnext)" "happart b t"
    "get h b fnext \<noteq> 0 \<longrightarrow> happart (get h b fnext) b \<and> happart (get h b fnext) t"
    and t: "t = b + used"
    and "\<And>c. c \<in> {b, t} \<or> (c = get h b fnext \<and> c \<noteq> 0) \<Longrightarrow> unat x < unat c \<or> unat c + 48 \<le> unat x"
  shows "hmem (split_tail h b used rem) x = hmem h x"
proof -
  have ap: "happart t b" "happart b t" using assms(4) happart_sym by auto
  have n: "happart b (get h b fnext)" "happart t (get h b fnext)" if "get h b fnext \<noteq> 0"
    using assms(5) that happart_sym by auto
  show ?thesis
    using assms(1,2,3) ap n assms(7) [of b] assms(7) [of t] assms(7) [of "get h b fnext"]
    by (auto simp: split_tail_def Let_def put_def block_set_free_def t [symmetric] set_fld_byte)
qed

lemma unat_take_bit_mod: "unat (take_bit k x) = unat x mod 2 ^ k" for x :: u64
  by (simp add: unsigned_take_bit_eq) (simp add: take_bit_eq_mod)

lemma and_not_mask: "x AND NOT (mask k) = x - take_bit k x" for x :: u64
proof -
  have "x AND NOT (mask k) = push_bit k (drop_bit k x)"
    by (rule bit_word_eqI) (auto simp: bit_simps)
  also have "\<dots> = x - take_bit k x" using bits_ident [of k x] by (simp add: algebra_simps)
  finally show ?thesis .
qed

lemma align_up_spec:
  assumes "k \<le> 48" "unat v < 2 ^ 40"
  shows "unat v \<le> unat (align_up v (2 ^ k))" "unat (align_up v (2 ^ k)) < unat v + 2 ^ k"
    "2 ^ k dvd unat (align_up v (2 ^ k))"
proof -
  have k: "(2 :: u64) ^ k \<noteq> 0" using assms(1) by simp
  have al: "align_up v (2 ^ k) = (v + mask k) AND NOT (mask k)"
    using k by (simp add: align_up_def mask_eq_exp_minus_1 Let_def)
  have p: "(2 :: nat) ^ k \<le> 2 ^ 48" using assms(1) by (intro power_increasing) auto
  have "unat (of_nat (2 ^ k) :: u64) = 2 ^ k" using p by (simp only: unat_of_nat) simp
  then have "unat ((2 :: u64) ^ k) = 2 ^ k" by simp
  moreover have "1 \<le> (2 :: u64) ^ k" using calculation by (simp add: word_le_nat_alt)
  ultimately have mk: "unat (mask k :: u64) = 2 ^ k - 1"
    by (simp add: mask_eq_exp_minus_1 unat_sub)
  have "unat v + unat (mask k :: u64) < 2 ^ LENGTH(64)"
    using mk p assms(2) by simp
  then have "unat (v + mask k) = unat v + unat (mask k :: u64)" by (simp only: unat_add_lem)
  then have x: "unat (v + mask k) = unat v + (2 ^ k - 1)" using mk by simp
  let ?x = "v + mask k :: u64"
  have "unat (take_bit k ?x) \<le> unat ?x" by (simp add: unat_take_bit_mod)
  then have r: "unat (align_up v (2 ^ k)) = unat ?x - unat ?x mod 2 ^ k"
    unfolding al and_not_mask by (simp add: unat_sub word_le_nat_alt unat_take_bit_mod)
  define M where "M = unat ?x mod 2 ^ k"
  have "M < 2 ^ k" "(1 :: nat) \<le> 2 ^ k" by (simp_all add: M_def)
  then show "unat v \<le> unat (align_up v (2 ^ k))" "unat (align_up v (2 ^ k)) < unat v + 2 ^ k"
    using r [folded M_def] x by linarith+
  show "2 ^ k dvd unat (align_up v (2 ^ k))" unfolding r by (simp add: minus_mod_eq_mult_div)
qed


lemma blocks_ok_split_apart:
  assumes "blocks_ok m p (xs @ b # ys)" "c \<in> set (xs @ ys)"
  shows "unat c + ext m c \<le> unat b \<or> unat b + ext m b \<le> unat c" "c \<noteq> b" "block_ok m c" "happart c b"
proof -
  have s: "sorted_wrt (before m) (xs @ b # ys)" and ok: "\<forall>b \<in> set (xs @ b # ys). block_ok m b"
    using assms(1) by (auto simp: blocks_ok_def)
  then show "unat c + ext m c \<le> unat b \<or> unat b + ext m b \<le> unat c"
    using assms(2) by (auto simp: sorted_wrt_append before_def)
  then show ne: "c \<noteq> b" by (auto simp: ext_def)
  show "block_ok m c" using ok assms(2) by auto
  show "happart c b" using blocks_happart [OF assms(1)] assms(2) ne by auto
qed

lemma split_ok:
  assumes ok: "blocks_ok (hmem h) (heap_head h) (xs @ b # ys)"
    and U: "48 \<le> unat used" "unat used + 64 \<le> bsize (hmem h) b"
    and h1: "h1 = split_tail h b used (get h b fsize - used)" and t: "t = b + used"
  shows "blocks_ok (hmem h1) (heap_head h1) (xs @ b # t # ys)" "unat t = unat b + unat used"
    "bsize (hmem h1) b = unat used" "get h1 b fflags = get h b fflags"
    "unat used + ext (hmem h1) t \<le> bsize (hmem h) b"
    "\<And>c k. c \<in> set (xs @ ys) \<Longrightarrow> k < 4 \<Longrightarrow> get h1 c k = get h c k"
    "keeps_live (hmem h) (xs @ b # ys) (hmem h1) (xs @ b # t # ys) {b}" "hpmm h1 = hpmm h"
proof -
  let ?m = "hmem h" and ?n = "get h b fnext" and ?bs = "xs @ b # ys"
  note ap = blocks_ok_split_apart [OF ok]
  have bok: "block_ok ?m b" using ok by (auto simp: blocks_ok_def)
  then have P: "unat b + ext ?m b \<le> 2 ^ 36" by (simp add: block_ok_def)
  have S: "ext ?m b = bsize ?m b" using U by (simp add: ext_def)
  have "unat b + unat used < 2 ^ LENGTH(64)" using P S U by simp
  then show ut: "unat t = unat b + unat used" unfolding t by (simp only: unat_add_lem)
  have n: "?n = hdn ys 0" using ok by (auto simp: blocks_ok_def)
  have hb: "hpos b" "hpos t" and bt: "happart b t" "happart t b"
    using P S U ut by (auto simp: hpos_def happart_def)
  have ct: "happart c t" if "c \<in> set (xs @ ys)" for c
    using ap(1,3) [OF that] S U ut hb block_ok_hpos [of ?m c] by (auto simp: happart_def ext_def)
  have nb: "?n \<in> set ys" if "?n \<noteq> 0" using n that by (cases ys) auto
  then have nn: "?n \<noteq> 0 \<longrightarrow> happart ?n b \<and> happart ?n t" using ap(4) ct by auto
  note F = split_tail_fields [OF bt(1) [unfolded t] _ h1 t, unfolded t [symmetric], OF nn]
  have cn: "?n = 0 \<or> c = ?n \<or> happart c ?n" if "c \<in> set (xs @ ys)" for c
  proof (cases "?n = 0 \<or> c = ?n")
    case False
    then show ?thesis using nb that blocks_happart [OF ok, of c ?n] by auto
  qed auto
  have Fc: "get h1 c k = (if ?n \<noteq> 0 \<and> c = ?n \<and> k = fprev then t else get h c k)"
    if "c \<in> set (xs @ ys)" "k < 6" for c k
    using F(10) [OF that(2) ap(4) [OF that(1)] ct [OF that(1)] cn [OF that(1)]] .
  show sz: "bsize (hmem h1) b = unat used" and "get h1 b fflags = get h b fflags"
    and "hpmm h1 = hpmm h" using F by auto
  show "get h1 c k = get h c k" if "c \<in> set (xs @ ys)" "k < 4" for c k
  proof -
    have "unat k < 4" using that(2) by (simp add: word_less_nat_alt)
    then have "k < 6" "k \<noteq> fprev" by (auto simp: word_less_nat_alt)
    then show ?thesis using Fc [OF that(1)] by simp
  qed
  note same = this
  have ut': "unat (get h b fsize - used) = bsize ?m b - unat used"
    using U by (simp add: unat_sub word_le_nat_alt)
  have "unat (get h b fsize - used - 48) = bsize ?m b - unat used - 48"
    using U ut' by (subst unat_sub) (simp_all add: word_le_nat_alt)
  then have tsz: "bsize (hmem h1) t = bsize ?m b - unat used - 48" using F(1) by simp
  then show tx: "unat used + ext (hmem h1) t \<le> bsize ?m b" using U by (auto simp: ext_def)
  have ext_c: "ext (hmem h1) c = ext ?m c" if "c \<in> set (xs @ ys)" for c
    using same [OF that, of fsize] by (simp add: ext_def)
  have ext_b: "ext (hmem h1) b = unat used" using sz U by (simp add: ext_def)
  have dist: "distinct ?bs" using ok sorted_distinct [of ?m ?bs] unfolding blocks_ok_def by blast
  have tnot: "t \<notin> set ?bs"
  proof
    assume "t \<in> set ?bs"
    then have "t = b \<or> happart t t" using ct by auto
    then show False using bt by (auto simp: happart_def)
  qed
  have "links (hmem h1) 0 ((xs @ [b]) @ t # ys) 0"
  proof (rule links_insert [of ?m])
    show "links ?m 0 ((xs @ [b]) @ ys) 0" using ok by (simp add: blocks_ok_def)
    show "distinct ((xs @ [b]) @ ys)" using dist by simp
    show "t \<noteq> 0" using ut U by auto
    show "fld (hmem h1) t fprev = lastp 0 (xs @ [b])" "fld (hmem h1) t fnext = hdn ys 0"
      using F n by auto
    fix c assume c: "c \<in> set ((xs @ [b]) @ ys)"
    show "fld (hmem h1) c fprev = (if ys \<noteq> [] \<and> c = hd ys then t else fld ?m c fprev) \<and>
      fld (hmem h1) c fnext = (if xs @ [b] \<noteq> [] \<and> c = last (xs @ [b]) then t else fld ?m c fnext)"
    proof (cases "c = b")
      case True
      then show ?thesis using F(7) F(9) [of fprev] dist by (cases ys) auto
    next
      case False
      then have c': "c \<in> set (xs @ ys)" using c by auto
      have "?n \<noteq> 0 \<and> c = ?n \<longleftrightarrow> ys \<noteq> [] \<and> c = hd ys"
        using n ok by (cases ys) (auto simp: blocks_ok_def)
      then show ?thesis using Fc [OF c', of fprev] Fc [OF c', of fnext] False by auto
    qed
  qed
  moreover have "sorted_wrt (before (hmem h1)) (xs @ b # t # ys)"
  proof (rule sorted_wrt_replace [of "before ?m"])
    show "sorted_wrt (before ?m) ?bs" using ok by (simp add: blocks_ok_def)
    show "before (hmem h1) b t" using ext_b ut by (simp add: before_def)
  qed (use ext_c ext_b ut tx S in \<open>auto simp: before_def\<close>)
  moreover have "block_ok (hmem h1) c" if cin: "c \<in> set (xs @ b # t # ys)" for c
  proof -
    consider "c = b" | "c = t" | "c \<in> set (xs @ ys)" using cin by auto
    then show ?thesis
    proof cases
      case 1
      then show ?thesis using ext_b P S U F(9) [of fmagic] bok by (simp add: block_ok_def)
    next
      case 2
      then show ?thesis using F(3) P S tx ut by (simp add: block_ok_def)
    next
      case 3
      then show ?thesis using ap(3) ext_c same [of c fmagic] by (simp add: block_ok_def)
    qed
  qed
  moreover have "heap_head h1 = hdn (xs @ b # t # ys) 0"
    using ok F by (cases xs) (auto simp: blocks_ok_def)
  ultimately show "blocks_ok (hmem h1) (heap_head h1) (xs @ b # t # ys)" by (simp add: blocks_ok_def)
  show "keeps_live ?m ?bs (hmem h1) (xs @ b # t # ys) {b}"
    unfolding keeps_live_def
  proof (intro ballI impI; elim conjE)
    fix c assume c: "c \<in> set ?bs" "\<not> bfree ?m c" "c \<notin> {b}"
    then have c': "c \<in> set (xs @ ys)" by auto
    have "hmem h1 x = ?m x" if x: "unat c + 48 \<le> unat x \<and> unat x < unat c + bsize ?m c" for x
    proof (unfold h1, rule split_tail_byte [OF hb(1,2) _ bt(1) nn t])
      fix d assume d: "d \<in> {b, t} \<or> (d = ?n \<and> d \<noteq> 0)"
      show "unat x < unat d \<or> unat d + 48 \<le> unat x"
      proof (cases "d = c")
        case False
        have "unat c + ext ?m c \<le> unat d \<or> unat d + 48 \<le> unat c"
        proof (cases "d \<in> {b, t}")
          case True
          then show ?thesis using ap(1) [OF c'] S U ut by (auto simp: ext_def)
        next
          case F: False
          then have "d \<in> set ys" using d nb by auto
          then show ?thesis
            using sorted_apart [of ?m ?bs c d] c(1) False ok
            by (auto simp: blocks_ok_def before_def ext_def)
        qed
        then show ?thesis using x by (auto simp: ext_def)
      qed (use x in auto)
    qed (use nn in \<open>auto simp: happart_def\<close>)
    then show "c \<in> set (xs @ b # t # ys) \<and> \<not> bfree (hmem h1) c \<and> bsize (hmem h1) c = bsize ?m c \<and>
       fld (hmem h1) c fpad = fld ?m c fpad \<and>
       (\<forall>x. unat c + 48 \<le> unat x \<and> unat x < unat c + bsize ?m c \<longrightarrow> hmem h1 x = ?m x)"
      using c(2) c' same [OF c', of fflags] same [OF c', of fsize] same [OF c', of fpad] by auto
  qed
qed


lemma memset_outside:
  assumes "unat x < unat r \<or> unat r + unat n \<le> unat x" "unat r + unat n \<le> 2 ^ 64"
  shows "k_memset m r v n x = m x"
  using assms unsigned_less [of x, where 'a = nat]
  by (auto simp: k_memset_apply word_less_nat_alt unat_diff)

lemma memset_inside:
  assumes "unat r \<le> unat x" "unat x < unat r + unat n"
  shows "k_memset m r 0 n x = 0"
  using assms by (auto simp: k_memset_apply word_less_nat_alt unat_diff)

lemma clear_free_bit: "(x AND NOT 1) AND 1 = (0 :: u64)"
  by (rule bit_word_eqI) (auto simp: bit_simps)

text \<open>Marking the chosen block as used and clearing its payload.\<close>

lemma finish_ok:
  assumes ok: "blocks_ok m1 p bs" and b: "b \<in> set bs"
    and r: "unat b + 48 \<le> unat r" "unat r + unat len \<le> unat b + bsize m1 b"
    and m2: "m2 = k_memset (set_fld (set_fld m1 b fpad pad) b fflags (fld m1 b fflags AND NOT 1)) r 0 len"
  shows "blocks_ok m2 p bs" "\<not> bfree m2 b" "bsize m2 b = bsize m1 b" "keeps_live m1 bs m2 bs {b}"
    "\<forall>x. unat r \<le> unat x \<and> unat x < unat r + unat len \<longrightarrow> m2 x = 0"
    "\<forall>c \<in> set bs. ext m2 c = ext m1 c"
proof -
  let ?a = "set_fld (set_fld m1 b fpad pad) b fflags (fld m1 b fflags AND NOT 1)"
  have bok: "block_ok m1 b" "hpos b" using ok b block_ok_hpos by (auto simp: blocks_ok_def)
  have ub: "unat b + ext m1 b \<le> 2 ^ 36" using bok by (simp add: block_ok_def)
  have be: "bsize m1 b \<le> ext m1 b" by (simp add: ext_def)
  have lim: "unat r + unat len \<le> 2 ^ 64" using r ub be by simp
  have sp: "unat c + ext m1 c \<le> unat b \<or> unat b + ext m1 b \<le> unat c" if "c \<in> set bs" "c \<noteq> b" for c
    using sorted_apart [of m1 bs c b] ok b that by (auto simp: blocks_ok_def before_def)
  have hdr: "fld m2 c j = fld ?a c j" if "c \<in> set bs" "j < 6" for c j
  proof (unfold m2, rule fld_cong [OF _ that(2)])
    show "hpos c" using ok that block_ok_hpos by (auto simp: blocks_ok_def)
    fix x :: u64 assume x: "unat c \<le> unat x" "unat x < unat c + 48"
    show "k_memset ?a r 0 len x = ?a x"
    proof (rule memset_outside [OF _ lim], cases "c = b")
      case False
      then show "unat x < unat r \<or> unat r + unat len \<le> unat x"
        using sp [OF that(1) False] x r be by (auto simp: ext_def)
    qed (use x r in auto)
  qed
  have fb: "fld ?a b j = (if j = fpad then pad else if j = fflags then fld m1 b fflags AND NOT 1 else fld m1 b j)"
    if "j < 6" for j using bok(2) that by simp
  have fc: "fld ?a c j = fld m1 c j" if "c \<in> set bs" "c \<noteq> b" "j < 6" for c j
    using blocks_happart [OF ok b that(1)] that by simp
  have f: "fld m2 c j = fld m1 c j" if "c \<in> set bs" "j < 6" "j \<noteq> fpad" "j \<noteq> fflags" for c j
    using hdr fb fc that by (cases "c = b") auto
  show ex: "\<forall>c \<in> set bs. ext m2 c = ext m1 c" using f by (simp add: ext_def)
  have "links m2 0 bs 0" using ok links_cong [of bs m2 m1 0 0] f by (simp add: blocks_ok_def)
  moreover have "sorted_wrt (before m2) bs"
    using ok ex by (auto simp: blocks_ok_def before_def intro: sorted_wrt_mono_rel [of bs "before m1"])
  moreover have "\<forall>c \<in> set bs. block_ok m2 c" using ok f ex by (simp add: blocks_ok_def block_ok_def)
  ultimately show "blocks_ok m2 p bs" using ok by (simp add: blocks_ok_def)
  show "\<not> bfree m2 b" using hdr [OF b, of fflags] fb [of fflags] clear_free_bit by simp
  show "bsize m2 b = bsize m1 b" using f [OF b, of fsize] by simp
  show "\<forall>x. unat r \<le> unat x \<and> unat x < unat r + unat len \<longrightarrow> m2 x = 0"
    unfolding m2 by (simp add: memset_inside)
  show "keeps_live m1 bs m2 bs {b}"
    unfolding keeps_live_def
  proof (intro ballI impI; elim conjE)
    fix c assume c: "c \<in> set bs" "\<not> bfree m1 c" "c \<notin> {b}"
    have "m2 x = m1 x" if x: "unat c + 48 \<le> unat x \<and> unat x < unat c + bsize m1 c" for x
    proof -
      have "m2 x = ?a x" unfolding m2
        using sp [OF c(1)] c(3) x r be by (intro memset_outside lim) (auto simp: ext_def)
      moreover have "unat x < unat b \<or> unat b + 48 \<le> unat x"
        using sp [OF c(1)] c(3) x by (auto simp: ext_def)
      then have "?a x = m1 x" using bok(2) by (simp add: set_fld_byte)
      ultimately show ?thesis by simp
    qed
    then show "c \<in> set bs \<and> \<not> bfree m2 c \<and> bsize m2 c = bsize m1 c \<and> fld m2 c fpad = fld m1 c fpad \<and>
       (\<forall>x. unat c + 48 \<le> unat x \<and> unat x < unat c + bsize m1 c \<longrightarrow> m2 x = m1 x)"
      using c hdr [OF c(1)] fc [OF c(1)] f [OF c(1), of fsize] by auto
  qed
qed

lemma keeps_live_weaken: "keeps_live m bs m' bs' X \<Longrightarrow> X \<subseteq> Y \<Longrightarrow> keeps_live m bs m' bs' Y"
  unfolding keeps_live_def by blast

text \<open>The block chosen by \<open>kheap_alloc\<close>, cut to size and taken.\<close>

lemma take_block_ok:
  assumes ok: "blocks_ok (hmem h) (heap_head h) (xs @ b # ys)" and k: "k \<le> 48" and len: "unat len \<le> 2 ^ 40"
    and fit: "block_fits (hmem h) b (2 ^ k) len" and r: "take_block h b (2 ^ k) len = (res, h')"
  shows "\<exists>bs'. blocks_ok (hmem h') (heap_head h') bs' \<and> hpmm h' = hpmm h \<and> b \<in> set bs' \<and>
    \<not> bfree (hmem h') b \<and> unat b + 48 \<le> unat res \<and>
    unat res + unat len \<le> unat b + bsize (hmem h') b \<and> 2 ^ k dvd unat res \<and>
    (\<forall>x. unat res \<le> unat x \<and> unat x < unat res + unat len \<longrightarrow> hmem h' x = 0) \<and>
    keeps_live (hmem h) (xs @ b # ys) (hmem h') bs' {b} \<and>
    (\<Union>c \<in> set bs'. span (hmem h') c) \<subseteq> (\<Union>c \<in> set (xs @ b # ys). span (hmem h) c)"
proof -
  let ?m = "hmem h" and ?bs = "xs @ b # ys"
  have bok: "block_ok ?m b" using ok by (auto simp: blocks_ok_def)
  then have P: "unat b + ext ?m b \<le> 2 ^ 36" by (simp add: block_ok_def)
  have "unat b + unat (48 :: u64) < 2 ^ LENGTH(64)" using P by (simp add: ext_def)
  then have "unat (b + 48) = unat b + unat (48 :: u64)" by (simp only: unat_add_lem)
  then have b48: "unat (b + 48) = unat b + 48" by simp
  define R where "R = align_up (b + HEAP_HEADER) (2 ^ k)"
  have "unat (b + HEAP_HEADER) < 2 ^ 40" using b48 P by (simp add: const_defs ext_def)
  note A = align_up_spec [OF k this, folded R_def, unfolded HEAP_HEADER_def b48]
  have pk: "(2 :: nat) ^ k \<le> 2 ^ 48" using k by (intro power_increasing) auto
  define pad where "pad = block_pad b (2 ^ k)"
  have "pad = R - (b + 48)" by (simp add: pad_def block_pad_def R_def HEAP_HEADER_def)
  then have padu: "unat pad = unat R - (unat b + 48)"
    using A b48 by (simp add: unat_sub word_le_nat_alt)
  define used where "used = HEAP_HEADER + pad + len"
  have usedu: "unat used = 48 + unat pad + unat len"
  proof -
    have "unat (48 :: u64) + unat pad < 2 ^ LENGTH(64)" using padu A pk by simp
    then have "unat (48 + pad) = unat (48 :: u64) + unat pad" by (simp only: unat_add_lem)
    moreover have "unat (48 + pad) + unat len < 2 ^ LENGTH(64)" using padu A pk len calculation by simp
    then have "unat (48 + pad + len) = unat (48 + pad) + unat len" by (simp only: unat_add_lem)
    ultimately show ?thesis by (simp add: used_def HEAP_HEADER_def)
  qed
  have fits: "unat used \<le> bsize ?m b"
    using fit by (simp add: block_fits_def used_def pad_def word_less_nat_alt)
  define rem where "rem = get h b fsize - used"
  have remu: "unat rem = bsize ?m b - unat used"
    using fits by (simp add: rem_def unat_sub word_le_nat_alt)
  define h1 where "h1 = (if rem \<ge> HEAP_MIN_FREE then split_tail h b used rem else h)"
  have h': "res = R" "hmem h' = k_memset (set_fld (set_fld (hmem h1) b fpad pad) b fflags
        (fld (set_fld (hmem h1) b fpad pad) b fflags AND NOT 1)) R 0 len"
    "heap_head h' = heap_head h1" "hpmm h' = hpmm h1"
    using r by (auto simp: take_block_def Let_def R_def pad_def used_def rem_def h1_def put_def
        block_set_free_def split: if_splits)
  have hb: "hpos b" using bok by (rule block_ok_hpos)
  define bs' where "bs' = (if rem \<ge> HEAP_MIN_FREE then xs @ b # (b + used) # ys else ?bs)"
  have S: "blocks_ok (hmem h1) (heap_head h1) bs'" "unat used \<le> bsize (hmem h1) b" "hpmm h1 = hpmm h"
    "keeps_live ?m ?bs (hmem h1) bs' {b}"
    "(\<Union>c \<in> set bs'. span (hmem h1) c) \<subseteq> (\<Union>c \<in> set ?bs. span ?m c)"
  proof -
    have "blocks_ok (hmem h1) (heap_head h1) bs' \<and> unat used \<le> bsize (hmem h1) b \<and> hpmm h1 = hpmm h \<and>
      keeps_live ?m ?bs (hmem h1) bs' {b} \<and>
      (\<Union>c \<in> set bs'. span (hmem h1) c) \<subseteq> (\<Union>c \<in> set ?bs. span ?m c)"
    proof (cases "rem \<ge> HEAP_MIN_FREE")
      case True
      then have "64 \<le> unat rem" by (simp add: const_defs word_le_nat_alt)
      then have U: "48 \<le> unat used" "unat used + 64 \<le> bsize ?m b" using usedu remu by auto
      have h1: "h1 = split_tail h b used (get h b fsize - used)" using True by (simp add: h1_def rem_def)
      note sp = split_ok [OF ok U h1 refl]
      have "ext (hmem h1) c = ext ?m c" if "c \<in> set (xs @ ys)" for c
        using sp(6) [OF that, of fsize] by (simp add: ext_def)
      then have "span (hmem h1) c = span ?m c" if "c \<in> set (xs @ ys)" for c
        using that by (simp add: span_def)
      moreover have "span (hmem h1) b \<subseteq> span ?m b" "span (hmem h1) (b + used) \<subseteq> span ?m b"
        using sp(2,3,5) U by (auto simp: span_def ext_def)
      ultimately show ?thesis using sp True by (auto simp: bs'_def)
    next
      case False
      then show ?thesis
        using ok fits by (simp add: h1_def bs'_def keeps_live_refl)
    qed
    then show "blocks_ok (hmem h1) (heap_head h1) bs'" "unat used \<le> bsize (hmem h1) b" "hpmm h1 = hpmm h"
      "keeps_live ?m ?bs (hmem h1) bs' {b}"
      "(\<Union>c \<in> set bs'. span (hmem h1) c) \<subseteq> (\<Union>c \<in> set ?bs. span ?m c)" by blast+
  qed
  have b': "b \<in> set bs'" by (simp add: bs'_def)
  have m2: "hmem h' = k_memset (set_fld (set_fld (hmem h1) b fpad pad) b fflags
        (fld (hmem h1) b fflags AND NOT 1)) R 0 len" using h'(2) hb by simp
  have R: "unat b + 48 \<le> unat R" "unat R + unat len \<le> unat b + bsize (hmem h1) b"
    using A S(2) usedu padu by auto
  note F = finish_ok [OF S(1) b' R m2]
  have "(\<Union>c \<in> set bs'. span (hmem h') c) = (\<Union>c \<in> set bs'. span (hmem h1) c)"
    using F(6) by (simp add: span_def)
  then show ?thesis
    using F S h' b' R A keeps_live_trans [OF S(4) F(4)]
    by (intro exI [of _ bs']) (simp add: h'(1))
qed


section \<open>Growing the heap\<close>

lemma sorted_wrt_insert:
  assumes "sorted_wrt P (xs @ ys)" "\<forall>x \<in> set xs. Q x t" "\<forall>y \<in> set ys. Q t y"
    "\<And>x y. x \<in> set (xs @ ys) \<Longrightarrow> y \<in> set (xs @ ys) \<Longrightarrow> P x y \<Longrightarrow> Q x y"
  shows "sorted_wrt Q (xs @ t # ys)"
proof -
  have "sorted_wrt Q (xs @ ys)"
    using assms(1) by (rule sorted_wrt_mono_rel [of "xs @ ys" P Q, rotated]) (rule assms(4))
  then show ?thesis using assms(2,3) by (auto simp: sorted_wrt_append)
qed

lemma insert_at:
  assumes ok: "blocks_ok m p (xs @ ys)"
    and t: "t \<noteq> 0" "block_ok m' t" "\<forall>x \<in> set xs. unat x + ext m x \<le> unat t"
      "\<forall>y \<in> set ys. unat t + ext m' t \<le> unat y"
    and f0: "\<forall>c \<in> set (xs @ ys). \<forall>k < 6. fld m' c k =
       (if k = fprev \<and> ys \<noteq> [] \<and> c = hd ys then t
        else if k = fnext \<and> xs \<noteq> [] \<and> c = last xs then t else fld m c k)"
    and l: "fld m' t fprev = lastp 0 xs" "fld m' t fnext = hdn ys 0"
    and bytes: "\<forall>x. (\<forall>c \<in> set (xs @ t # ys). unat x < unat c \<or> unat c + 48 \<le> unat x) \<longrightarrow> m' x = m x"
  shows "blocks_ok m' (hdn (xs @ t # ys) 0) (xs @ t # ys)"
    "keeps_live m (xs @ ys) m' (xs @ t # ys) {}"
    "c \<in> set (xs @ ys) \<Longrightarrow> ext m' c = ext m c"
proof -
  have f: "fld m' c k = (if k = fprev \<and> ys \<noteq> [] \<and> c = hd ys then t
        else if k = fnext \<and> xs \<noteq> [] \<and> c = last xs then t else fld m c k)"
    if "c \<in> set (xs @ ys)" "k < 6" for c k using f0 that by blast
  have dist: "distinct (xs @ ys)" using ok sorted_distinct [of m "xs @ ys"] unfolding blocks_ok_def by blast
  have L: "links m' 0 (xs @ t # ys) 0"
    using ok dist t(1) l by (intro links_insert [of m]) (auto simp: blocks_ok_def f)
  have e: "ext m' c = ext m c" if "c \<in> set (xs @ ys)" for c
    using f [OF that, of fsize] by (simp add: ext_def)
  then show "c \<in> set (xs @ ys) \<Longrightarrow> ext m' c = ext m c" .
  have "sorted_wrt (before m') (xs @ t # ys)"
  proof (rule sorted_wrt_insert [of "before m"])
    show "sorted_wrt (before m) (xs @ ys)" using ok by (simp add: blocks_ok_def)
  qed (use t e in \<open>auto simp: before_def\<close>)
  moreover have "block_ok m' c" if "c \<in> set (xs @ ys)" for c
    using ok that e [OF that] f [OF that, of fmagic] by (auto simp: blocks_ok_def block_ok_def)
  ultimately show "blocks_ok m' (hdn (xs @ t # ys) 0) (xs @ t # ys)"
    using L t(2) by (auto simp: blocks_ok_def)
  show "keeps_live m (xs @ ys) m' (xs @ t # ys) {}"
    unfolding keeps_live_def
  proof (intro ballI impI; elim conjE)
    fix c assume c: "c \<in> set (xs @ ys)" "\<not> bfree m c"
    have "m' x = m x" if x: "unat c + 48 \<le> unat x \<and> unat x < unat c + bsize m c" for x
    proof (rule bytes [rule_format])
      fix d assume d: "d \<in> set (xs @ t # ys)"
      consider "d = c" | "d = t" | "d \<in> set (xs @ ys)" "d \<noteq> c" using d by auto
      then show "unat x < unat d \<or> unat d + 48 \<le> unat x"
      proof cases
        case 2
        then show ?thesis using t(3,4) c(1) x by (auto simp: ext_def)
      next
        case 3
        then show ?thesis
          using sorted_apart [of m "xs @ ys" c d] c(1) ok x by (auto simp: blocks_ok_def before_def ext_def)
      qed (use x in auto)
    qed
    then show "c \<in> set (xs @ t # ys) \<and> \<not> bfree m' c \<and> bsize m' c = bsize m c \<and>
       fld m' c fpad = fld m c fpad \<and>
       (\<forall>x. unat c + 48 \<le> unat x \<and> unat x < unat c + bsize m c \<longrightarrow> m' x = m x)"
      using c f [OF c(1), of fflags] f [OF c(1), of fsize] f [OF c(1), of fpad] by auto
  qed
qed

lemma add_region_ok:
  assumes ok: "blocks_ok (hmem h) (heap_head h) bs" and len: "64 \<le> unat len"
    and base: "base \<noteq> 0" "unat base + unat len \<le> 2 ^ 36"
    and apart: "\<forall>c \<in> set bs. unat c + ext (hmem h) c \<le> unat base \<or> unat base + unat len \<le> unat c"
  shows "\<exists>h' bs'. add_region h base len = Some h' \<and> blocks_ok (hmem h') (heap_head h') bs' \<and>
    set bs' = insert base (set bs) \<and> hpmm h' = hpmm h \<and> bfree (hmem h') base \<and>
    bsize (hmem h') base = unat len - 48 \<and> get h' base fpad = 0 \<and>
    keeps_live (hmem h) bs (hmem h') bs' {} \<and> (\<forall>c \<in> set bs. ext (hmem h') c = ext (hmem h) c)"
proof -
  let ?m = "hmem h"
  have hb: "hpos base" using base len by (simp add: hpos_def)
  have ap: "happart c base" "happart base c" if "c \<in> set bs" for c
    using apart that len ok hb block_ok_hpos [of ?m c] by (auto simp: happart_def blocks_ok_def ext_def)
  have one: "(x OR 1) AND 1 \<noteq> 0" for x :: u64
    by (metis and_one_eq one_neq_zero or.commute bit.conj_disj_distrib2 and.idem or_eq_0_iff)
  define h0 where "h0 = put (block_set_free (put (put h base fsize (len - HEAP_HEADER)) base fpad 0) base True)
    base fmagic HEAP_MAGIC"
  have h0: "heap_head h0 = heap_head h" "hpmm h0 = hpmm h"
    by (simp_all add: h0_def put_def block_set_free_def)
  have c0: "get h0 c k = get h c k" if "c \<in> set bs" "k < 6" for c k
    using ap [OF that(1)] that(2) by (simp add: h0_def put_def block_set_free_def)
  have b0: "get h0 base fsize = len - 48" "get h0 base fmagic = HEAP_MAGIC" "bfree (hmem h0) base"
    "get h0 base fpad = 0"
    using hb one by (simp_all add: h0_def put_def block_set_free_def HEAP_HEADER_def)
  have byte0: "hmem h0 x = ?m x" if "unat x < unat base \<or> unat base + 48 \<le> unat x" for x
    using hb that by (simp add: h0_def put_def block_set_free_def set_fld_byte)
  have L0: "links (hmem h0) 0 bs 0" using ok links_cong [of bs "hmem h0" ?m 0 0] c0 by (simp add: blocks_ok_def)
  have sz: "unat (len - 48) = unat len - 48" using len by (simp add: unat_sub word_le_nat_alt)
  have ar: "add_region h base len = (let h = h0; cur = heap_head h
      in if cur = 0 \<or> base < cur
         then let h = put h base fnext cur; h = put h base fprev 0;
                  h = (if cur \<noteq> 0 then put h cur fprev base else h)
              in Some (h\<lparr>heap_head := base\<rparr>)
         else do {
           cur \<leftarrow> insert_walk (hmem h) base cur;
           let h = put h base fnext (get h cur fnext);
           let h = put h base fprev cur;
           let h = (if get h cur fnext \<noteq> 0 then put h (get h cur fnext) fprev base else h);
           Some (put h cur fnext base)
         })"
    using len by (simp add: add_region_def insert_free_block_def h0_def const_defs word_less_nat_alt Let_def)
  have goal: ?thesis
    if bs: "bs = xs @ ys" and pos: "\<forall>x \<in> set xs. unat x < unat base" "\<forall>y \<in> set ys. unat base < unat y"
      and h': "add_region h base len = Some h'" "heap_head h' = hdn (xs @ base # ys) 0" "hpmm h' = hpmm h"
      and F: "\<And>c k. c \<in> set bs \<Longrightarrow> k < 6 \<Longrightarrow> fld (hmem h') c k =
       (if k = fprev \<and> ys \<noteq> [] \<and> c = hd ys then base
        else if k = fnext \<and> xs \<noteq> [] \<and> c = last xs then base else get h0 c k)"
      and B: "\<And>k. k < 6 \<Longrightarrow> get h' base k =
        (if k = fprev then lastp 0 xs else if k = fnext then hdn ys 0 else get h0 base k)"
      and bytes: "\<And>x. \<forall>c \<in> set (xs @ base # ys). unat x < unat c \<or> unat c + 48 \<le> unat x \<Longrightarrow> hmem h' x = hmem h0 x"
    for xs ys h'
  proof -
    have sb: "bsize (hmem h') base = unat len - 48" using B [of fsize] b0(1) sz by simp
    then have e: "ext (hmem h') base \<le> unat len" using len by (simp add: ext_def)
    have "fld (hmem h') base fmagic = HEAP_MAGIC" using B [of fmagic] b0(2) by simp
    then have eb: "block_ok (hmem h') base" using e base(2) by (simp add: block_ok_def)
    have "unat x + ext ?m x \<le> unat base" if "x \<in> set xs" for x
      using apart [rule_format, of x] pos(1) [rule_format, of x] that bs by auto
    moreover have "unat base + ext (hmem h') base \<le> unat y" if "y \<in> set ys" for y
      using apart [rule_format, of y] pos(2) [rule_format, of y] that bs e by auto
    ultimately have l: "\<forall>x \<in> set xs. unat x + ext ?m x \<le> unat base"
      "\<forall>y \<in> set ys. unat base + ext (hmem h') base \<le> unat y" by blast+
    have F': "\<forall>c \<in> set (xs @ ys). \<forall>k < 6. fld (hmem h') c k =
       (if k = fprev \<and> ys \<noteq> [] \<and> c = hd ys then base
        else if k = fnext \<and> xs \<noteq> [] \<and> c = last xs then base else fld ?m c k)"
      using F c0 bs by simp
    have by': "\<forall>x. (\<forall>c \<in> set (xs @ base # ys). unat x < unat c \<or> unat c + 48 \<le> unat x) \<longrightarrow> hmem h' x = ?m x"
      using bytes byte0 by simp
    have B': "fld (hmem h') base fprev = lastp 0 xs" "fld (hmem h') base fnext = hdn ys 0"
      using B [of fprev] B [of fnext] by simp_all
    note I = insert_at [OF ok [unfolded bs] base(1) eb l F' B' by']
    show ?thesis
      using I h' sb B [of fflags] B [of fpad] b0(3,4) bs by (intro exI [of _ h'] exI [of _ "xs @ base # ys"]) auto
  qed
  have inc: "unat c < unat d" if "bs = us @ c # vs" "d \<in> set vs" for us c vs d
    using ok that by (auto simp: blocks_ok_def sorted_wrt_append before_def ext_def)
  have ne: "unat c \<noteq> unat base" if "c \<in> set bs" for c
    using ap(1) [OF that] by (auto simp: happart_def)
  have hd0: "heap_head h0 = hdn bs 0" using ok h0 by (simp add: blocks_ok_def)
  show ?thesis
  proof (cases "heap_head h0 = 0 \<or> base < heap_head h0")
    case True
    show ?thesis
    proof (cases bs)
      case Nil
      let ?h' = "(put (put h0 base fnext 0) base fprev 0)\<lparr>heap_head := base\<rparr>"
      have "add_region h base len = Some ?h'" using ar hd0 Nil by (simp add: Let_def)
      then show ?thesis
        using hb h0 Nil by (intro goal [of "[]" "[]" ?h']) (auto simp: put_def set_fld_byte)
    next
      case (Cons c cs)
      have c0: "c \<noteq> 0" using L0 Cons by simp
      let ?h' = "(put (put (put h0 base fnext c) base fprev 0) c fprev base)\<lparr>heap_head := base\<rparr>"
      have ar': "add_region h base len = Some ?h'" using ar hd0 Cons True c0 by (simp add: Let_def)
      have bc: "unat base < unat c" using True hd0 Cons c0 by (simp add: word_less_nat_alt)
      have cc: "happart c d" if "d \<in> set cs" for d
        using blocks_happart [OF ok, of c d] inc [of "[]" c cs d] that Cons by auto
      have cin: "c \<in> set bs" using Cons by simp
      have hc: "hpos c" using ap(1) [OF cin] by (simp add: happart_def)
      show ?thesis
      proof (rule goal [of "[]" bs ?h'])
        show "\<forall>y \<in> set bs. unat base < unat y"
          using bc inc [of "[]" c cs] Cons by (auto intro: less_trans)
        fix d k assume d: "d \<in> set bs" "k < (6 :: u64)"
        show "fld (hmem ?h') d k = (if k = fprev \<and> bs \<noteq> [] \<and> d = hd bs then base
            else if k = fnext \<and> [] \<noteq> [] \<and> d = last [] then base else get h0 d k)"
          using d ap(2) [OF d(1)] cc hc Cons by (auto simp: put_def)
      next
        fix k assume "k < (6 :: u64)"
        then show "get ?h' base k = (if k = fprev then lastp 0 [] else if k = fnext then hdn bs 0 else get h0 base k)"
          using ap(1) [OF cin] hb Cons by (auto simp: put_def)
      next
        fix x :: u64 assume "\<forall>c \<in> set ([] @ base # bs). unat x < unat c \<or> unat c + 48 \<le> unat x"
        then show "hmem ?h' x = hmem h0 x" using hb hc Cons by (simp add: put_def set_fld_byte)
      qed (use ar' h0 Cons in \<open>auto simp: put_def\<close>)
    qed
  next
    case False
    then obtain c0 cs where bs: "bs = c0 # cs" using hd0 by (cases bs) auto
    obtain c us vs where w: "c0 # cs = us @ c # vs" "insert_walk (hmem h0) base c0 = Some c"
      "\<forall>u \<in> set (tl (us @ [c])). u < base" "vs \<noteq> [] \<longrightarrow> \<not> hd vs < base"
      using insert_walk_links [OF L0, of "[]" c0 cs base] bs by auto
    have bs': "bs = us @ c # vs" using w(1) bs by simp
    have cin: "c \<in> set bs" using bs' by simp
    have hc: "hpos c" using ap(1) [OF cin] by (simp add: happart_def)
    have n0: "get h0 c fnext = hdn vs 0" using L0 bs' by simp
    have "unat c0 < unat base" using False hd0 bs ne [of c0] by (simp add: word_less_nat_alt)
    then have xs: "\<forall>x \<in> set (us @ [c]). unat x < unat base"
      using w(1,3) by (cases us) (auto simp: word_less_nat_alt)
    have ys: "unat base < unat y" if "y \<in> set vs" for y
    proof (cases vs)
      case (Cons v vs')
      then have "unat base < unat v"
        using w(4) ne [of v] bs' by (simp add: word_less_nat_alt)
      then show ?thesis using inc [of "us @ [c]" v vs' y] Cons that bs' by (cases "y = v") auto
    qed (use that in simp)
    let ?h1 = "put (put h0 base fnext (hdn vs 0)) base fprev c"
    let ?h2 = "if hdn vs 0 \<noteq> 0 then put ?h1 (hdn vs 0) fprev base else ?h1"
    let ?h' = "put ?h2 c fnext base"
    have ar': "add_region h base len = Some ?h'"
      using ar False hd0 bs w(2) n0 ap(2) [OF cin] by (auto simp: Let_def put_def)
    have v0: "hdn vs 0 \<noteq> 0 \<longleftrightarrow> vs \<noteq> []" using L0 bs' by (cases vs) auto
    have vin: "hdn vs 0 \<in> set bs" "hdn vs 0 \<in> set vs" if "vs \<noteq> []" using that bs' by (cases vs; simp)+
    have hv: "hpos (hdn vs 0)" if "vs \<noteq> []" using ap(1) [OF vin(1) [OF that]] by (simp add: happart_def)
    have cd: "happart c d" if "d \<in> set bs" "d \<noteq> c" for d using blocks_happart [OF ok cin] that by auto
    have vd: "happart (hdn vs 0) d" if "d \<in> set bs" "vs \<noteq> []" "d \<noteq> hdn vs 0" for d
      using blocks_happart [OF ok vin(1) [OF that(2)]] that by auto
    have cv: "c \<noteq> hdn vs 0" if "vs \<noteq> []" using inc [OF bs' vin(2) [OF that]] by auto
    show ?thesis
    proof (rule goal [of "us @ [c]" vs ?h'])
      fix d k assume d: "d \<in> set bs" "k < (6 :: u64)"
      show "fld (hmem ?h') d k = (if k = fprev \<and> vs \<noteq> [] \<and> d = hd vs then base
          else if k = fnext \<and> us @ [c] \<noteq> [] \<and> d = last (us @ [c]) then base else get h0 d k)"
        using d ap(2) [OF d(1)] cd [of d] vd [of d] hc hv cv cd [of "hdn vs 0"] vin v0
        by (cases vs; cases "d = c"; cases "d = hdn vs 0") (auto simp: put_def)
    next
      fix k assume "k < (6 :: u64)"
      then show "get ?h' base k = (if k = fprev then lastp 0 (us @ [c]) else if k = fnext then hdn vs 0 else get h0 base k)"
        using ap(1) [OF cin] ap(1) [OF vin(1)] hb v0 by (auto simp: put_def)
    next
      fix x :: u64 assume "\<forall>c \<in> set ((us @ [c]) @ base # vs). unat x < unat c \<or> unat c + 48 \<le> unat x"
      then show "hmem ?h' x = hmem h0 x" using hb hc hv vin v0 by (simp add: put_def set_fld_byte)
    qed (use ar' h0 bs bs' xs ys hd0 w(1) in \<open>auto simp: put_def neq_Nil_conv\<close>)
  qed
qed

definition spans :: "mem \<Rightarrow> u64 list \<Rightarrow> nat set" where
  "spans m bs = (\<Union>c \<in> set bs. span m c)"

lemma unat_frame_index: "unat (frame_index x) = unat x div 4096"
  using take_bit_nat_eq_self [OF unsigned_less [of x, where 'a = nat]]
  unfolding frame_index_def by (simp add: unsigned_drop_bit_eq) (simp add: drop_bit_eq_div)

lemma heap_okD: "heap_ok h bs \<Longrightarrow> unat x \<in> spans (hmem h) bs \<Longrightarrow> frame_index x \<notin> pmm_free_set (hpmm h)"
  by (auto simp: heap_ok_def spans_def)

text \<open>A run of frames the physical memory manager hands out, as a byte interval.\<close>

lemma frame_run:
  assumes "run = {x. s \<le> x \<and> unat x < unat s + unat n}" "unat s + unat n \<le> unat PMM_MAX_FRAMES"
  shows "unat (push_bit 12 s) = 4096 * unat s" "unat (push_bit 12 s) + 4096 * unat n \<le> 2 ^ 36"
    "unat (push_bit 12 s) \<le> unat x \<Longrightarrow> unat x < unat (push_bit 12 s) + 4096 * unat n \<Longrightarrow> frame_index x \<in> run"
proof -
  have lim: "unat s + unat n \<le> 16777216" using assms(2) by (simp add: PMM_MAX_FRAMES_num)
  have "push_bit 12 s = 4096 * s" by (simp add: push_bit_eq_mult)
  then show u: "unat (push_bit 12 s) = 4096 * unat s"
    using unat_mult_lem [of 4096 s] lim by simp
  then show "unat (push_bit 12 s) + 4096 * unat n \<le> 2 ^ 36" using lim by simp
  assume "unat (push_bit 12 s) \<le> unat x" "unat x < unat (push_bit 12 s) + 4096 * unat n"
  then have "unat s \<le> unat x div 4096" "unat x div 4096 < unat s + unat n" using u by auto
  then show "frame_index x \<in> run" using assms(1) by (simp add: word_le_nat_alt unat_frame_index)
qed

lemma intervals_apart:
  assumes "a < b" "c < (d :: nat)" "\<And>x. a \<le> x \<Longrightarrow> x < b \<Longrightarrow> c \<le> x \<Longrightarrow> x < d \<Longrightarrow> False"
  shows "b \<le> c \<or> d \<le> a"
proof (rule ccontr)
  assume "\<not> ?thesis"
  then have "c < b" "a < d" by auto
  then show False using assms(1,2) by (intro assms(3) [of "max a c"]) auto
qed

lemma add_region_heap:
  assumes ok: "heap_ok h bs" and n: "16 \<le> unat n" "n = chunk div 4096" "unat chunk = 4096 * unat n"
    and s: "s \<noteq> 0" "unat s + unat n \<le> unat PMM_MAX_FRAMES"
      "{x. s \<le> x \<and> unat x < unat s + unat n} \<subseteq> pmm_free_set (hpmm h)"
    and p: "pmm_ok p" "pmm_free_set p = pmm_free_set (hpmm h) - {x. s \<le> x \<and> unat x < unat s + unat n}"
  shows "\<exists>h' bs'. add_region (h\<lparr>hpmm := p\<rparr>) (push_bit 12 s) chunk = Some h' \<and> heap_ok h' bs' \<and>
    set bs \<subseteq> set bs' \<and> keeps_live (hmem h) bs (hmem h') bs' {}"
proof -
  let ?b = "push_bit 12 s" and ?run = "{x. s \<le> x \<and> unat x < unat s + unat n}"
  note R = frame_run [OF refl s(2)]
  have blk: "blocks_ok (hmem h) (heap_head h) bs" using ok by (simp add: heap_ok_def)
  have apart: "unat c + ext (hmem h) c \<le> unat ?b \<or> unat ?b + unat chunk \<le> unat c" if c: "c \<in> set bs" for c
  proof (rule intervals_apart)
    show "unat c < unat c + ext (hmem h) c" by (simp add: ext_def)
    show "unat ?b < unat ?b + unat chunk" using n by simp
    fix x assume x: "unat c \<le> x" "x < unat c + ext (hmem h) c" "unat ?b \<le> x" "x < unat ?b + unat chunk"
    have "x < 2 ^ 64" using x(4) R(2) n(3) by simp
    then have ux: "unat (of_nat x :: u64) = x" by (simp add: unat_of_nat)
    have "frame_index (of_nat x) \<in> ?run" using R(3) [of "of_nat x"] x n(3) ux by simp
    moreover have "frame_index (of_nat x) \<notin> pmm_free_set (hpmm h)"
      using heap_okD [OF ok, of "of_nat x"] c x ux by (auto simp: spans_def span_def)
    ultimately show False using s(3) by blast
  qed
  have b0: "?b \<noteq> 0" using R(1) s(1) by (metis mult_eq_0_iff unat_eq_zero zero_neq_numeral)
  obtain h' bs' where h': "add_region (h\<lparr>hpmm := p\<rparr>) ?b chunk = Some h'"
      "blocks_ok (hmem h') (heap_head h') bs'" "set bs' = insert ?b (set bs)" "hpmm h' = p"
      "bsize (hmem h') ?b = unat chunk - 48" "keeps_live (hmem h) bs (hmem h') bs' {}"
      "\<forall>c \<in> set bs. ext (hmem h') c = ext (hmem h) c"
    using add_region_ok [of "h\<lparr>hpmm := p\<rparr>" bs chunk ?b] blk b0 R(2) n apart by auto
  have "frame_index x \<notin> pmm_free_set p" if "c \<in> set bs'" "unat x \<in> span (hmem h') c" for c x
  proof (cases "c = ?b")
    case True
    then have "frame_index x \<in> ?run"
      using that h'(5) n by (intro R(3)) (auto simp: span_def ext_def)
    then show ?thesis using p(2) by blast
  next
    case False
    then have "unat x \<in> spans (hmem h) bs" using that h'(3,7) by (auto simp: spans_def span_def)
    then show ?thesis using heap_okD [OF ok] p(2) by blast
  qed
  then have "heap_ok h' bs'" using h' p ok by (auto simp: heap_ok_def)
  then show ?thesis using h' by blast
qed

lemma grow_loop_ok:
  assumes "heap_ok h bs" "chunk = 2 ^ j" "j \<le> 22"
  shows "\<exists>g h' bs'. grow_loop h chunk = Some (g, h') \<and> heap_ok h' bs' \<and> set bs \<subseteq> set bs' \<and>
    keeps_live (hmem h) bs (hmem h') bs' {}"
  using assms
proof (induction j arbitrary: h chunk)
  case 0
  then have "\<not> chunk \<ge> 64 * 1024" by (simp add: word_le_nat_alt)
  then have "grow_loop h chunk = Some (False, h)" by (simp add: grow_loop.simps [of h chunk])
  then show ?case using 0(1) by (auto intro: keeps_live_refl)
next
  case (Suc j)
  show ?case
  proof (cases "chunk \<ge> 64 * 1024")
    case False
    then show ?thesis using Suc.prems(1)
      by (auto simp: grow_loop.simps [of h chunk] intro: keeps_live_refl)
  next
    case True
    let ?n = "chunk div 4096"
    have pow: "unat ((2 :: u64) ^ i) = 2 ^ i" if "i \<le> 22" for i
    proof -
      have "(2 :: nat) ^ i < 2 ^ 64" using that by (intro power_strict_increasing) auto
      then have "unat (of_nat (2 ^ i) :: u64) = 2 ^ i" by (simp only: unat_of_nat) simp
      then show ?thesis by simp
    qed
    have uc: "unat chunk = 2 ^ Suc j" using Suc.prems(2,3) pow [of "Suc j"] by simp
    have big: "65536 \<le> unat chunk" using True by (simp add: word_le_nat_alt)
    have j: "16 \<le> Suc j"
    proof (rule ccontr)
      assume "\<not> 16 \<le> Suc j"
      then have "(2 :: nat) ^ Suc j \<le> 2 ^ 15" by (intro power_increasing) auto
      then show False using big uc by simp
    qed
    have un: "unat ?n = 2 ^ Suc j div 4096" using uc by (simp add: unat_div)
    have "(2 :: nat) ^ Suc j = 4096 * 2 ^ (Suc j - 12)"
    proof -
      have "(2 :: nat) ^ Suc j = 2 ^ (12 + (Suc j - 12))" using j by simp
      then show ?thesis by (simp only: power_add) simp
    qed
    then have n: "unat chunk = 4096 * unat ?n" "16 \<le> unat ?n" "?n \<noteq> 0"
      using uc un big by auto
    have P: "pmm_ok (hpmm h)" "0 \<notin> pmm_free_set (hpmm h)" using Suc.prems(1) by (auto simp: heap_ok_def)
    obtain a p where ap: "pmm_alloc_contig (hpmm h) ?n = (a, p)" by force
    note C = pmm_alloc_contig_spec [OF P n(3)]
    show ?thesis
    proof (cases "a = 0")
      case True
      have "p = hpmm h"
      proof (rule ccontr)
        assume "p \<noteq> hpmm h"
        then obtain s where s: "a = push_bit 12 s" "s \<noteq> 0" "unat s + unat ?n \<le> unat PMM_MAX_FRAMES"
          using C ap by (auto split: if_splits)
        then show False using frame_run(1) [OF refl s(3)] True by (simp add: unat_eq_zero)
      qed
      moreover have "chunk div 2 = 2 ^ j"
        using uc pow [of j] Suc.prems(3) by (simp add: word_unat_eq_iff unat_div)
      moreover have "grow_loop h chunk = grow_loop (h\<lparr>hpmm := p\<rparr>) (chunk div 2)"
        using ap True \<open>chunk \<ge> 64 * 1024\<close> by (simp add: grow_loop.simps [of h chunk] Let_def)
      ultimately show ?thesis using Suc.IH [of h "chunk div 2"] Suc.prems(1,3) by simp
    next
      case False
      then obtain s where s: "a = push_bit 12 s" "s \<noteq> 0" "unat s + unat ?n \<le> unat PMM_MAX_FRAMES"
          "{x. s \<le> x \<and> unat x < unat s + unat ?n} \<subseteq> pmm_free_set (hpmm h)"
          "pmm_free_set p = pmm_free_set (hpmm h) - {x. s \<le> x \<and> unat x < unat s + unat ?n}" "pmm_ok p"
        using C ap by (auto split: if_splits)
      obtain h' bs' where "add_region (h\<lparr>hpmm := p\<rparr>) a chunk = Some h'" "heap_ok h' bs'"
          "set bs \<subseteq> set bs'" "keeps_live (hmem h) bs (hmem h') bs' {}"
        using add_region_heap [OF Suc.prems(1) n(2) refl n(1) s(2,3,4,6,5)] s(1) by auto
      then show ?thesis
        using ap False True by (auto simp: grow_loop.simps [of h chunk] Let_def)
    qed
  qed
qed

lemma grow_heap_ok:
  assumes "heap_ok h bs"
  shows "\<exists>g h' bs'. grow_heap h = Some (g, h') \<and> heap_ok h' bs' \<and> set bs \<subseteq> set bs' \<and>
    keeps_live (hmem h) bs (hmem h') bs' {}"
  using grow_loop_ok [OF assms, of HEAP_GROW_CHUNK 22] by (simp add: grow_heap_def const_defs)


section \<open>Allocation\<close>

text \<open>
  What a caller gets from a successful allocation: an aligned, zeroed payload inside one allocated
  block, which was free or did not exist before, while every allocated block stays as it was.
\<close>

definition fresh_payload :: "mem \<Rightarrow> u64 list \<Rightarrow> mem \<Rightarrow> u64 list \<Rightarrow> nat \<Rightarrow> u64 \<Rightarrow> u64 \<Rightarrow> bool" where
  "fresh_payload m bs m' bs' k len res \<longleftrightarrow> (\<exists>b \<in> set bs'. \<not> bfree m' b \<and> (b \<in> set bs \<longrightarrow> bfree m b) \<and>
     unat b + 48 \<le> unat res \<and> unat res + unat len \<le> unat b + bsize m' b \<and> 2 ^ k dvd unat res \<and>
     (\<forall>x. unat res \<le> unat x \<and> unat x < unat res + unat len \<longrightarrow> m' x = 0))"

lemma alloc_attempts_ok:
  assumes "heap_ok h bs" "k \<le> 48" "unat len \<le> 2 ^ 40"
  shows "\<exists>res h' bs'. alloc_attempts n h (2 ^ k) len = Some (res, h') \<and> heap_ok h' bs' \<and>
    keeps_live (hmem h) bs (hmem h') bs' {} \<and>
    (res = 0 \<or> fresh_payload (hmem h) bs (hmem h') bs' k len res) \<and>
    (n \<noteq> 0 \<and> (\<exists>b \<in> set bs. block_fits (hmem h) b (2 ^ k) len) \<longrightarrow> res \<noteq> 0)"
  using assms(1)
proof (induction n arbitrary: h bs)
  case 0
  then show ?case by (auto intro: keeps_live_refl)
next
  case (Suc n)
  have ok: "blocks_ok (hmem h) (heap_head h) bs" using Suc.prems by (simp add: heap_ok_def)
  then have ff: "find_fit (hmem h) (heap_head h) (2 ^ k) len =
     Some (case find (\<lambda>b. block_fits (hmem h) b (2 ^ k) len) bs of Some b \<Rightarrow> b | None \<Rightarrow> 0)"
    using find_fit_links [of "hmem h" 0 bs] by (simp add: blocks_ok_def)
  show ?case
  proof (cases "find (\<lambda>b. block_fits (hmem h) b (2 ^ k) len) bs")
    case None
    then have nf: "\<not> (\<exists>b \<in> set bs. block_fits (hmem h) b (2 ^ k) len)" by (simp add: find_None_iff)
    obtain g h1 bs1 where g: "grow_heap h = Some (g, h1)" "heap_ok h1 bs1" "set bs \<subseteq> set bs1"
        "keeps_live (hmem h) bs (hmem h1) bs1 {}"
      using grow_heap_ok [OF Suc.prems] by blast
    show ?thesis
    proof (cases g)
      case False
      then show ?thesis using ff None g nf by auto
    next
      case True
      obtain res h' bs' where r: "alloc_attempts n h1 (2 ^ k) len = Some (res, h')" "heap_ok h' bs'"
          "keeps_live (hmem h1) bs1 (hmem h') bs' {}"
          "res = 0 \<or> fresh_payload (hmem h1) bs1 (hmem h') bs' k len res"
        using Suc.IH [OF g(2)] by blast
      have "fresh_payload (hmem h) bs (hmem h') bs' k len res" if "res \<noteq> 0"
      proof -
        have "b \<in> set bs \<longrightarrow> bfree (hmem h) b" if "b \<in> set bs1 \<longrightarrow> bfree (hmem h1) b" for b
          using that g(3,4) unfolding keeps_live_def by blast
        then show ?thesis using r(4) that unfolding fresh_payload_def by blast
      qed
      then show ?thesis
        using ff None g(1) True r(1,2) keeps_live_trans [OF g(4) r(3)] nf by auto
    qed
  next
    case (Some b)
    then obtain i where i: "i < length bs" "b = bs ! i" "block_fits (hmem h) b (2 ^ k) len"
      by (auto simp: find_Some_iff)
    then obtain xs ys where bs: "bs = xs @ b # ys" by (metis id_take_nth_drop)
    have "b \<noteq> 0" using ok bs links_nonzero by (auto simp: blocks_ok_def)
    obtain res h' where r: "take_block h b (2 ^ k) len = (res, h')" by force
    obtain bs' where b': "blocks_ok (hmem h') (heap_head h') bs'" "hpmm h' = hpmm h" "b \<in> set bs'"
      "\<not> bfree (hmem h') b" "unat b + 48 \<le> unat res" "unat res + unat len \<le> unat b + bsize (hmem h') b"
      "2 ^ k dvd unat res" "\<forall>x. unat res \<le> unat x \<and> unat x < unat res + unat len \<longrightarrow> hmem h' x = 0"
      "keeps_live (hmem h) bs (hmem h') bs' {b}"
      "(\<Union>c \<in> set bs'. span (hmem h') c) \<subseteq> (\<Union>c \<in> set bs. span (hmem h) c)"
      using take_block_ok [OF ok [unfolded bs] assms(2,3) i(3) r] bs by auto
    have bf: "bfree (hmem h) b" using i(3) by (simp add: block_fits_def)
    have "heap_ok h' bs'" using Suc.prems b'(1,2,10) unfolding heap_ok_def by fastforce
    moreover have "keeps_live (hmem h) bs (hmem h') bs' {}"
      using b'(9) bf unfolding keeps_live_def by blast
    moreover have "fresh_payload (hmem h) bs (hmem h') bs' k len res"
      using b' bf unfolding fresh_payload_def by blast
    moreover have "res \<noteq> 0" using b'(5) by auto
    ultimately show ?thesis using ff Some \<open>b \<noteq> 0\<close> r by auto
  qed
qed

lemma round_up_16:
  fixes len :: u64
  assumes "unat len \<le> 2 ^ 39"
  shows "unat len \<le> unat ((len + 15) AND NOT 15)" "unat ((len + 15) AND NOT 15) \<le> 2 ^ 40"
proof -
  have "align_up len (2 ^ 4) = (len + 15) AND NOT 15" by (simp add: align_up_def Let_def)
  then show "unat len \<le> unat ((len + 15) AND NOT 15)" "unat ((len + 15) AND NOT 15) \<le> 2 ^ 40"
    using align_up_spec(1,2) [of 4 len] assms by auto
qed

text \<open>
  C2: on a well-formed heap \<open>kheap_alloc\<close> always returns. The heap stays well formed; every block
  allocated before is still allocated, at the same place, with the same size and the same contents;
  and a non-null result is an aligned, zeroed region of at least \<open>len\<close> bytes inside one allocated
  block that was not allocated before, so allocations never overlap. It does not fail as long as some
  free block is large enough.
\<close>

theorem kheap_alloc_safe:
  assumes "heap_ok h bs" "alignment = 2 ^ k" "k \<le> 48" "unat len \<le> 2 ^ 39" "len \<noteq> 0"
  shows "\<exists>res h' bs'. kheap_alloc h len alignment = Some (res, h') \<and> heap_ok h' bs' \<and>
    keeps_live (hmem h) bs (hmem h') bs' {} \<and>
    (res = 0 \<or> (\<exists>len' \<ge> len. fresh_payload (hmem h) bs (hmem h') bs' k len' res)) \<and>
    ((\<exists>b \<in> set bs. block_fits (hmem h) b alignment ((len + 15) AND NOT 15)) \<longrightarrow> res \<noteq> 0)"
proof -
  let ?l = "(len + 15) AND NOT 15"
  have a: "(2 :: u64) ^ k \<noteq> 0" using assms(3) by simp
  obtain res h' bs' where r: "alloc_attempts 2 h (2 ^ k) ?l = Some (res, h')" "heap_ok h' bs'"
    "keeps_live (hmem h) bs (hmem h') bs' {}" "res = 0 \<or> fresh_payload (hmem h) bs (hmem h') bs' k ?l res"
    "(\<exists>b \<in> set bs. block_fits (hmem h) b (2 ^ k) ?l) \<longrightarrow> res \<noteq> 0"
    using alloc_attempts_ok [OF assms(1,3) round_up_16(2) [OF assms(4)], of 2] by (metis zero_neq_numeral)
  moreover have "len \<le> ?l" using round_up_16(1) [OF assms(4)] by (simp add: word_le_nat_alt)
  moreover have "kheap_alloc h len alignment = alloc_attempts 2 h (2 ^ k) ?l"
    using assms(2,5) a by (simp add: kheap_alloc_def)
  ultimately show ?thesis using assms(2) by auto
qed

text \<open>A heap that has not been initialised is well formed with no blocks.\<close>

definition heap0 :: "pmm \<Rightarrow> kheap" where
  "heap0 p = \<lparr>hmem = (\<lambda>_. 0), hpmm = p, heap_head = 0, allocated_bytes = 0\<rparr>"

lemma heap0_ok: "pmm_ok p \<Longrightarrow> 0 \<notin> pmm_free_set p \<Longrightarrow> heap_ok (heap0 p) []"
  by (simp add: heap_ok_def heap0_def blocks_ok_def)

definition heap1 :: kheap where
  "heap1 = the (add_region (heap0 pmm_two) 0x100000 0x10000)"

lemma heap1_ok: "heap_ok heap1 [0x100000] \<and> bsize (hmem heap1) 0x100000 = 65488 \<and>
  bfree (hmem heap1) 0x100000 \<and> get heap1 0x100000 fpad = 0"
proof -
  have "blocks_ok (hmem (heap0 pmm_two)) (heap_head (heap0 pmm_two)) []"
    by (simp add: heap0_def blocks_ok_def)
  from add_region_ok [OF this, of "0x10000" "0x100000"]
  obtain bs' where r: "blocks_ok (hmem heap1) (heap_head heap1) bs'" "set bs' = {0x100000}"
    "hpmm heap1 = pmm_two" "bfree (hmem heap1) 0x100000" "bsize (hmem heap1) 0x100000 = 65488"
    "get heap1 0x100000 fpad = 0" by (auto simp: heap1_def heap0_def)
  have "distinct bs'" using r(1) sorted_distinct [of "hmem heap1" bs'] unfolding blocks_ok_def by blast
  then have "bs' = [0x100000]" using r(2) by (cases bs') (auto simp: insert_eq_iff subset_singleton_iff)
  moreover have "frame_index x \<notin> {1, 2}" if "unat x \<in> span (hmem heap1) 0x100000" for x
  proof -
    have "256 \<le> unat (frame_index x)" using that by (auto simp: span_def unat_frame_index)
    then show ?thesis by auto
  qed
  ultimately show ?thesis using r by (auto simp: heap_ok_def pmm_two_facts)
qed

theorem kheap_alloc_safe_witness:
  "\<exists>res h' bs'. kheap_alloc heap1 100 64 = Some (res, h') \<and> res \<noteq> 0 \<and> heap_ok h' bs' \<and>
    (\<exists>len' \<ge> 100. fresh_payload (hmem heap1) [0x100000] (hmem h') bs' 6 len' res)"
proof -
  have "block_fits (hmem heap1) 0x100000 64 ((100 + 15) AND NOT 15)"
    using heap1_ok by (simp add: block_fits_def block_pad_def align_up_def const_defs word_less_nat_alt)
  then show ?thesis using kheap_alloc_safe [OF heap1_ok [THEN conjunct1], of 64 6 100] by auto
qed

section \<open>Freeing\<close>

lemma free_bit_set: "(x OR 1) AND 1 \<noteq> (0 :: u64)"
  using and_exp_eq_0_iff_not_bit [of "x OR 1" 0] by (simp add: bit_or_iff)

text \<open>The bytes a block accounts for, and merging a block with its direct neighbour.\<close>

definition rspan :: "mem \<Rightarrow> u64 \<Rightarrow> nat set" where
  "rspan m b = {unat b ..< unat b + bsize m b}"

lemma merge_ok:
  assumes ok: "blocks_ok (hmem h) (heap_head h) (xs @ b # n # ys)"
    and adj: "n = b + get h b fsize"
    and h': "h' = unlink_block (put h b fsize (get h b fsize + get h n fsize)) n"
    and nf: "bfree (hmem h) n"
  shows "blocks_ok (hmem h') (heap_head h') (xs @ b # ys)" "hpmm h' = hpmm h"
    "keeps_live (hmem h) (xs @ b # n # ys) (hmem h') (xs @ b # ys) {b}"
    "get h' b fflags = get h b fflags" "get h' b fprev = get h b fprev"
    "rspan (hmem h') b = rspan (hmem h) b \<union> rspan (hmem h) n" "span (hmem h') b \<subseteq> span (hmem h) b \<union> span (hmem h) n"
    "\<And>c. c \<in> set (xs @ ys) \<Longrightarrow> get h' c fflags = get h c fflags \<and> get h' c fsize = get h c fsize"
proof -
  let ?m = "hmem h" and ?bs = "xs @ b # n # ys" and ?z = "get h n fnext"
  have srt: "sorted_wrt (before ?m) ?bs" and bok: "\<forall>c \<in> set ?bs. block_ok ?m c" and lk: "links ?m 0 ?bs 0"
    using ok by (auto simp: blocks_ok_def)
  have dist: "distinct ?bs" using sorted_distinct [OF srt bok] .
  note hap = blocks_happart [OF ok]
  have hb: "hpos c" if "c \<in> set ?bs" for c using bok that block_ok_hpos by blast
  have bn: "unat b + ext ?m b \<le> unat n" using srt by (auto simp: sorted_wrt_append before_def)
  have b36: "unat b + ext ?m b \<le> 2 ^ 36" "unat n + ext ?m n \<le> 2 ^ 36" using bok by (auto simp: block_ok_def)
  have "unat b + bsize ?m b < 2 ^ LENGTH(64)" using b36(1) by (simp add: ext_def)
  then have un: "unat n = unat b + bsize ?m b" unfolding adj by (simp only: unat_add_lem)
  then have eb: "ext ?m b = bsize ?m b" using bn by (simp add: ext_def)
  have "bsize ?m b + bsize ?m n < 2 ^ LENGTH(64)" using b36 un by (simp add: ext_def)
  then have us: "unat (get h b fsize + get h n fsize) = bsize ?m b + bsize ?m n" by (simp only: unat_add_lem)
  have links: "get h n fprev = b" "b \<noteq> 0" "?z = hdn ys 0" "get h b fnext = n" using lk by auto
  have z: "?z \<noteq> 0 \<longleftrightarrow> ys \<noteq> []" "ys \<noteq> [] \<Longrightarrow> ?z \<in> set ys \<and> ?z = hd ys"
    using lk links(3) by (cases ys; auto)+
  define m1 where "m1 = set_fld ?m b fsize (get h b fsize + get h n fsize)"
  define m2 where "m2 = set_fld m1 b fnext ?z"
  define m3 where "m3 = (if ?z \<noteq> 0 then set_fld m2 ?z fprev b else m2)"
  have hbn: "happart b n" "hpos b" using hap [of b n] hb dist by auto
  have hbz: "happart b ?z" "happart ?z b" "happart ?z n" "hpos ?z" if "ys \<noteq> []"
  proof -
    have "?z \<in> set ys" using z(2) [OF that] by blast
    moreover from this have "?z \<noteq> b" "?z \<noteq> n" using dist by auto
    ultimately show "happart b ?z" "happart ?z b" "happart ?z n" "hpos ?z"
      using hap [of b ?z] hap [of ?z b] hap [of ?z n] hb [of ?z] by auto
  qed
  have "h' = h\<lparr>hmem := m3\<rparr>"
    using links hbn hbz z(1)
    by (auto simp: h' unlink_block_def put_def m1_def m2_def m3_def Let_def)
  then have hh: "hmem h' = m3" "heap_head h' = heap_head h" "hpmm h' = hpmm h" by simp_all
  then show "hpmm h' = hpmm h" by simp
  have fb: "fld m3 b k = (if k = fsize then get h b fsize + get h n fsize
      else if k = fnext then ?z else fld ?m b k)" if "k < 6" for k
    using that hbn hbz z(1) by (auto simp: m3_def m2_def m1_def)
  have fc: "fld m3 c k = (if ys \<noteq> [] \<and> c = hd ys \<and> k = fprev then b else fld ?m c k)"
    if c: "c \<in> set (xs @ ys)" and k: "k < 6" for c k
  proof -
    have "happart b c" using hap [of b c] c dist by auto
    moreover have "?z \<noteq> 0 \<Longrightarrow> c \<noteq> ?z \<Longrightarrow> happart ?z c" using hap [of ?z c] z c by auto
    ultimately show ?thesis using k z hbz(4) by (cases "c = ?z") (auto simp: m3_def m2_def m1_def)
  qed
  show "get h' b fflags = get h b fflags" "get h' b fprev = get h b fprev" using fb by (simp_all add: hh)
  show "get h' c fflags = get h c fflags \<and> get h' c fsize = get h c fsize" if "c \<in> set (xs @ ys)" for c
    using fc [OF that] by (simp add: hh)
  have exb: "ext m3 b = bsize ?m b + bsize ?m n" using fb [of fsize] us eb by (simp add: ext_def)
  have exc: "ext m3 c = ext ?m c" if "c \<in> set (xs @ ys)" for c using fc [OF that, of fsize] by (simp add: ext_def)
  show "rspan (hmem h') b = rspan ?m b \<union> rspan ?m n" "span (hmem h') b \<subseteq> span ?m b \<union> span ?m n"
    using exb eb un fb [of fsize] us by (auto simp: span_def rspan_def hh ext_def)
  have "links m3 0 ((xs @ [b]) @ ys) 0"
  proof (rule links_remove [of ?m _ n])
    show "links ?m 0 ((xs @ [b]) @ n # ys) 0" using lk by simp
    show "distinct ((xs @ [b]) @ n # ys)" using dist by simp
    fix c assume c: "c \<in> set ((xs @ [b]) @ ys)"
    show "fld m3 c fprev = (if ys \<noteq> [] \<and> c = hd ys then lastp 0 (xs @ [b]) else fld ?m c fprev) \<and>
      fld m3 c fnext = (if xs @ [b] \<noteq> [] \<and> c = last (xs @ [b]) then hdn ys 0 else fld ?m c fnext)"
    proof (cases "c = b")
      case True
      then show ?thesis using fb links(3) dist by (cases ys) auto
    next
      case False
      then show ?thesis using fc [of c] c by auto
    qed
  qed
  moreover have "sorted_wrt (before m3) (xs @ b # ys)"
  proof -
    have P: "sorted_wrt (before ?m) (xs @ ys)" "\<forall>x \<in> set xs. before ?m x b" "\<forall>y \<in> set ys. before ?m n y"
      using srt by (auto simp: sorted_wrt_append)
    show ?thesis
    proof (rule sorted_wrt_insert [OF P(1)])
      show "\<forall>x \<in> set xs. before m3 x b" using P(2) exc by (auto simp: before_def)
      show "\<forall>y \<in> set ys. before m3 b y" using P(3) exb un by (auto simp: before_def ext_def)
    qed (use exc in \<open>auto simp: before_def\<close>)
  qed
  moreover have "block_ok m3 c" if c: "c \<in> set (xs @ b # ys)" for c
  proof (cases "c = b")
    case True
    then show ?thesis using exb b36 un fb [of fmagic] bok by (auto simp: block_ok_def ext_def)
  next
    case False
    then show ?thesis using c exc [of c] fc [of c fmagic] bok by (auto simp: block_ok_def)
  qed
  moreover have "heap_head h' = hdn (xs @ b # ys) 0" using ok hh by (cases xs) (auto simp: blocks_ok_def)
  ultimately show "blocks_ok (hmem h') (heap_head h') (xs @ b # ys)" by (simp add: blocks_ok_def hh)
  show "keeps_live ?m ?bs (hmem h') (xs @ b # ys) {b}"
    unfolding keeps_live_def
  proof (intro ballI impI; elim conjE)
    fix c assume c: "c \<in> set ?bs" "\<not> bfree ?m c" "c \<notin> {b}"
    then have c': "c \<in> set (xs @ ys)" using nf by auto
    have "m3 x = ?m x" if x: "unat c + 48 \<le> unat x \<and> unat x < unat c + bsize ?m c" for x
    proof -
      have out: "unat x < unat d \<or> unat d + 48 \<le> unat x" if "d \<in> set ?bs" for d
        using sorted_apart [OF srt bok c(1) that] x by (cases "d = c") (auto simp: before_def ext_def)
      show ?thesis
        using out [of b] out [of ?z] z hbn hbz(4) by (auto simp: m3_def m2_def m1_def set_fld_byte)
    qed
    then show "c \<in> set (xs @ b # ys) \<and> \<not> bfree (hmem h') c \<and> bsize (hmem h') c = bsize ?m c \<and>
       fld (hmem h') c fpad = fld ?m c fpad \<and>
       (\<forall>x. unat c + 48 \<le> unat x \<and> unat x < unat c + bsize ?m c \<longrightarrow> hmem h' x = ?m x)"
      using c(2) c' fc [OF c', of fflags] fc [OF c', of fsize] fc [OF c', of fpad] by (auto simp: hh)
  qed
qed

lemma set_flags_ok:
  assumes ok: "blocks_ok m p bs" and b: "b \<in> set bs" and m': "m' = set_fld m b fflags v"
  shows "blocks_ok m' p bs" "keeps_live m bs m' bs {b}" "fld m' b fflags = v" "\<And>c. c \<in> set bs \<Longrightarrow> span m' c = span m c"
proof -
  have hb: "hpos b" using ok b block_ok_hpos by (auto simp: blocks_ok_def)
  have f: "fld m' c k = (if c = b \<and> k = fflags then v else fld m c k)" if "c \<in> set bs" "k < 6" for c k
    using blocks_happart [OF ok b that(1)] hb that by (cases "c = b") (auto simp: m')
  show "fld m' b fflags = v" using f [OF b] by simp
  have ex: "ext m' c = ext m c" if "c \<in> set bs" for c using f [OF that, of fsize] by (simp add: ext_def)
  then show "\<And>c. c \<in> set bs \<Longrightarrow> span m' c = span m c" by (simp add: span_def)
  have "links m' 0 bs 0" using ok links_cong [of bs m' m 0 0] f by (simp add: blocks_ok_def)
  moreover have "sorted_wrt (before m') bs"
    using ok ex by (auto simp: blocks_ok_def before_def intro: sorted_wrt_mono_rel [of bs "before m"])
  ultimately show "blocks_ok m' p bs" using ok f ex by (auto simp: blocks_ok_def block_ok_def)
  show "keeps_live m bs m' bs {b}"
    unfolding keeps_live_def
  proof (intro ballI impI; elim conjE)
    fix c assume c: "c \<in> set bs" "\<not> bfree m c" "c \<notin> {b}"
    have "m' x = m x" if x: "unat c + 48 \<le> unat x \<and> unat x < unat c + bsize m c" for x
    proof -
      have "unat x < unat b \<or> unat b + 48 \<le> unat x"
        using sorted_apart [of m bs c b] ok b c x by (auto simp: blocks_ok_def before_def ext_def)
      then show ?thesis using hb by (simp add: m' set_fld_byte)
    qed
    then show "c \<in> set bs \<and> \<not> bfree m' c \<and> bsize m' c = bsize m c \<and> fld m' c fpad = fld m c fpad \<and>
       (\<forall>x. unat c + 48 \<le> unat x \<and> unat x < unat c + bsize m c \<longrightarrow> m' x = m x)"
      using c f [OF c(1)] by auto
  qed
qed

text \<open>
  The loop over the following blocks merges until the next one is not free or not adjacent; each turn
  removes a block from the list, so it ends.
\<close>

lemma coalesce_next_ok:
  assumes "blocks_ok (hmem h) (heap_head h) (xs @ b # ys)"
  shows "\<exists>h' ys'. coalesce_next h b = Some h' \<and> blocks_ok (hmem h') (heap_head h') (xs @ b # ys') \<and>
    hpmm h' = hpmm h \<and> get h' b fflags = get h b fflags \<and>
    keeps_live (hmem h) (xs @ b # ys) (hmem h') (xs @ b # ys') {b} \<and>
    rspan (hmem h) b \<subseteq> rspan (hmem h') b \<and> spans (hmem h') (xs @ b # ys') \<subseteq> spans (hmem h) (xs @ b # ys)"
  using assms
proof (induction ys arbitrary: h)
  case Nil
  then have "get h b fnext = 0" by (simp add: blocks_ok_def)
  then have "coalesce_next h b = Some h" by (subst coalesce_next.simps) (simp add: Let_def)
  then show ?case using Nil by (intro exI [of _ h] exI [of _ "[]"]) (simp add: keeps_live_refl)
next
  case (Cons n ys)
  have nx: "get h b fnext = n" "n \<noteq> 0" using Cons.prems by (auto simp: blocks_ok_def)
  show ?case
  proof (cases "block_free h n \<and> n = b + get h b fsize")
    case False
    then have "coalesce_next h b = Some h" using nx by (subst coalesce_next.simps) (auto simp: Let_def)
    then show ?thesis using Cons.prems
      by (intro exI [of _ h] exI [of _ "n # ys"]) (simp add: keeps_live_refl)
  next
    case True
    define h1 where "h1 = unlink_block (put h b fsize (get h b fsize + get h n fsize)) n"
    have cond: "get h b fnext \<noteq> 0 \<and> block_free h (get h b fnext) \<and> get h b fnext = b + get h b fsize"
      using True nx by metis
    have "coalesce_next h b = coalesce_next (unlink_block (put h b fsize
        (get h b fsize + get h (get h b fnext) fsize)) (get h b fnext)) b"
      by (subst coalesce_next.simps) (unfold Let_def, rule if_P [OF cond])
    then have step: "coalesce_next h b = coalesce_next h1 b" by (simp only: h1_def nx(1))
    have free: "bfree (hmem h) n" using True unfolding block_free_def by blast
    note M = merge_ok [OF Cons.prems _ h1_def free] 
    have adj: "n = b + get h b fsize" using True by simp
    obtain h' ys' where I: "coalesce_next h1 b = Some h'" "blocks_ok (hmem h') (heap_head h') (xs @ b # ys')"
      "hpmm h' = hpmm h1" "get h' b fflags = get h1 b fflags"
      "keeps_live (hmem h1) (xs @ b # ys) (hmem h') (xs @ b # ys') {b}" "rspan (hmem h1) b \<subseteq> rspan (hmem h') b"
      "spans (hmem h') (xs @ b # ys') \<subseteq> spans (hmem h1) (xs @ b # ys)"
      using Cons.IH [OF M(1) [OF adj]] by blast
    have "span (hmem h1) c = span (hmem h) c" if "c \<in> set (xs @ ys)" for c
      using M(8) [OF adj that] by (simp add: span_def ext_def)
    then have "spans (hmem h1) (xs @ b # ys) \<subseteq> spans (hmem h) (xs @ b # n # ys)"
      using M(7) [OF adj] by (auto simp: spans_def)
    moreover have "keeps_live (hmem h) (xs @ b # n # ys) (hmem h') (xs @ b # ys') {b}"
      by (rule keeps_live_trans [OF M(3) [OF adj] I(5)])
    ultimately show ?thesis
      using I M(2,4,6) [OF adj] step by (intro exI [of _ h'] exI [of _ ys']) auto
  qed
qed


lemma coalesce_ok:
  assumes ok: "blocks_ok (hmem h) (heap_head h) (xs @ b # ys)" and bf: "bfree (hmem h) b"
  shows "\<exists>h' bs'. coalesce h b = Some h' \<and> blocks_ok (hmem h') (heap_head h') bs' \<and> hpmm h' = hpmm h \<and>
    keeps_live (hmem h) (xs @ b # ys) (hmem h') bs' {} \<and>
    (\<exists>c \<in> set bs'. bfree (hmem h') c \<and> rspan (hmem h) b \<subseteq> rspan (hmem h') c) \<and>
    spans (hmem h') bs' \<subseteq> spans (hmem h) (xs @ b # ys)"
proof -
  obtain h1 ys' where h1: "coalesce_next h b = Some h1" "blocks_ok (hmem h1) (heap_head h1) (xs @ b # ys')"
    "hpmm h1 = hpmm h" "get h1 b fflags = get h b fflags"
    "keeps_live (hmem h) (xs @ b # ys) (hmem h1) (xs @ b # ys') {b}" "rspan (hmem h) b \<subseteq> rspan (hmem h1) b"
    "spans (hmem h1) (xs @ b # ys') \<subseteq> spans (hmem h) (xs @ b # ys)"
    using coalesce_next_ok [OF ok] by blast
  have k1: "keeps_live (hmem h) (xs @ b # ys) (hmem h1) (xs @ b # ys') {}"
    using h1(5) bf unfolding keeps_live_def by blast
  have bf1: "bfree (hmem h1) b" using bf h1(4) by simp
  let ?p = "get h1 b fprev"
  have lp: "?p = lastp 0 xs" using h1(2) by (simp add: blocks_ok_def)
  show ?thesis
  proof (cases "?p \<noteq> 0 \<and> block_free h1 ?p \<and> b = ?p + get h1 ?p fsize")
    case False
    then have "coalesce h b = Some h1" using h1(1) by (auto simp: coalesce_def Let_def)
    then show ?thesis using h1 k1 bf1 by (intro exI [of _ h1] exI [of _ "xs @ b # ys'"]) auto
  next
    case True
    then obtain us where xs: "xs = us @ [?p]" using lp by (cases xs rule: rev_cases) auto
    define h2 where "h2 = unlink_block (put h1 ?p fsize (get h1 ?p fsize + get h1 b fsize)) b"
    have c: "coalesce h b = Some h2" using True h1(1) by (simp add: coalesce_def Let_def h2_def)
    have ok1: "blocks_ok (hmem h1) (heap_head h1) (us @ ?p # b # ys')" using h1(2) xs by simp
    have adj: "b = ?p + get h1 ?p fsize" and pf: "bfree (hmem h1) ?p" using True by (auto simp: block_free_def)
    note M = merge_ok [OF ok1 adj h2_def bf1]
    have k2: "keeps_live (hmem h1) (us @ ?p # b # ys') (hmem h2) (us @ ?p # ys') {}"
      using M(3) pf unfolding keeps_live_def by blast
    have "span (hmem h2) d = span (hmem h1) d" if "d \<in> set (us @ ys')" for d
      using M(8) [OF that] by (simp add: span_def ext_def)
    then have "spans (hmem h2) (us @ ?p # ys') \<subseteq> spans (hmem h1) (xs @ b # ys')"
      using M(7) xs by (auto simp: spans_def)
    moreover have "keeps_live (hmem h) (xs @ b # ys) (hmem h2) (us @ ?p # ys') {}"
      using keeps_live_trans [OF k1, of "hmem h2" "us @ ?p # ys'"] k2 xs by simp
    ultimately show ?thesis
      using c M h1 pf by (intro exI [of _ h2] exI [of _ "us @ ?p # ys'"]) auto
  qed
qed


text \<open>
  C16: \<open>kheap_free\<close> of the payload of an allocated block without alignment padding returns, keeps the
  heap well formed, leaves every other allocated block as it was, and makes all the bytes of the
  block part of one free block.
\<close>

theorem kheap_free_safe:
  assumes "heap_ok h bs" "b \<in> set bs" "get h b fpad = 0"
  shows "\<exists>h' bs'. kheap_free h (b + HEAP_HEADER) = Some h' \<and> heap_ok h' bs' \<and>
    keeps_live (hmem h) bs (hmem h') bs' {b} \<and>
    (\<exists>c \<in> set bs'. bfree (hmem h') c \<and> rspan (hmem h) b \<subseteq> rspan (hmem h') c)"
proof -
  let ?m = "hmem h"
  have blk: "blocks_ok ?m (heap_head h) bs" using assms(1) by (simp add: heap_ok_def)
  obtain xs ys where bs: "bs = xs @ b # ys" using assms(2) by (auto simp: in_set_conv_decomp)
  have bok: "block_ok ?m b" using blk assms(2) by (auto simp: blocks_ok_def)
  then have "unat b + unat (48 :: u64) < 2 ^ LENGTH(64)" by (simp add: block_ok_def ext_def)
  then have "unat (b + 48) = unat b + unat (48 :: u64)" by (simp only: unat_add_lem)
  then have nz: "b + HEAP_HEADER \<noteq> 0" by (auto simp: HEAP_HEADER_def)
  define h0 where "h0 = (if allocated_bytes h \<ge> get h b fsize
     then h\<lparr>allocated_bytes := allocated_bytes h - get h b fsize\<rparr> else h)"
  have h0: "hmem h0 = ?m" "heap_head h0 = heap_head h" "hpmm h0 = hpmm h" by (simp_all add: h0_def)
  define h1 where "h1 = block_set_free h0 b True"
  have m1: "hmem h1 = set_fld ?m b fflags (fld ?m b fflags OR 1)" "heap_head h1 = heap_head h" "hpmm h1 = hpmm h"
    using h0 by (simp_all add: h1_def block_set_free_def put_def)
  note F = set_flags_ok [OF blk assms(2) m1(1)]
  have "fld (hmem h1) b fflags AND 1 \<noteq> 0"
    unfolding F(3) by (rule free_bit_set)
  then obtain h' bs' where c: "coalesce h1 b = Some h'" "blocks_ok (hmem h') (heap_head h') bs'"
    "hpmm h' = hpmm h1" "keeps_live (hmem h1) bs (hmem h') bs' {}"
    "\<exists>c \<in> set bs'. bfree (hmem h') c \<and> rspan (hmem h1) b \<subseteq> rspan (hmem h') c"
    "spans (hmem h') bs' \<subseteq> spans (hmem h1) bs"
    using coalesce_ok [of h1 xs b ys] F(1) m1(2) bs by auto
  have "kheap_free h (b + HEAP_HEADER) = Some h'"
    using nz assms(3) bok c(1) by (auto simp: kheap_free_def Let_def h0_def h1_def block_ok_def split: if_splits)
  moreover have sp: "spans (hmem h1) bs = spans ?m bs" using F(4) by (simp add: spans_def)
  have "frame_index x \<notin> pmm_free_set (hpmm h)" if "d \<in> set bs'" "unat x \<in> span (hmem h') d" for d x
  proof -
    have "unat x \<in> spans (hmem h') bs'" using that by (auto simp: spans_def)
    then show ?thesis using c(6) sp heap_okD [OF assms(1)] by blast
  qed
  then have "heap_ok h' bs'"
    using assms(1) c(2,3) m1(3) by (simp add: heap_ok_def)
  moreover have "rspan (hmem h1) b = rspan ?m b"
    using bok block_ok_hpos [OF bok] by (simp add: rspan_def m1(1))
  moreover have "keeps_live ?m bs (hmem h') bs' {b}"
    by (rule keeps_live_trans [OF F(2) keeps_live_weaken [OF c(4)]]) simp
  ultimately show ?thesis using c(5) by auto
qed

theorem kheap_free_safe_witness:
  "\<exists>h' bs'. kheap_free heap1 (0x100000 + HEAP_HEADER) = Some h' \<and> heap_ok h' bs'"
  using kheap_free_safe [OF heap1_ok [THEN conjunct1], of "0x100000"] heap1_ok by auto

text \<open>
  for a block allocated with 16 bytes of alignment padding, \<open>kheap_free\<close> takes the \<open>next\<close> pointer
  for the padding, because it reads the field relative to the payload before it knows the padding. It
  then works on the address \<open>b + 16 - next\<close> instead of the block: when no header magic is found there
  the call does nothing and the block is never freed.
\<close>

theorem kheap_free_padded_misread:
  assumes "b + 64 \<noteq> 0" "get h (b + 16 - get h b fnext) fmagic \<noteq> HEAP_MAGIC"
  shows "kheap_free h (b + HEAP_HEADER + 16) = Some h"
proof -
  have "get h (b + 16) fpad = get h b fnext" by (simp add: fld_def add.commute)
  then show ?thesis using assms by (simp add: kheap_free_def HEAP_HEADER_def Let_def algebra_simps)
qed

theorem kheap_free_padded_misread_witness:
  "kheap_free heap1 (0x100000 + HEAP_HEADER + 16) = Some heap1"
proof (rule kheap_free_padded_misread)
  have "get heap1 0x100000 fnext = 0" using heap1_ok by (simp add: heap_ok_def blocks_ok_def)
  moreover have "get heap1 (0x100000 + 16) fmagic = get heap1 0x100000 fpad" by (simp add: fld_def)
  ultimately show "get heap1 (0x100000 + 16 - get heap1 0x100000 fnext) fmagic \<noteq> HEAP_MAGIC"
    using heap1_ok by (simp add: HEAP_MAGIC_def)
qed simp

end
