(* ===== verification/Vfs.thy ===== *)
theory Vfs
  imports Fat32_Volume
begin

text \<open>
  The virtual file system of \<^verbatim>\<open>fs/vfs.c\<close>: registered file system types, mounts, path operations
  that are forwarded to the file system of a mount, and the file descriptors of a process. The only
  types are FAT32 and the probe-only ext2 of \<^verbatim>\<open>fs/ext2.c\<close>; a function pointer of the table is present
  or null (\<open>None\<close>). The mounts, linked from \<open>first_mount\<close> to \<open>last_mount\<close>, are the list \<open>mounts\<close>.
\<close>

section \<open>File system types\<close>

datatype fs_tag = FAT32 | EXT2

record fs_type =
  fs_name :: cstring
  probe :: "fs_tag option"
  mount :: "fs_tag option"
  read_file :: "fs_tag option"
  write_file :: "fs_tag option"
  stat_file :: "fs_tag option"
  read_at :: "fs_tag option"
  write_at :: "fs_tag option"
  list_dir :: "fs_tag option"
  mkdir_op :: "fs_tag option"
  remove_op :: "fs_tag option"

record vfs_mount =
  mpath :: cstring
  mfs :: fs_type
  mdev :: nat
  fs_data :: "fat32_ctx option"

record vfs =
  fs_types :: "fs_type list"
  mounts :: "vfs_mount list"
  mount_used :: u32
  store :: storage
  name_wild :: ptr

definition vfs_init :: "vfs \<Rightarrow> vfs" where
  "vfs_init v = v\<lparr>fs_types := [], mount_used := 0, mounts := []\<rparr>"

definition vfs_register_fs :: "vfs \<Rightarrow> fs_type \<Rightarrow> bool \<times> vfs" where
  "vfs_register_fs v fs =
     (if probe fs = None then (False, v) else (True, v\<lparr>fs_types := fs # fs_types v\<rparr>))"

definition fat32_fs :: fs_type where
  "fat32_fs = \<lparr>fs_name = str ''fat32'', probe = Some FAT32, mount = Some FAT32, read_file = Some FAT32,
     write_file = Some FAT32, stat_file = Some FAT32, read_at = Some FAT32, write_at = Some FAT32,
     list_dir = Some FAT32, mkdir_op = Some FAT32, remove_op = Some FAT32\<rparr>"

definition fat32_register :: "vfs \<Rightarrow> vfs" where
  "fat32_register v = snd (vfs_register_fs v fat32_fs)"

definition ext2_fs :: fs_type where
  "ext2_fs = \<lparr>fs_name = str ''ext2'', probe = Some EXT2, mount = None, read_file = None,
     write_file = None, stat_file = None, read_at = None, write_at = None,
     list_dir = None, mkdir_op = None, remove_op = None\<rparr>"

definition ext2_register :: "vfs \<Rightarrow> vfs" where
  "ext2_register v = snd (vfs_register_fs v ext2_fs)"

definition ext2_probe :: "storage \<Rightarrow> nat \<Rightarrow> bool option" where
  "ext2_probe st dev =
     (if dev = 0 \<or> sector_size (devs st dev) \<noteq> 512 then Some False
      else do {
        r \<leftarrow> block_read st dev 2 2;
        Some (case r of None \<Rightarrow> False | Some s \<Rightarrow> k_le16 (\<lambda>i. s ! (56 + i)) = 0xEF53)
      })"

definition call_probe :: "fs_tag \<Rightarrow> storage \<Rightarrow> nat \<Rightarrow> bool option" where
  "call_probe t = (case t of FAT32 \<Rightarrow> fat32_probe | EXT2 \<Rightarrow> ext2_probe)"

section \<open>Mounting\<close>

definition mount_path :: "u32 \<Rightarrow> cstring" where
  "mount_path index =
     (if index = 1 then buf_str (k_strncpy (Some (cstr (str ''/''))) 32)
      else let p = buf_str (k_strncpy (Some (cstr (str ''/disk''))) 32)
           in if length p + 4 < 32 then
                buf_str (p @ (if index \<ge> 10 then [ucast (48 + index div 10)] else []) @ [ucast (48 + index mod 10)])
              else p)"

definition mount_device :: "vfs \<Rightarrow> nat \<Rightarrow> fs_type \<Rightarrow> (bool \<times> vfs) option" where
  "mount_device v dev fs =
     (case kalloc (store v) of (ok, st) \<Rightarrow>
        let v = v\<lparr>store := st\<rparr>
        in if \<not> ok then Some (False, v)
           else let v = v\<lparr>mount_used := mount_used v + 1\<rparr>;
                    m = \<lparr>mpath = mount_path (mount_used v), mfs = fs, mdev = dev, fs_data = None\<rparr>
                in case mount fs of
                     None \<Rightarrow> Some (True, v\<lparr>mounts := mounts v @ [m]\<rparr>)
                   | Some _ \<Rightarrow> do {
                       (ctx, st) \<leftarrow> fat32_mount (name_wild v) (store v) dev;
                       let v = v\<lparr>store := st\<rparr>;
                       case ctx of
                         None \<Rightarrow> Some (False, v\<lparr>mount_used := mount_used v - 1\<rparr>)
                       | Some c \<Rightarrow> Some (True, v\<lparr>mounts := mounts v @ [m\<lparr>fs_data := Some c\<rparr>]\<rparr>)
                     })"

fun probe_types :: "vfs \<Rightarrow> nat \<Rightarrow> fs_type list \<Rightarrow> (bool \<times> vfs) option" where
  "probe_types v dev [] = Some (False, v)"
| "probe_types v dev (fs # fss) = do {
     hit \<leftarrow> call_probe (the (probe fs)) (store v) dev;
     if hit then mount_device v dev fs else probe_types v dev fss
   }"

partial_function (option) mount_all_loop :: "vfs \<Rightarrow> nat \<Rightarrow> u32 \<Rightarrow> (u32 \<times> vfs) option" where
  "mount_all_loop v dev mounted =
     (if dev = 0 then Some (mounted, v)
      else do {
        (ok, v) \<leftarrow> probe_types v dev (fs_types v);
        mount_all_loop v (block_device_next (store v) dev) (if ok then mounted + 1 else mounted)
      })"

declare mount_all_loop.simps [code]

definition vfs_mount_all :: "vfs \<Rightarrow> (u32 \<times> vfs) option" where
  "vfs_mount_all v = mount_all_loop v (block_device_first (store v)) 0"

definition vfs_mount_count :: "vfs \<Rightarrow> u32" where
  "vfs_mount_count v = mount_used v"

section \<open>Paths\<close>

definition mount_matches :: "cstring \<Rightarrow> vfs_mount \<Rightarrow> bool" where
  "mount_matches path m =
     (let plen = length (mpath m)
      in k_strncmp (cstr (mpath m)) (cstr path) plen = 0 \<and>
         (cstr path plen = 0 \<or> cstr path plen = 0x2F \<or> plen = 1))"

definition vfs_find_mount :: "vfs \<Rightarrow> cstring \<Rightarrow> vfs_mount option" where
  "vfs_find_mount v path = find (mount_matches path) (mounts v)"

definition strip_mount_prefix :: "vfs_mount \<Rightarrow> cstring \<Rightarrow> cstring" where
  "strip_mount_prefix m path =
     (let plen = length (mpath m)
      in if plen = 1 then (if cstr path 0 = 0x2F then drop 1 path else path)
         else if k_strncmp (cstr (mpath m)) (cstr path) plen = 0 then
           (let path = drop plen path in if cstr path 0 = 0x2F then drop 1 path else path)
         else path)"

definition vfs_read_file :: "vfs \<Rightarrow> cstring \<Rightarrow> u32 \<Rightarrow> (int \<times> u8 list \<times> vfs) option" where
  "vfs_read_file v path buffer_size =
     (case vfs_find_mount v path of
        None \<Rightarrow> Some (- 1, [], v)
      | Some m \<Rightarrow>
          (case (read_file (mfs m), fs_data m) of
             (Some _, Some ctx) \<Rightarrow> do {
               (n, data, st) \<leftarrow> fat32_vfs_read_file ctx (store v) (strip_mount_prefix m path) buffer_size;
               Some (n, data, v\<lparr>store := st\<rparr>)
             }
           | _ \<Rightarrow> Some (- 1, [], v)))"

definition vfs_write_file :: "vfs \<Rightarrow> cstring \<Rightarrow> u8 list \<Rightarrow> u32 \<Rightarrow> (bool \<times> vfs) option" where
  "vfs_write_file v path buffer sz =
     (case vfs_find_mount v path of
        None \<Rightarrow> Some (False, v)
      | Some m \<Rightarrow>
          (case (write_file (mfs m), fs_data m) of
             (Some _, Some ctx) \<Rightarrow> do {
               (ok, st) \<leftarrow> fat32_write_file ctx (store v) (strip_mount_prefix m path) buffer sz;
               Some (ok, v\<lparr>store := st\<rparr>)
             }
           | _ \<Rightarrow> Some (False, v)))"

definition vfs_list_dir :: "vfs \<Rightarrow> cstring \<Rightarrow> (listing \<times> vfs) option" where
  "vfs_list_dir v path =
     (case vfs_find_mount v path of
        None \<Rightarrow> Some ([], v)
      | Some m \<Rightarrow>
          (case (list_dir (mfs m), fs_data m) of
             (Some _, Some ctx) \<Rightarrow> do {
               (l, st) \<leftarrow> fat32_list_dir_ctx ctx (store v) (strip_mount_prefix m path);
               Some (l, v\<lparr>store := st\<rparr>)
             }
           | _ \<Rightarrow> Some ([], v)))"

text \<open>The result of the stat operation of a mount; a missing operation fails.\<close>

definition mount_stat :: "vfs \<Rightarrow> vfs_mount \<Rightarrow> cstring \<Rightarrow> ((u64 \<times> bool) option \<times> vfs) option" where
  "mount_stat v m rel =
     (case (stat_file (mfs m), fs_data m) of
        (Some _, Some ctx) \<Rightarrow> do {
          (r, st) \<leftarrow> fat32_stat ctx (store v) rel;
          Some (r, v\<lparr>store := st\<rparr>)
        }
      | _ \<Rightarrow> Some (None, v))"

definition vfs_stat :: "vfs \<Rightarrow> cstring \<Rightarrow> ((u64 \<times> bool) option \<times> vfs) option" where
  "vfs_stat v path =
     (case vfs_find_mount v path of
        None \<Rightarrow> Some (None, v)
      | Some m \<Rightarrow> mount_stat v m (strip_mount_prefix m path))"

definition vfs_mkdir :: "vfs \<Rightarrow> cstring \<Rightarrow> (int \<times> vfs) option" where
  "vfs_mkdir v path =
     (case vfs_find_mount v path of
        None \<Rightarrow> Some (- 22, v)
      | Some m \<Rightarrow>
          (case (mkdir_op (mfs m), fs_data m) of
             (Some _, Some ctx) \<Rightarrow>
               (let rel = strip_mount_prefix m path
                in if rel = [] then Some (- 22, v)
                   else do {
                     (rc, st) \<leftarrow> fat32_mkdir ctx (store v) rel;
                     Some (rc, v\<lparr>store := st\<rparr>)
                   })
           | _ \<Rightarrow> Some (- 22, v)))"

definition vfs_remove :: "vfs \<Rightarrow> cstring \<Rightarrow> (int \<times> vfs) option" where
  "vfs_remove v path =
     (case vfs_find_mount v path of
        None \<Rightarrow> Some (- 22, v)
      | Some m \<Rightarrow>
          (case (remove_op (mfs m), fs_data m) of
             (Some _, Some ctx) \<Rightarrow>
               (let rel = strip_mount_prefix m path
                in if rel = [] then Some (- 22, v)
                   else do {
                     (rc, st) \<leftarrow> fat32_remove ctx (store v) rel;
                     Some (rc, v\<lparr>store := st\<rparr>)
                   })
           | _ \<Rightarrow> Some (- 22, v)))"

section \<open>File descriptors\<close>

record proc_file =
  fpath :: cstring
  foffset :: u64
  fopen :: bool

abbreviation (input) "PROCESS_MAX_FDS \<equiv> 16 :: nat"

definition VFS_O_WRONLY :: u32 where [const_defs]: "VFS_O_WRONLY = 1"

definition VFS_O_RDWR :: u32 where [const_defs]: "VFS_O_RDWR = 2"

definition VFS_O_CREAT :: u32 where [const_defs]: "VFS_O_CREAT = 0x40"

definition VFS_O_TRUNC :: u32 where [const_defs]: "VFS_O_TRUNC = 0x200"

definition VFS_O_APPEND :: u32 where [const_defs]: "VFS_O_APPEND = 0x400"


fun free_fd :: "proc_file list \<Rightarrow> nat list \<Rightarrow> nat option" where
  "free_fd files [] = None"
| "free_fd files (i # is) = (if \<not> fopen (files ! i) then Some i else free_fd files is)"

definition vfs_open_fd ::
  "vfs \<Rightarrow> proc_file list \<Rightarrow> cstring \<Rightarrow> u32 \<Rightarrow> (int \<times> proc_file list \<times> vfs) option" where
  "vfs_open_fd v files path flags = do {
     (r, v) \<leftarrow> vfs_stat v path;
     if r \<noteq> None \<and> snd (the r) then Some (- 1, files, v)
     else do {
       (ok, sz, v) \<leftarrow>
         (case r of
            None \<Rightarrow>
              (if flags AND VFS_O_CREAT = 0 then Some (False, 0, v)
               else do { (ok, v) \<leftarrow> vfs_write_file v path [] 0; Some (ok, 0, v) })
          | Some (sz, _) \<Rightarrow>
              (if flags AND VFS_O_TRUNC \<noteq> 0 \<and> flags AND (VFS_O_WRONLY OR VFS_O_RDWR) \<noteq> 0
               then do { (ok, v) \<leftarrow> vfs_write_file v path [] 0; Some (ok, 0, v) }
               else Some (True, sz, v)));
       if \<not> ok then Some (- 1, files, v)
       else case free_fd files [3..<PROCESS_MAX_FDS] of
              None \<Rightarrow> Some (- 1, files, v)
            | Some fd \<Rightarrow>
                Some (int fd, files[fd := \<lparr>fpath = buf_str (k_strncpy (Some (cstr path)) 128),
                   foffset = (if flags AND VFS_O_APPEND \<noteq> 0 then sz else 0), fopen = True\<rparr>], v)
     }
   }"

definition fd_bad :: "proc_file list \<Rightarrow> int \<Rightarrow> bool" where
  "fd_bad files fd \<longleftrightarrow> fd < 0 \<or> fd \<ge> int PROCESS_MAX_FDS \<or> \<not> fopen (files ! nat fd)"

text \<open>The part of \<open>vfs_read_fd\<close> behind the size check: the read itself and the advance of the offset.\<close>

definition read_fd_at ::
  "vfs \<Rightarrow> proc_file list \<Rightarrow> int \<Rightarrow> vfs_mount \<Rightarrow> cstring \<Rightarrow> u64 \<Rightarrow>
     (int \<times> u8 list \<times> proc_file list \<times> vfs) option" where
  "read_fd_at v files fd m rel len =
     (let f = files ! nat fd;
          finish = (\<lambda>n data st. Some (n, data,
             (if n > 0 then files[nat fd := f\<lparr>foffset := foffset f + of_int n\<rparr>] else files), v\<lparr>store := st\<rparr>))
      in case (read_at (mfs m), read_file (mfs m), fs_data m) of
           (Some _, _, Some ctx) \<Rightarrow> do {
             (n, data, st) \<leftarrow> fat32_vfs_read_at ctx (store v) rel (ucast (foffset f)) (ucast len);
             finish n data st
           }
         | (None, Some _, Some ctx) \<Rightarrow>
             (if foffset f \<noteq> 0 \<or> len > 0x7FFFFFFF then Some (- 1, [], files, v)
              else do {
                (n, data, st) \<leftarrow> fat32_vfs_read_file ctx (store v) rel (ucast len);
                finish n data st
              })
         | _ \<Rightarrow> Some (- 1, [], files, v))"

definition vfs_read_fd ::
  "vfs \<Rightarrow> proc_file list \<Rightarrow> int \<Rightarrow> u64 \<Rightarrow> (int \<times> u8 list \<times> proc_file list \<times> vfs) option" where
  "vfs_read_fd v files fd len =
     (if fd_bad files fd then Some (- 1, [], files, v)
      else let f = files ! nat fd
           in case vfs_find_mount v (fpath f) of
                None \<Rightarrow> Some (- 1, [], files, v)
              | Some m \<Rightarrow>
                  (let rel = strip_mount_prefix m (fpath f)
                   in do {
                     (r, v) \<leftarrow> mount_stat v m rel;
                     case r of
                       Some (sz, _) \<Rightarrow>
                         (if foffset f \<ge> sz then Some (0, [], files, v)
                          else read_fd_at v files fd m rel (if len > sz - foffset f then sz - foffset f else len))
                     | None \<Rightarrow> read_fd_at v files fd m rel len
                   }))"


definition vfs_write_fd ::
  "vfs \<Rightarrow> proc_file list \<Rightarrow> int \<Rightarrow> u8 list \<Rightarrow> u64 \<Rightarrow> (int \<times> proc_file list \<times> vfs) option" where
  "vfs_write_fd v files fd buf len =
     (if fd_bad files fd then Some (- 1, files, v)
      else let f = files ! nat fd
           in case vfs_find_mount v (fpath f) of
                None \<Rightarrow> Some (- 1, files, v)
              | Some m \<Rightarrow>
                  (let rel = strip_mount_prefix m (fpath f);
                       files' = files[nat fd := f\<lparr>foffset := foffset f + len\<rparr>]
                   in if foffset f > 0xFFFFFFFF then Some (- 1, files, v)
                      else case (write_at (mfs m), write_file (mfs m), fs_data m) of
                        (Some _, _, Some ctx) \<Rightarrow> do {
                          (ok, st) \<leftarrow> fat32_vfs_write_at ctx (store v) rel (ucast (foffset f)) buf (ucast len);
                          Some (if ok then (sint len, files', v\<lparr>store := st\<rparr>) else (- 1, files, v\<lparr>store := st\<rparr>))
                        }
                      | (None, Some _, Some ctx) \<Rightarrow>
                          (if foffset f \<noteq> 0 then Some (- 1, files, v)
                           else do {
                             (ok, st) \<leftarrow> fat32_write_file ctx (store v) rel buf (ucast len);
                             Some (if ok then (sint len, files', v\<lparr>store := st\<rparr>) else (- 1, files, v\<lparr>store := st\<rparr>))
                           })
                      | _ \<Rightarrow> Some (- 1, files, v)))"

definition vfs_seek_fd ::
  "vfs \<Rightarrow> proc_file list \<Rightarrow> int \<Rightarrow> int \<Rightarrow> u32 \<Rightarrow> (int \<times> proc_file list \<times> vfs) option" where
  "vfs_seek_fd v files fd off whence =
     (if fd_bad files fd then Some (- 1, files, v)
      else let f = files ! nat fd
           in do {
             (base, v) \<leftarrow>
               (if whence = 1 then Some (Some (sint (foffset f)), v)
                else if whence = 2 then do {
                  (r, v) \<leftarrow> vfs_stat v (fpath f);
                  Some (map_option (\<lambda>x. sint (fst x)) r, v)
                }
                else Some (if whence \<noteq> 0 then None else Some 0, v));
             case base of
               None \<Rightarrow> Some (- 1, files, v)
             | Some b \<Rightarrow>
                 (if b < 0 \<or> b + off < 0 then Some (- 1, files, v)
                  else let o' = of_int (b + off) :: u64
                       in Some (sint o', files[nat fd := f\<lparr>foffset := o'\<rparr>], v))
           })"

definition vfs_close_fd :: "proc_file list \<Rightarrow> int \<Rightarrow> int \<times> proc_file list" where
  "vfs_close_fd files fd =
     (if fd_bad files fd then (- 1, files)
      else (0, files[nat fd := (files ! nat fd)\<lparr>fopen := False\<rparr>]))"

section \<open>Mounts\<close>

text \<open>The mounts are numbered in order: the first is \<open>/\<close>, the following ones are \<open>/diskN\<close>.\<close>

definition mounts_ok :: "vfs \<Rightarrow> bool" where
  "mounts_ok v \<longleftrightarrow> mount_used v = of_nat (length (mounts v)) \<and>
     (\<forall>k < length (mounts v). mpath (mounts v ! k) = mount_path (of_nat (Suc k)))"

lemma mounts_ok_snoc:
  assumes "mounts_ok v" "mpath m = mount_path (mount_used v + 1)"
  shows "mounts_ok (v\<lparr>store := s, mount_used := mount_used v + 1, mounts := mounts v @ [m]\<rparr>)"
  using assms by (auto simp: mounts_ok_def nth_append less_Suc_eq add.commute)

lemma mount_device_ok:
  assumes "mounts_ok v" "mount_device v dev fs = Some (ok, v')"
  shows "mounts_ok v'"
proof -
  obtain b st where k: "kalloc (store v) = (b, st)" by force
  let ?m = "\<lparr>mpath = mount_path (mount_used v + 1), mfs = fs, mdev = dev, fs_data = None\<rparr>"
  have same: "mounts_ok (v\<lparr>store := x\<rparr>)" for x using assms(1) by (simp add: mounts_ok_def)
  have new: "mounts_ok (v\<lparr>store := x, mount_used := mount_used v + 1, mounts := mounts v @ [?m\<lparr>fs_data := c\<rparr>]\<rparr>)" for x c
    by (rule mounts_ok_snoc [OF assms(1)]) simp
  show ?thesis
  proof (cases b)
    case False
    then show ?thesis using assms(2) k same by (auto simp: mount_device_def)
  next
    case b: True
    show ?thesis
    proof (cases "mount fs")
      case None
      then show ?thesis using assms(2) k b new [where x = st and c = None] by (auto simp: mount_device_def Let_def)
    next
      case (Some t)
      then obtain c s where f: "fat32_mount (name_wild v) st dev = Some (c, s)"
        using assms(2) k b by (cases "fat32_mount (name_wild v) st dev") (auto simp: mount_device_def Let_def)
      then show ?thesis
        using assms(2) k b Some new [where x = s and c = c] same [of s]
        by (cases c) (auto simp: mount_device_def Let_def mounts_ok_def)
    qed
  qed
qed

lemma probe_types_ok:
  "mounts_ok v \<Longrightarrow> probe_types v dev fss = Some (ok, v') \<Longrightarrow> mounts_ok v'"
proof (induction v dev fss rule: probe_types.induct)
  case (2 v dev fs fss)
  then obtain hit where "call_probe (the (probe fs)) (store v) dev = Some hit"
    by (cases "call_probe (the (probe fs)) (store v) dev") auto
  then show ?case using 2 mount_device_ok by (auto split: if_splits)
qed simp

lemma mount_all_ok:
  assumes "mount_all_loop v dev n = Some r"
  shows "mounts_ok v \<longrightarrow> mounts_ok (snd r)"
proof (rule mount_all_loop.raw_induct [OF _ assms])
  fix f :: "vfs \<Rightarrow> nat \<Rightarrow> u32 \<Rightarrow> (u32 \<times> vfs) option" and v dev n r
  assume f: "\<And>v dev n r. f v dev n = Some r \<Longrightarrow> mounts_ok v \<longrightarrow> mounts_ok (snd r)"
    and b: "(if dev = 0 then Some (n, v)
      else do {
        (ok, v) \<leftarrow> probe_types v dev (fs_types v);
        f v (block_device_next (store v) dev) (if ok then n + 1 else n)
      }) = Some r"
  show "mounts_ok v \<longrightarrow> mounts_ok (snd r)"
  proof (cases "dev = 0")
    case False
    then obtain ok v1 where p: "probe_types v dev (fs_types v) = Some (ok, v1)"
      "f v1 (block_device_next (store v1) dev) (if ok then n + 1 else n) = Some r"
      using b by (cases "probe_types v dev (fs_types v)") auto
    then show ?thesis using f [OF p(2)] probe_types_ok by blast
  qed (use b in auto)
qed

lemma mount_path_1: "mount_path 1 = str ''/''"
  by code_simp

lemma root_matches: "mpath m = str ''/'' \<Longrightarrow> path \<noteq> [] \<Longrightarrow> hd path = 0x2F \<Longrightarrow> mount_matches path m"
  by (cases path) (simp_all add: mount_matches_def str_def of_char_def k_strncmp_def)

text \<open>
  once the start-up sequence (\<open>vfs_init\<close>, the two registrations, \<open>vfs_mount_all\<close>) has mounted anything,
  every absolute path belongs to the first mount, so
  the file systems mounted at \<open>/disk2\<close>, \<open>/disk3\<close>, \<dots> can not be reached by any path.
\<close>

theorem first_mount_shadows:
  assumes "vfs_mount_all (ext2_register (fat32_register (vfs_init v))) = Some (n, v')" "mounts v' \<noteq> []"
  shows "vfs_find_mount v' (0x2F # path) = Some (hd (mounts v'))"
proof -
  have "mounts_ok (ext2_register (fat32_register (vfs_init v)))"
    by (simp add: mounts_ok_def ext2_register_def fat32_register_def vfs_register_fs_def vfs_init_def)
  then have "mounts_ok v'" using mount_all_ok assms(1) by (fastforce simp: vfs_mount_all_def)
  then have "mpath (mounts v' ! 0) = mount_path 1" using assms(2) by (auto simp: mounts_ok_def)
  then have "mpath (hd (mounts v')) = str ''/''" using assms(2) mount_path_1 by (simp add: hd_conv_nth)
  then show ?thesis
    using assms(2) root_matches [of "hd (mounts v')" "0x2F # path"] by (cases "mounts v'") (simp_all add: vfs_find_mount_def)
qed

section \<open>Bounds of a read\<close>

lemma word_add_le_of_sub:
  fixes c n x :: u32
  assumes "x \<le> n - c" "c \<le> n"
  shows "c + x \<le> n"
proof -
  have "unat x \<le> unat n - unat c" using assms unat_sub [of c n] by (simp add: word_le_nat_alt)
  then have le: "unat c + unat x \<le> unat n" using assms(2) by (simp add: word_le_nat_alt)
  then have "unat (c + x) = unat c + unat x"
    using unsigned_less [of n, where 'a = nat] unat_add_lem [of c x] by simp
  then show ?thesis using le by (simp only: word_le_nat_alt)
qed

lemma read_at_loop_bound:
  assumes "read_at_loop ctx st n c k cnt data = Some r"
  shows "cnt \<le> n \<longrightarrow> fst r \<le> n"
proof (rule read_at_loop.raw_induct [OF _ assms])
  fix f :: "fat32_ctx \<Rightarrow> storage \<Rightarrow> u32 \<Rightarrow> u32 \<Rightarrow> u32 \<Rightarrow> u32 \<Rightarrow> u8 list \<Rightarrow> (u32 \<times> u8 list) option"
    and ctx :: fat32_ctx and st n c k cnt data r
  let ?bpc = "bytes_per_cluster ctx"
  let ?chunk = "if n - cnt > ?bpc - k then ?bpc - k else n - cnt"
  assume f: "\<And>ctx st n c k cnt data r. f ctx st n c k cnt data = Some r \<Longrightarrow> cnt \<le> n \<longrightarrow> fst r \<le> n"
    and b: "(if cnt < n then
        let bpc = ?bpc; left = bpc - k; chunk = (if n - cnt > left then left else n - cnt)
        in do {
             r \<leftarrow> read_cluster ctx st c;
             case r of None \<Rightarrow> Some (cnt, data)
             | Some b \<Rightarrow>
                 (let data = data @ (if k = 0 \<and> chunk = bpc then b else take (unat chunk) (drop (unat k) b));
                      cnt = cnt + chunk; in_cluster = k + chunk
                  in if in_cluster = bpc then do {
                       nxt \<leftarrow> fat_read_entry ctx st c;
                       if \<not> cluster_valid nxt then Some (cnt, data) else f ctx st n nxt 0 cnt data
                     } else f ctx st n c in_cluster cnt data)
           }
      else Some (cnt, data)) = Some r"
  show "cnt \<le> n \<longrightarrow> fst r \<le> n"
  proof (cases "cnt < n")
    case True
    have c1: "cnt + ?chunk \<le> n"
      using True by (intro word_add_le_of_sub) auto
    obtain x where x: "read_cluster ctx st c = Some x" using b True by (cases "read_cluster ctx st c") (simp_all add: Let_def)
    show ?thesis
    proof (cases x)
      case None
      then show ?thesis using b True x by (auto simp: Let_def)
    next
      case (Some buf)
      define cnt' where "cnt' = cnt + ?chunk"
      have "r = (cnt', snd r) \<or> (\<exists>c' k' d. f ctx st n c' k' cnt' d = Some r)"
        using b True x Some unfolding cnt'_def
        by (cases "fat_read_entry ctx st c") (simp_all only: Let_def if_True option.case bind.bind_lunit bind.bind_lzero split: if_splits, auto)
      then show ?thesis using f c1 unfolding cnt'_def by (metis fst_conv)
    qed
  qed (use b in auto)
qed

lemma fat32_read_at_bound:
  assumes "fat32_read_at ctx st c off n = Some (cnt, data, st')"
  shows "cnt \<le> n"
proof (cases "n = 0")
  case False
  then obtain p cl where s: "skip_clusters ctx st (unat (off div bytes_per_cluster ctx)) c c = Some (p, cl)"
    using assms by (cases "skip_clusters ctx st (unat (off div bytes_per_cluster ctx)) c c") (auto simp: fat32_read_at_def Let_def)
  obtain ok st1 where k: "kalloc st = (ok, st1)" by force
  show ?thesis
  proof (cases "cluster_valid cl \<and> ok")
    case True
    then obtain r where r: "read_at_loop ctx st1 n cl (off mod bytes_per_cluster ctx) 0 [] = Some r"
      using assms False s k
      by (cases "read_at_loop ctx st1 n cl (off mod bytes_per_cluster ctx) 0 []") (auto simp: fat32_read_at_def Let_def)
    then show ?thesis using read_at_loop_bound [OF r] assms False s k True
      by (cases r) (simp add: fat32_read_at_def Let_def)
  qed (use assms False s k in \<open>auto simp: fat32_read_at_def Let_def split: if_splits\<close>)
qed (use assms in \<open>simp add: fat32_read_at_def\<close>)

lemma minus_one_le_uint [simp]: "- 1 \<le> uint x"
  by (rule order_trans [of _ 0]) simp_all

lemma int32_le: "int32 n \<le> int (unat n)"
proof -
  have "take_bit 32 (uint n) \<le> uint n" by (rule take_bit_int_less_eq_self_iff [THEN iffD2]) simp
  then show ?thesis by (simp add: int32_def sint_uint signed_take_bit_eq_take_bit_minus)
qed

lemma vfs_read_at_bound:
  assumes "fat32_vfs_read_at ctx st path off n = Some (cnt, data, st')"
  shows "cnt \<le> int (unat n)"
proof -
  obtain e st1 where o: "fat32_open ctx st path = Some (e, st1)"
    using assms by (cases "fat32_open ctx st path") (auto simp: fat32_vfs_read_at_def)
  show ?thesis
  proof (cases "e = None \<or> is_dir (the e) \<or> off \<ge> dsize (the e)")
    case False
    then obtain d where e: "e = Some d" "\<not> is_dir d" "\<not> off \<ge> dsize d" by auto
    define k where "k = (if n > dsize d - off then dsize d - off else n)"
    obtain m dt st2 where r: "fat32_read_at ctx st1 (first_cluster d) off k = Some (m, dt, st2)" "cnt = int32 m"
      using assms o e by (auto simp: fat32_vfs_read_at_def bind_eq_Some_conv simp flip: k_def)
    have "m \<le> n" using fat32_read_at_bound [OF r(1)] unfolding k_def by (auto split: if_splits)
    then have "unat m \<le> unat n" by (simp add: word_le_nat_alt)
    then show ?thesis using int32_le [of m] r(2) by linarith
  qed (use assms o in \<open>auto simp: fat32_vfs_read_at_def split: option.splits if_splits\<close>)
qed

definition registered_fs :: "vfs \<Rightarrow> bool" where
  "registered_fs v \<longleftrightarrow> (\<forall>m \<in> set (mounts v). mfs m = fat32_fs \<or> mfs m = ext2_fs)"

lemma read_fd_at_bound:
  assumes "mfs m = fat32_fs \<or> mfs m = ext2_fs" "read_fd_at v files fd m rel len = Some (n, data, files', v')"
  shows "n \<le> int (unat len)" "files' = (if n > 0 then files[nat fd := (files ! nat fd)\<lparr>foffset := foffset (files ! nat fd) + of_int n\<rparr>] else files)"
proof -
  have "n \<le> int (unat len) \<and> files' = (if n > 0 then files[nat fd := (files ! nat fd)\<lparr>foffset := foffset (files ! nat fd) + of_int n\<rparr>] else files)"
  proof (cases "mfs m = fat32_fs \<and> fs_data m \<noteq> None")
    case True
    then obtain ctx where c: "fs_data m = Some ctx" "mfs m = fat32_fs" by auto
    let ?r = "fat32_vfs_read_at ctx (store v) rel (ucast (foffset (files ! nat fd))) (ucast len)"
    obtain k d st where r: "?r = Some (k, d, st)"
      using assms(2) c by (cases ?r) (auto simp: read_fd_at_def Let_def fat32_fs_def)
    have u: "unat (ucast len :: u32) \<le> unat len" by (simp add: unsigned_ucast_eq take_bit_nat_less_eq_self)
    have "k \<le> int (unat len)" using vfs_read_at_bound [OF r] u by linarith
    then show ?thesis using r assms(2) c by (auto simp: read_fd_at_def Let_def fat32_fs_def)
  next
    case False
    then show ?thesis using assms by (auto simp: read_fd_at_def Let_def fat32_fs_def ext2_fs_def)
  qed
  then show "n \<le> int (unat len)" "files' = (if n > 0 then files[nat fd := (files ! nat fd)\<lparr>foffset := foffset (files ! nat fd) + of_int n\<rparr>] else files)"
    by blast+
qed

text \<open>
  \<open>vfs_read_fd\<close> never returns more than the caller asked for, advances the offset of exactly this
  descriptor by what it returned, and a successful read never moves the offset past the size the
  file system reports.
\<close>

theorem read_fd_bounded:
  assumes "registered_fs v" "vfs_read_fd v files fd len = Some (n, data, files', v')"
  shows "n \<le> int (unat len) \<and>
    files' = (if n > 0 then files[nat fd := (files ! nat fd)\<lparr>foffset := foffset (files ! nat fd) + of_int n\<rparr>] else files) \<and>
    (\<forall>m sz d v1. n > 0 \<and> vfs_find_mount v (fpath (files ! nat fd)) = Some m \<and>
       mount_stat v m (strip_mount_prefix m (fpath (files ! nat fd))) = Some (Some (sz, d), v1) \<longrightarrow>
       int (unat (foffset (files ! nat fd))) + n \<le> int (unat sz))"
proof (cases "fd_bad files fd \<or> vfs_find_mount v (fpath (files ! nat fd)) = None")
  case True
  then have "n = - 1" "files' = files" using assms(2) by (auto simp: vfs_read_fd_def Let_def split: if_splits)
  then show ?thesis by simp
next
  case False
  let ?f = "files ! nat fd"
  obtain m where m: "vfs_find_mount v (fpath ?f) = Some m" using False by auto
  then have fs: "mfs m = fat32_fs \<or> mfs m = ext2_fs"
    using assms(1) by (auto simp: vfs_find_mount_def registered_fs_def find_Some_iff)
  define rel where "rel = strip_mount_prefix m (fpath ?f)"
  obtain r v1 where s: "mount_stat v m rel = Some (r, v1)"
    using assms(2) False m unfolding rel_def by (cases "mount_stat v m (strip_mount_prefix m (fpath ?f))") (auto simp: vfs_read_fd_def Let_def)
  show ?thesis
  proof (cases r)
    case None
    then have "read_fd_at v1 files fd m rel len = Some (n, data, files', v')"
      using assms(2) False m s rel_def by (simp add: vfs_read_fd_def Let_def)
    from read_fd_at_bound [OF fs this] show ?thesis using m s None rel_def by auto
  next
    case (Some x)
    obtain sz d where x: "x = (sz, d)" by force
    show ?thesis
    proof (cases "foffset ?f \<ge> sz")
      case True
      then show ?thesis using assms(2) False m s rel_def Some x by (auto simp: vfs_read_fd_def Let_def)
    next
      case lt: False
      define k where "k = (if len > sz - foffset ?f then sz - foffset ?f else len)"
      have "read_fd_at v1 files fd m rel k = Some (n, data, files', v')"
        using assms(2) False m s rel_def Some x lt by (simp add: vfs_read_fd_def Let_def k_def)
      note b = read_fd_at_bound [OF fs this]
      have "k \<le> len" "k \<le> sz - foffset ?f" by (auto simp: k_def)
      then have k: "unat k \<le> unat len" "unat k \<le> unat (sz - foffset ?f)" by (simp_all add: word_le_nat_alt)
      have "unat (sz - foffset ?f) = unat sz - unat (foffset ?f)" using lt by (intro unat_sub) auto
      moreover have "unat (foffset ?f) \<le> unat sz" using lt by (simp add: word_le_nat_alt)
      ultimately have "int (unat (foffset ?f)) + n \<le> int (unat sz)"
        using b(1) k(2) by linarith
      moreover have "n \<le> int (unat len)" using b(1) k(1) by linarith
      ultimately show ?thesis using b(2) m s Some x rel_def by auto
    qed
  qed
qed

section \<open>Descriptor allocation\<close>

lemma free_fd_Some:
  "free_fd files [a..<b] = Some fd \<longleftrightarrow> a \<le> fd \<and> fd < b \<and> \<not> fopen (files ! fd) \<and> (\<forall>i. a \<le> i \<and> i < fd \<longrightarrow> fopen (files ! i))"
proof (induction "b - a" arbitrary: a)
  case 0
  then show ?case by auto
next
  case (Suc n)
  then have "a < b" by simp
  then have *: "[a..<b] = a # [Suc a..<b]" by (rule upt_conv_Cons)
  have IH: "free_fd files [Suc a..<b] = Some fd \<longleftrightarrow> Suc a \<le> fd \<and> fd < b \<and> \<not> fopen (files ! fd) \<and> (\<forall>i. Suc a \<le> i \<and> i < fd \<longrightarrow> fopen (files ! i))"
    using Suc.hyps(1) [of "Suc a"] Suc.hyps(2) by simp
  show ?case
  proof (cases "fopen (files ! a)")
    case True
    have "(a \<le> fd \<and> \<not> fopen (files ! fd)) = (Suc a \<le> fd \<and> \<not> fopen (files ! fd))" using True by (metis Suc_leD le_antisym not_less_eq_eq)
    moreover have "(\<forall>i. a \<le> i \<and> i < fd \<longrightarrow> fopen (files ! i)) = (\<forall>i. Suc a \<le> i \<and> i < fd \<longrightarrow> fopen (files ! i))"
      using True by (metis Suc_leD le_antisym not_less_eq_eq)
    ultimately show ?thesis using True * IH by auto
  next
    case False
    then have "free_fd files [a..<b] = Some a" using * by simp
    then show ?thesis using False \<open>a < b\<close> by (auto simp: not_less)
  qed
qed

text \<open>
  a successful open returns the lowest free descriptor from 3 on, with the path as given up to
  127 bytes; the other descriptors keep their state; closing it makes it free again, and a second
  close of it fails.
\<close>

theorem open_fd_lowest:
  assumes "vfs_open_fd v files path flags = Some (r, files', v')" "r \<ge> 0" "length files = 16" "cstring_ok path"
  shows "3 \<le> r \<and> r < 16 \<and> \<not> fopen (files ! nat r) \<and> (\<forall>i. 3 \<le> i \<and> i < nat r \<longrightarrow> fopen (files ! i)) \<and>
    fpath (files' ! nat r) = take 127 path \<and> (\<forall>i. i \<noteq> nat r \<longrightarrow> files' ! i = files ! i) \<and>
    (\<exists>files''. vfs_close_fd files' r = (0, files'') \<and> \<not> fopen (files'' ! nat r) \<and> fst (vfs_close_fd files'' r) = - 1)"
proof -
  obtain s v1 where s: "vfs_stat v path = Some (s, v1)"
    using assms(1) by (cases "vfs_stat v path") (auto simp: vfs_open_fd_def)
  define g where "g = free_fd files [3..<16]"
  have "\<exists>fd off. g = Some fd \<and> r = int fd \<and>
      files' = files[fd := \<lparr>fpath = buf_str (k_strncpy (Some (cstr path)) 128), foffset = off, fopen = True\<rparr>]"
    using assms(1,2) s unfolding vfs_open_fd_def g_def [symmetric]
    by (auto simp: bind_eq_Some_conv split: option.splits if_splits)
  then obtain fd off where g: "g = Some fd" and fd: "r = int fd"
    "files' = files[fd := \<lparr>fpath = take 127 path, foffset = off, fopen = True\<rparr>]"
    using k_strncpy_str [OF assms(4), of 128] by auto
  have *: "3 \<le> fd" "fd < 16" "\<not> fopen (files ! fd)" "\<forall>i. 3 \<le> i \<and> i < fd \<longrightarrow> fopen (files ! i)"
    using g unfolding g_def free_fd_Some by auto
  moreover have "vfs_close_fd files' r = (0, files'[fd := (files' ! fd)\<lparr>fopen := False\<rparr>])"
    using * fd assms(3) by (simp add: vfs_close_fd_def fd_bad_def)
  ultimately show ?thesis using fd assms(3) by (simp add: vfs_close_fd_def fd_bad_def)
qed

text \<open>Two disks with the same small volume, whose root directory holds the file \<open>A.TXT\<close>.\<close>

definition demo_sector :: "u64 \<Rightarrow> u8 list" where
  "demo_sector x =
     (if x = 0 then replicate 11 0 @ [0, 2, 1, 1, 0, 1] @ replicate 19 0 @ [1, 0, 0, 0, 0, 0, 0, 0, 2] @
        replicate 465 0 @ [0x55, 0xAA]
      else if x = 1 then replicate 8 0 @ [0xFF, 0xFF, 0xFF, 0x0F, 0xFF, 0xFF, 0xFF, 0x0F] @ replicate 496 0
      else if x = 2 then str ''A       TXT'' @ replicate 15 0 @ [3, 0, 5] @ replicate 483 0
      else str ''hello'' @ replicate 507 0)"

definition demo_store :: storage where
  "demo_store = \<lparr>disks = \<lambda>_. \<lparr>content = demo_sector, rfault = \<lambda>_. False, wfault = \<lambda>_. False\<rparr>,
     devs = \<lambda>i. blank_device\<lparr>sector_size := 512, sector_count := 256, next_dev := (if i = 1 then 2 else 0),
        read_fn := Some (Driver_fn i), write_fn := Some (Driver_fn i)\<rparr>,
     fresh_dev = 3, first_device = 1, last_device = 2, device_count = 2, alloc_ok = []\<rparr>"

definition demo_vfs :: vfs where
  "demo_vfs = \<lparr>fs_types = [], mounts = [], mount_used = 0, store = demo_store, name_wild = \<lambda>_. 0\<rparr>"

definition mounted_vfs :: vfs where
  "mounted_vfs = snd (the (vfs_mount_all (ext2_register (fat32_register (vfs_init demo_vfs)))))"

definition closed_files :: "proc_file list" where
  "closed_files = replicate 16 \<lparr>fpath = [], foffset = 0, fopen = False\<rparr>"

theorem first_mount_shadows_witness:
  "\<exists>v'. vfs_mount_all (ext2_register (fat32_register (vfs_init demo_vfs))) = Some (2, v') \<and>
     map mpath (mounts v') = [str ''/'', str ''/disk2''] \<and>
     vfs_find_mount v' (str ''/disk2/A.TXT'') = Some (hd (mounts v'))"
proof -
  have "map_option (\<lambda>(n, v). (n, map mpath (mounts v))) (vfs_mount_all (ext2_register (fat32_register (vfs_init demo_vfs)))) =
    Some (2, [str ''/'', str ''/disk2''])" by code_simp
  then obtain v' where v: "vfs_mount_all (ext2_register (fat32_register (vfs_init demo_vfs))) = Some (2, v')"
    "map mpath (mounts v') = [str ''/'', str ''/disk2'']" by auto
  moreover have "str ''/disk2/A.TXT'' = 0x2F # str ''disk2/A.TXT''" by code_simp
  ultimately show ?thesis using first_mount_shadows [OF v(1), of "str ''disk2/A.TXT''"] by auto
qed

definition open_files :: "proc_file list" where
  "open_files = closed_files[3 := \<lparr>fpath = str ''/A.TXT'', foffset = 1, fopen = True\<rparr>]"

theorem read_fd_bounded_witness:
  "\<exists>files' v'. vfs_read_fd mounted_vfs open_files 3 100 = Some (4, str ''ello'', files', v') \<and>
     files' = open_files[3 := (open_files ! 3)\<lparr>foffset := 5\<rparr>]"
proof -
  have "map_option (\<lambda>(n, data, files', v'). (n, data)) (vfs_read_fd mounted_vfs open_files 3 100) = Some (4, str ''ello'')"
    by code_simp
  then obtain files' v' where v: "vfs_read_fd mounted_vfs open_files 3 100 = Some (4, str ''ello'', files', v')" by auto
  have r: "registered_fs mounted_vfs" by code_simp
  have "files' = open_files[3 := (open_files ! 3)\<lparr>foffset := 5\<rparr>]"
    using read_fd_bounded [OF r v] by (simp add: open_files_def closed_files_def)
  then show ?thesis using v by blast
qed

theorem open_fd_lowest_witness:
  "\<exists>files' v'. vfs_open_fd mounted_vfs closed_files (str ''/A.TXT'') 0 = Some (3, files', v') \<and>
     fpath (files' ! 3) = str ''/A.TXT'' \<and> fst (vfs_close_fd files' 3) = 0"
proof -
  have "map_option (\<lambda>(n, files, v). n) (vfs_open_fd mounted_vfs closed_files (str ''/A.TXT'') 0) = Some 3" by code_simp
  then obtain files' v' where v: "vfs_open_fd mounted_vfs closed_files (str ''/A.TXT'') 0 = Some (3, files', v')" by auto
  have l: "length closed_files = 16" "cstring_ok (str ''/A.TXT'')" "take 127 (str ''/A.TXT'') = str ''/A.TXT''"
    by code_simp+
  show ?thesis using open_fd_lowest [OF v _ l(1,2)] l(3) v by auto
qed

end
