(* ===== verification/Elf.thy ===== *)
theory Elf
  imports Mem_Lib
begin

text \<open>
  The ELF parser of \<^verbatim>\<open>exec/elf.c\<close>. An image is a partial function from byte offsets to bytes: a read
  outside the object gives \<open>None\<close>, and so does every operation that makes one, so \<open>Some\<close> results state
  that all reads stay inside. Structures are loaded field by field with the little-endian loads of
  the machine. \<open>list_img\<close> is an image in a buffer of its own, \<open>mem_img\<close> one at an address of the kernel's
  identity-mapped memory.
\<close>

section \<open>Images and structures\<close>

type_synonym elf_file = "u64 \<Rightarrow> u8 option"

definition list_img :: "u8 list \<Rightarrow> elf_file" where
  "list_img xs off = (if unat off < length xs then Some (xs ! unat off) else None)"

definition mem_img :: "mem \<Rightarrow> u64 \<Rightarrow> elf_file" where
  "mem_img m a off = Some (m (a + off))"

fun ld_bytes :: "elf_file \<Rightarrow> u64 \<Rightarrow> nat \<Rightarrow> u8 list option" where
  "ld_bytes img off 0 = Some []"
| "ld_bytes img off (Suc n) = do { b \<leftarrow> img off; bs \<leftarrow> ld_bytes img (off + 1) n; Some (b # bs) }"

definition ld16 :: "elf_file \<Rightarrow> u64 \<Rightarrow> u16 option" where
  "ld16 img off = map_option (\<lambda>bs. k_le16 (\<lambda>i. bs ! i)) (ld_bytes img off 2)"

definition ld32 :: "elf_file \<Rightarrow> u64 \<Rightarrow> u32 option" where
  "ld32 img off = map_option (\<lambda>bs. k_le32 (\<lambda>i. bs ! i)) (ld_bytes img off 4)"

definition ld64 :: "elf_file \<Rightarrow> u64 \<Rightarrow> u64 option" where
  "ld64 img off = map_option (\<lambda>bs. k_le64 (\<lambda>i. bs ! i)) (ld_bytes img off 8)"

record elf64_dyn =
  dtag :: u64
  dvalue :: u64

record elf64_ehdr =
  eident :: "u8 list"
  etype :: u16
  emachine :: u16
  eentry :: u64
  phoff :: u64
  phentsize :: u16
  phnum :: u16

record elf64_phdr =
  ptype :: u32
  poffset :: u64
  pvaddr :: u64
  pfilesz :: u64
  pmemsz :: u64

record elf_segment =
  svaddr :: u64
  soffset :: u64
  sfilesz :: u64
  smemsz :: u64

record elf_dynamic =
  present :: bool
  rela_offset :: u64
  rela_size :: u64
  rela_ent :: u64
  rela_count :: u64
  symtab_offset :: u64
  strtab_offset :: u64
  sym_ent :: u64

record elf_image =
  img_entry :: u64
  low_address :: u64
  high_address :: u64
  segment_count :: u64

definition ld_dyn :: "elf_file \<Rightarrow> u64 \<Rightarrow> elf64_dyn option" where
  "ld_dyn img off = do { t \<leftarrow> ld64 img off; v \<leftarrow> ld64 img (off + 8); Some \<lparr>dtag = t, dvalue = v\<rparr> }"

definition ld_ehdr :: "elf_file \<Rightarrow> elf64_ehdr option" where
  "ld_ehdr img = do {
     i \<leftarrow> ld_bytes img 0 16; t \<leftarrow> ld16 img 16; m \<leftarrow> ld16 img 18; e \<leftarrow> ld64 img 24; o' \<leftarrow> ld64 img 32;
     s \<leftarrow> ld16 img 54; n \<leftarrow> ld16 img 56;
     Some \<lparr>eident = i, etype = t, emachine = m, eentry = e, phoff = o', phentsize = s, phnum = n\<rparr>
   }"

definition ld_phdr :: "elf_file \<Rightarrow> u64 \<Rightarrow> elf64_phdr option" where
  "ld_phdr img off = do {
     t \<leftarrow> ld32 img off; o' \<leftarrow> ld64 img (off + 8); v \<leftarrow> ld64 img (off + 16); f \<leftarrow> ld64 img (off + 32);
     m \<leftarrow> ld64 img (off + 40);
     Some \<lparr>ptype = t, poffset = o', pvaddr = v, pfilesz = f, pmemsz = m\<rparr>
   }"

definition PT_LOAD :: u32 where [const_defs]: "PT_LOAD = 1"

definition PT_DYNAMIC :: u32 where [const_defs]: "PT_DYNAMIC = 2"

section \<open>Validation and segments\<close>

definition range_ok :: "u64 \<Rightarrow> u64 \<Rightarrow> u64 \<Rightarrow> bool" where
  "range_ok sz off len \<longleftrightarrow> off \<le> sz \<and> len \<le> sz - off"

definition elf64_validate :: "elf_file \<Rightarrow> u64 \<Rightarrow> bool option" where
  "elf64_validate img sz =
     (if sz < 64 then Some False
      else do {
        eh \<leftarrow> ld_ehdr img;
        Some (if take 4 (eident eh) \<noteq> [0x7F, 0x45, 0x4C, 0x46] then False
              else if eident eh ! 4 \<noteq> 2 \<or> eident eh ! 5 \<noteq> 1 then False
              else if (etype eh \<noteq> 2 \<and> etype eh \<noteq> 3) \<or> emachine eh \<noteq> 62 then False
              else if phentsize eh \<noteq> 56 \<or> phnum eh = 0 then False
              else range_ok sz (phoff eh) (ucast (phnum eh) * ucast (phentsize eh)))
      })"

definition phdr_at :: "elf_file \<Rightarrow> u64 \<Rightarrow> nat \<Rightarrow> elf64_phdr option" where
  "phdr_at img ph i = ld_phdr img (ph + of_nat i * 56)"

fun parse_segs :: "elf_file \<Rightarrow> u64 \<Rightarrow> u64 \<Rightarrow> nat \<Rightarrow> nat \<Rightarrow> nat \<Rightarrow> elf_segment list \<Rightarrow> elf_segment list option option" where
  "parse_segs img sz ph max_segs i 0 segs = Some (Some segs)"
| "parse_segs img sz ph max_segs i (Suc n) segs = do {
     p \<leftarrow> phdr_at img ph i;
     if ptype p \<noteq> PT_LOAD then parse_segs img sz ph max_segs (Suc i) n segs
     else if pmemsz p < pfilesz p \<or> \<not> range_ok sz (poffset p) (pfilesz p) then Some None
     else if length segs \<ge> max_segs then Some None
     else parse_segs img sz ph max_segs (Suc i) n
            (segs @ [\<lparr>svaddr = pvaddr p, soffset = poffset p, sfilesz = pfilesz p, smemsz = pmemsz p\<rparr>])
   }"

definition elf64_parse_segments :: "elf_file \<Rightarrow> u64 \<Rightarrow> nat \<Rightarrow> (elf_segment list \<times> u64 \<times> bool) option option" where
  "elf64_parse_segments img sz max_segs = do {
     ok \<leftarrow> elf64_validate img sz;
     if \<not> ok then Some None
     else do {
       eh \<leftarrow> ld_ehdr img;
       r \<leftarrow> parse_segs img sz (phoff eh) max_segs 0 (unat (phnum eh)) [];
       Some (case r of None \<Rightarrow> None | Some segs \<Rightarrow> if segs = [] then None else Some (segs, eentry eh, etype eh = 3))
     }
   }"

section \<open>The dynamic section\<close>

fun vaddr_loop :: "elf_file \<Rightarrow> u64 \<Rightarrow> u64 \<Rightarrow> nat \<Rightarrow> nat \<Rightarrow> u64 option option" where
  "vaddr_loop img ph vaddr i 0 = Some None"
| "vaddr_loop img ph vaddr i (Suc n) = do {
     p \<leftarrow> phdr_at img ph i;
     if ptype p \<noteq> PT_LOAD then vaddr_loop img ph vaddr (Suc i) n
     else if vaddr \<ge> pvaddr p \<and> vaddr < pvaddr p + pmemsz p then Some (Some (poffset p + (vaddr - pvaddr p)))
     else vaddr_loop img ph vaddr (Suc i) n
   }"

definition elf64_vaddr_to_offset :: "elf_file \<Rightarrow> u64 \<Rightarrow> u64 \<Rightarrow> u64 option option" where
  "elf64_vaddr_to_offset img sz vaddr = do {
     eh \<leftarrow> ld_ehdr img;
     vaddr_loop img (phoff eh) vaddr 0 (unat (phnum eh))
   }"

definition dyn_entry :: "elf_file \<Rightarrow> u64 \<Rightarrow> elf64_dyn \<Rightarrow> elf_dynamic \<Rightarrow> elf_dynamic option" where
  "dyn_entry img sz d out =
     (if dtag d = 7 then do {
        r \<leftarrow> elf64_vaddr_to_offset img sz (dvalue d);
        Some (case r of None \<Rightarrow> out | Some off \<Rightarrow> out\<lparr>rela_offset := off\<rparr>)
      }
      else if dtag d = 8 then Some (out\<lparr>rela_size := dvalue d\<rparr>)
      else if dtag d = 9 then Some (out\<lparr>rela_ent := dvalue d\<rparr>)
      else if dtag d = 0x6FFFFFF9 then Some (out\<lparr>rela_count := dvalue d\<rparr>)
      else if dtag d = 6 then do {
        r \<leftarrow> elf64_vaddr_to_offset img sz (dvalue d);
        Some (case r of None \<Rightarrow> out | Some off \<Rightarrow> out\<lparr>symtab_offset := off\<rparr>)
      }
      else if dtag d = 5 then do {
        r \<leftarrow> elf64_vaddr_to_offset img sz (dvalue d);
        Some (case r of None \<Rightarrow> out | Some off \<Rightarrow> out\<lparr>strtab_offset := off\<rparr>)
      }
      else if dtag d = 11 then Some (out\<lparr>sym_ent := dvalue d\<rparr>)
      else Some out)"

fun dyn_loop :: "elf_file \<Rightarrow> u64 \<Rightarrow> u64 \<Rightarrow> nat \<Rightarrow> nat \<Rightarrow> elf_dynamic \<Rightarrow> elf_dynamic option" where
  "dyn_loop img sz dyn d 0 out = Some out"
| "dyn_loop img sz dyn d (Suc n) out = do {
     e \<leftarrow> ld_dyn img (dyn + of_nat d * 16);
     out \<leftarrow> dyn_entry img sz e out;
     dyn_loop img sz dyn (Suc d) n out
   }"

definition empty_dynamic :: elf_dynamic where
  "empty_dynamic = \<lparr>present = False, rela_offset = 0, rela_size = 0, rela_ent = 0, rela_count = 0,
     symtab_offset = 0, strtab_offset = 0, sym_ent = 0\<rparr>"

fun find_dynamic :: "elf_file \<Rightarrow> u64 \<Rightarrow> u64 \<Rightarrow> nat \<Rightarrow> nat \<Rightarrow> (bool \<times> elf_dynamic) option" where
  "find_dynamic img sz ph i 0 = Some (False, empty_dynamic)"
| "find_dynamic img sz ph i (Suc n) = do {
     p \<leftarrow> phdr_at img ph i;
     if ptype p \<noteq> PT_DYNAMIC then find_dynamic img sz ph (Suc i) n
     else if \<not> range_ok sz (poffset p) (pmemsz p) then Some (False, empty_dynamic)
     else do {
       out \<leftarrow> dyn_loop img sz (poffset p) 0 (unat (pmemsz p div 16)) (empty_dynamic\<lparr>present := True\<rparr>);
       Some (rela_size out \<noteq> 0 \<and> rela_ent out \<noteq> 0, out)
     }
   }"

text \<open>The contents of \<open>out\<close> after a failed validation are those before the call; callers do not use them.\<close>

definition elf64_parse_dynamic :: "elf_file \<Rightarrow> u64 \<Rightarrow> (bool \<times> elf_dynamic) option" where
  "elf64_parse_dynamic img sz = do {
     ok \<leftarrow> elf64_validate img sz;
     if \<not> ok then Some (False, empty_dynamic)
     else do {
       eh \<leftarrow> ld_ehdr img;
       find_dynamic img sz (phoff eh) 0 (unat (phnum eh))
     }
   }"

section \<open>Loading at the link address\<close>

text \<open>
  The image and its destination are in the same identity-mapped memory, so a segment may overwrite
  the headers that the loop reads next; the loop reads \<open>phnum\<close> again in every round.
\<close>

definition load_segment :: "mem \<Rightarrow> u64 \<Rightarrow> elf64_phdr \<Rightarrow> mem" where
  "load_segment m base p =
     (let m = k_memcpy m (pvaddr p) (base + poffset p) (pfilesz p)
      in if pmemsz p > pfilesz p then k_memset m (pvaddr p + pfilesz p) 0 (pmemsz p - pfilesz p) else m)"

lemma u16_bound: "unat (n :: u16) < 65536"
  using unsigned_less [of n, where 'a = nat] by simp

function load_loop :: "mem \<Rightarrow> u64 \<Rightarrow> u64 \<Rightarrow> u64 \<Rightarrow> nat \<Rightarrow> elf_image \<Rightarrow> (bool \<times> elf_image \<times> mem) option" where
  "load_loop m base sz ph i out = do {
     n \<leftarrow> ld16 (mem_img m base) 56;
     if i < unat n then do {
       p \<leftarrow> phdr_at (mem_img m base) ph i;
       if ptype p \<noteq> PT_LOAD then load_loop m base sz ph (Suc i) out
       else if pmemsz p < pfilesz p \<or> \<not> range_ok sz (poffset p) (pfilesz p) then Some (False, out, m)
       else if pvaddr p < 0x2000000 then Some (False, out, m)
       else let e = pvaddr p + pmemsz p
            in load_loop (load_segment m base p) base sz ph (Suc i)
                 (out\<lparr>low_address := (if pvaddr p < low_address out then pvaddr p else low_address out),
                    high_address := (if e > high_address out then e else high_address out),
                    segment_count := segment_count out + 1\<rparr>)
     } else Some (segment_count out \<noteq> 0, out, m)
   }"
  by pat_completeness auto

termination
  by (relation "measure (\<lambda>(m, base, sz, ph, i, out). 65536 - i)") (auto dest: less_trans [OF _ u16_bound])

definition elf64_load_image :: "mem \<Rightarrow> u64 \<Rightarrow> u64 \<Rightarrow> elf_image \<Rightarrow> (bool \<times> elf_image \<times> mem) option" where
  "elf64_load_image m base sz out0 = do {
     ok \<leftarrow> (if base = 0 then Some False else elf64_validate (mem_img m base) sz);
     if \<not> ok then Some (False, out0, m)
     else do {
       eh \<leftarrow> ld_ehdr (mem_img m base);
       load_loop m base sz (phoff eh) 0
         \<lparr>img_entry = eentry eh, low_address = - 1, high_address = 0, segment_count = 0\<rparr>
     }
   }"

section \<open>Reads stay inside the object\<close>

text \<open>An object of which the first \<open>sz\<close> bytes can be read.\<close>

locale elf_object =
  fixes img :: elf_file and sz :: u64
  assumes readable: "off < sz \<Longrightarrow> img off \<noteq> None"
begin

lemma ld_bytes_ok: "unat off + n \<le> unat sz \<Longrightarrow> \<exists>bs. ld_bytes img off n = Some bs \<and> length bs = n"
proof (induction n arbitrary: off)
  case (Suc n)
  then have "off < sz" by (simp add: word_less_nat_alt)
  then obtain b where b: "img off = Some b" using readable by blast
  have "unat (off + 1) = Suc (unat off)" using \<open>off < sz\<close> by (rule unat_inc)
  then have "\<exists>bs. ld_bytes img (off + 1) n = Some bs \<and> length bs = n" using Suc by simp
  with b show ?case by auto
qed simp

lemma ld_ok:
  "unat off + 2 \<le> unat sz \<Longrightarrow> \<exists>v. ld16 img off = Some v"
  "unat off + 4 \<le> unat sz \<Longrightarrow> \<exists>v. ld32 img off = Some v"
  "unat off + 8 \<le> unat sz \<Longrightarrow> \<exists>v. ld64 img off = Some v"
  unfolding ld16_def ld32_def ld64_def using ld_bytes_ok by fastforce+

lemma ld_ehdr_ok:
  assumes "64 \<le> sz"
  shows "\<exists>eh. ld_ehdr img = Some eh \<and> length (eident eh) = 16"
proof -
  have s: "64 \<le> unat sz" using assms by (simp add: word_le_nat_alt)
  obtain i where "ld_bytes img 0 16 = Some i" "length i = 16" using ld_bytes_ok [of 0 16] s by auto
  moreover obtain t where "ld16 img 16 = Some t" using ld_ok(1) [of 16] s by auto
  moreover obtain m where "ld16 img 18 = Some m" using ld_ok(1) [of 18] s by auto
  moreover obtain e where "ld64 img 24 = Some e" using ld_ok(3) [of 24] s by auto
  moreover obtain p where "ld64 img 32 = Some p" using ld_ok(3) [of 32] s by auto
  moreover obtain z where "ld16 img 54 = Some z" using ld_ok(1) [of 54] s by auto
  moreover obtain n where "ld16 img 56 = Some n" using ld_ok(1) [of 56] s by auto
  ultimately show ?thesis by (simp add: ld_ehdr_def)
qed

lemma validate_total: "elf64_validate img sz \<noteq> None"
  using ld_ehdr_ok by (cases "sz < 64") (auto simp: elf64_validate_def not_less)

lemma off_add: fixes off :: u64 shows "unat off + k \<le> unat sz \<Longrightarrow> unat (off + of_nat k) = unat off + k"
proof -
  assume a: "unat off + k \<le> unat sz"
  have b: "unat sz < 2 ^ LENGTH(64)" by (rule unsigned_less)
  then have "unat (of_nat k :: u64) = k" using a by (intro unat_of_nat_small) simp
  then show ?thesis using a b unat_add_lem [of off "of_nat k"] by simp
qed

lemma ld_phdr_ok:
  assumes "unat off + 56 \<le> unat sz"
  shows "ld_phdr img off \<noteq> None"
proof -
  have "unat (off + 8) = unat off + 8" "unat (off + 16) = unat off + 16"
    "unat (off + 32) = unat off + 32" "unat (off + 40) = unat off + 40"
    using assms off_add [of off 8] off_add [of off 16] off_add [of off 32] off_add [of off 40] by simp_all
  then show ?thesis
    using assms ld_ok(2) [of off] ld_ok(3) [of "off + 8"] ld_ok(3) [of "off + 16"] ld_ok(3) [of "off + 32"]
      ld_ok(3) [of "off + 40"] by (auto simp: ld_phdr_def)
qed

lemma ld_dyn_ok:
  assumes "unat off + 16 \<le> unat sz"
  shows "ld_dyn img off \<noteq> None"
proof -
  have "unat (off + 8) = unat off + 8" using assms off_add [of off 8] by simp
  then show ?thesis using assms ld_ok(3) [of off] ld_ok(3) [of "off + 8"] by (auto simp: ld_dyn_def)
qed

lemma table_row: fixes t :: u64 shows "unat t + n * k \<le> unat sz \<Longrightarrow> i < n \<Longrightarrow> unat (t + of_nat i * of_nat k) + k \<le> unat sz"
proof -
  assume a: "unat t + n * k \<le> unat sz" "i < n"
  then have "i * k + k \<le> n * k" by (metis Suc_leI add.commute mult_Suc mult_le_mono1)
  then show ?thesis using off_add [of t "i * k"] a by simp
qed

end

text \<open>The program headers of a validated image, and what validation guarantees of them.\<close>

definition ph_ok :: "elf_file \<Rightarrow> u64 \<Rightarrow> elf64_ehdr \<Rightarrow> bool" where
  "ph_ok img sz eh \<longleftrightarrow> ld_ehdr img = Some eh \<and> 64 \<le> sz \<and> phnum eh \<noteq> 0 \<and>
     unat (phoff eh) + unat (phnum eh) * 56 \<le> unat sz"

lemma range_ok_unat: "range_ok sz off len \<longleftrightarrow> unat off + unat len \<le> unat sz"
proof (cases "off \<le> sz")
  case True
  then have "unat (sz - off) = unat sz - unat off" by (rule unat_sub)
  then show ?thesis using True by (auto simp: range_ok_def word_le_nat_alt)
next
  case False
  then show ?thesis by (auto simp: range_ok_def word_le_nat_alt)
qed

lemma validate_ph_ok:
  assumes "elf64_validate img sz = Some True"
  shows "\<exists>eh. ph_ok img sz eh"
proof -
  obtain eh where eh: "ld_ehdr img = Some eh" "64 \<le> sz"
    using assms by (auto simp: elf64_validate_def bind_eq_Some_conv not_less split: if_splits)
  then have *: "phentsize eh = 56" "phnum eh \<noteq> 0" "range_ok sz (phoff eh) (ucast (phnum eh) * ucast (phentsize eh))"
    using assms by (auto simp: elf64_validate_def split: if_splits)
  have "unat (ucast (phnum eh) :: u64) = unat (phnum eh)" 
    using u16_bound [of "phnum eh"] by (simp add: unsigned_ucast_eq take_bit_nat_eq_self)
  moreover have "unat (phnum eh) * 56 < 2 ^ LENGTH(64)" using u16_bound [of "phnum eh"] by simp
  ultimately have "unat (ucast (phnum eh) * (56 :: u64)) = unat (phnum eh) * 56"
    using unat_mult_lem [of "ucast (phnum eh) :: u64" 56] by simp
  then show ?thesis using eh * by (auto simp: ph_ok_def range_ok_unat)
qed

definition ph_table :: "elf_file \<Rightarrow> elf64_ehdr \<Rightarrow> elf64_phdr list" where
  "ph_table img eh = map (\<lambda>i. the (phdr_at img (phoff eh) i)) [0..<unat (phnum eh)]"

definition seg_of :: "elf64_phdr \<Rightarrow> elf_segment" where
  "seg_of p = \<lparr>svaddr = pvaddr p, soffset = poffset p, sfilesz = pfilesz p, smemsz = pmemsz p\<rparr>"

definition load_ok :: "u64 \<Rightarrow> elf64_phdr \<Rightarrow> bool" where
  "load_ok sz p \<longleftrightarrow> pfilesz p \<le> pmemsz p \<and> unat (poffset p) + unat (pfilesz p) \<le> unat sz"

context elf_object
begin

lemma phdr_at_ok: "ph_ok img sz eh \<Longrightarrow> i < unat (phnum eh) \<Longrightarrow> phdr_at img (phoff eh) i \<noteq> None"
  using table_row [of "phoff eh" "unat (phnum eh)" 56 i] ld_phdr_ok by (simp add: phdr_at_def ph_ok_def)

lemma parse_segs_eq:
  assumes "ph_ok img sz eh" "i + n = unat (phnum eh)"
  shows "parse_segs img sz (phoff eh) mx i n segs =
    (let ls = filter (\<lambda>p. ptype p = PT_LOAD) (drop i (ph_table img eh))
     in Some (if list_all (load_ok sz) ls \<and> (ls = [] \<or> length segs + length ls \<le> mx)
              then Some (segs @ map seg_of ls) else None))"
  using assms(2)
proof (induction n arbitrary: i segs)
  case (Suc n)
  then have i: "i < unat (phnum eh)" by simp
  obtain p where p: "phdr_at img (phoff eh) i = Some p" using phdr_at_ok [OF assms(1) i] by blast
  have d: "drop i (ph_table img eh) = p # drop (Suc i) (ph_table img eh)"
    using i p upt_conv_Cons [OF i] by (simp add: ph_table_def drop_map)
  let ?ls = "filter (\<lambda>p. ptype p = PT_LOAD) (drop (Suc i) (ph_table img eh))"
  have IH: "parse_segs img sz (phoff eh) mx (Suc i) n s =
    Some (if list_all (load_ok sz) ?ls \<and> (?ls = [] \<or> length s + length ?ls \<le> mx) then Some (s @ map seg_of ?ls) else None)" for s
    using Suc.IH [of "Suc i" s] Suc.prems by (simp add: Let_def)
  have c: "(pmemsz p < pfilesz p \<or> \<not> range_ok sz (poffset p) (pfilesz p)) \<longleftrightarrow> \<not> load_ok sz p"
    by (auto simp: load_ok_def range_ok_unat)
  have step: "parse_segs img sz (phoff eh) mx i (Suc n) segs =
    (if ptype p \<noteq> PT_LOAD then parse_segs img sz (phoff eh) mx (Suc i) n segs
     else if \<not> load_ok sz p \<or> length segs \<ge> mx then Some None
     else parse_segs img sz (phoff eh) mx (Suc i) n (segs @ [seg_of p]))"
    using p c by (simp add: seg_of_def)
  show ?case
    unfolding step IH d by (auto simp: Let_def)
qed (simp add: ph_table_def)

lemma vaddr_loop_ok:
  "ph_ok img sz eh \<Longrightarrow> i + n = unat (phnum eh) \<Longrightarrow> vaddr_loop img (phoff eh) v i n \<noteq> None"
proof (induction n arbitrary: i)
  case (Suc n)
  obtain p where "phdr_at img (phoff eh) i = Some p" using phdr_at_ok [OF Suc.prems(1), of i] Suc.prems(2) by auto
  then show ?case using Suc by simp
qed simp

lemma dyn_entry_ok: "ph_ok img sz eh \<Longrightarrow> dyn_entry img sz d out \<noteq> None"
  using vaddr_loop_ok [of eh 0 "unat (phnum eh)" "dvalue d"]
  by (auto simp: dyn_entry_def elf64_vaddr_to_offset_def ph_ok_def)

lemma dyn_loop_ok:
  assumes "ph_ok img sz eh" "unat t + m * 16 \<le> unat sz"
  shows "d + n = m \<Longrightarrow> dyn_loop img sz t d n out \<noteq> None"
proof (induction n arbitrary: d out)
  case (Suc n)
  have "unat (t + of_nat d * of_nat 16) + 16 \<le> unat sz" using Suc.prems by (intro table_row [OF assms(2)]) simp
  then obtain e where e: "ld_dyn img (t + of_nat d * 16) = Some e" using ld_dyn_ok by fastforce
  obtain o' where "dyn_entry img sz e out = Some o'" using dyn_entry_ok [OF assms(1)] by blast
  then show ?case using e Suc by simp
qed simp

lemma find_dynamic_ok:
  assumes "ph_ok img sz eh"
  shows "i + n = unat (phnum eh) \<Longrightarrow> find_dynamic img sz (phoff eh) i n \<noteq> None"
proof (induction n arbitrary: i)
  case (Suc n)
  obtain p where p: "phdr_at img (phoff eh) i = Some p" using phdr_at_ok [OF assms, of i] Suc.prems by auto
  let ?n = "unat (pmemsz p div 16)"
  have "dyn_loop img sz (poffset p) 0 ?n (empty_dynamic\<lparr>present := True\<rparr>) \<noteq> None"
    if r: "range_ok sz (poffset p) (pmemsz p)"
  proof (rule dyn_loop_ok [OF assms])
    have "?n * 16 \<le> unat (pmemsz p)" by (simp add: unat_div)
    then show "unat (poffset p) + ?n * 16 \<le> unat sz" using r unfolding range_ok_unat by linarith
  qed simp
  then show ?case using p Suc by auto
qed simp

lemma parse_dynamic_total: "elf64_parse_dynamic img sz \<noteq> None"
proof -
  obtain ok where ok: "elf64_validate img sz = Some ok" using validate_total by blast
  show ?thesis
  proof (cases ok)
    case True
    then obtain eh where "ph_ok img sz eh" using validate_ph_ok [of img sz] ok by auto
    then show ?thesis
      using ok True find_dynamic_ok [of eh 0 "unat (phnum eh)"] by (simp add: elf64_parse_dynamic_def ph_ok_def)
  qed (use ok in \<open>simp add: elf64_parse_dynamic_def\<close>)
qed

lemma parse_segments_eq:
  "elf64_parse_segments img sz mx = Some
    (if elf64_validate img sz = Some True
     then let eh = the (ld_ehdr img); ls = filter (\<lambda>p. ptype p = PT_LOAD) (ph_table img eh)
          in if ls \<noteq> [] \<and> length ls \<le> mx \<and> list_all (load_ok sz) ls then Some (map seg_of ls, eentry eh, etype eh = 3)
             else None
     else None)"
proof -
  obtain ok where ok: "elf64_validate img sz = Some ok" using validate_total by blast
  show ?thesis
  proof (cases ok)
    case True
    then obtain eh where "ph_ok img sz eh" using validate_ph_ok [of img sz] ok by auto
    then show ?thesis
      using ok True parse_segs_eq [of eh 0 "unat (phnum eh)" mx "[]"]
      by (auto simp: elf64_parse_segments_def ph_ok_def Let_def)
  qed (use ok in \<open>simp add: elf64_parse_segments_def\<close>)
qed

end

text \<open>A file in a buffer of its length, and an image in the kernel's memory, are such objects.\<close>

interpretation ef: elf_object "list_img xs" "of_nat (length xs)"
proof
  fix off :: u64
  assume "off < of_nat (length xs)"
  then have "unat off < length xs mod 2 ^ 64" by (simp add: word_less_nat_alt unsigned_of_nat take_bit_eq_mod)
  then have "unat off < length xs" by (rule less_le_trans) simp
  then show "list_img xs off \<noteq> None" by (simp add: list_img_def)
qed

interpretation em: elf_object "mem_img m a" sz
  by unfold_locales (simp add: mem_img_def)

section \<open>Properties\<close>

text \<open>
  C23: whatever bytes a file holds, validation and the parsing of its segments and of its dynamic section
  read no byte outside the file.
\<close>

theorem elf_parsing_in_bounds:
  "elf64_validate (list_img xs) (of_nat (length xs)) \<noteq> None \<and>
   elf64_parse_segments (list_img xs) (of_nat (length xs)) n \<noteq> None \<and>
   elf64_parse_dynamic (list_img xs) (of_nat (length xs)) \<noteq> None"
  using ef.validate_total ef.parse_dynamic_total by (simp add: ef.parse_segments_eq)

text \<open>
  C8: \<open>elf64_parse_segments\<close> computes what its description says: for a valid file it returns exactly the
  loadable program headers in table order, with the entry point and the position-independence flag, if there
  is at least one, they fit the array, and each has file bytes that lie inside the file and do not exceed its
  memory size; otherwise it fails.
\<close>

theorem elf_parse_segments_spec:
  assumes "length xs < 2 ^ 64" "elf64_validate (list_img xs) (of_nat (length xs)) = Some True"
  shows "elf64_parse_segments (list_img xs) (of_nat (length xs)) n = Some (
    let eh = the (ld_ehdr (list_img xs)); ls = filter (\<lambda>p. ptype p = PT_LOAD) (ph_table (list_img xs) eh)
    in if ls \<noteq> [] \<and> length ls \<le> n \<and>
          (\<forall>p \<in> set ls. pfilesz p \<le> pmemsz p \<and> unat (poffset p) + unat (pfilesz p) \<le> length xs)
       then Some (map seg_of ls, eentry eh, etype eh = 3) else None)"
proof -
  have "unat (of_nat (length xs) :: u64) = length xs" using assms(1) by (intro unat_of_nat_small) simp
  then show ?thesis
    unfolding ef.parse_segments_eq using assms(2) by (simp add: Let_def list_all_iff load_ok_def)
qed

text \<open>A file with one loadable segment of 64 file bytes and 128 bytes of memory.\<close>

definition small_elf :: "u8 list" where
  "small_elf = [0x7F, 0x45, 0x4C, 0x46, 2, 1] @ replicate 10 0 @ [3, 0, 62, 0, 1, 0, 0, 0] @
     [0, 0x10, 0, 0, 0, 0, 0, 0] @ [64, 0, 0, 0, 0, 0, 0, 0] @ replicate 12 0 @ [64, 0, 56, 0, 1, 0] @ replicate 6 0 @
     [1, 0, 0, 0, 7, 0, 0, 0] @ replicate 8 0 @ [0, 0x10, 0, 0, 0, 0, 0, 0] @ replicate 8 0 @
     [64, 0, 0, 0, 0, 0, 0, 0] @ [128, 0, 0, 0, 0, 0, 0, 0] @ replicate 8 0"

theorem elf_parse_segments_spec_witness:
  "elf64_parse_segments (list_img small_elf) (of_nat (length small_elf)) 8 =
    Some (Some ([\<lparr>svaddr = 0x1000, soffset = 0, sfilesz = 64, smemsz = 128\<rparr>], 0x1000, True))"
proof -
  have l: "length small_elf < 2 ^ 64" by (simp add: small_elf_def)
  have v: "elf64_validate (list_img small_elf) (of_nat (length small_elf)) = Some True" by code_simp
  show ?thesis unfolding elf_parse_segments_spec [OF l v] by code_simp
qed

end
