(* ===== verification/Process.thy ===== *)
theory Process
  imports Links Paging Kheap Vfs Elf
begin

text \<open>
  Process management of \<^verbatim>\<open>process/process.c\<close> on top of the page tables, the kernel heap, the file
  system and the ELF parser.

  The kernel state holds one physical memory, shared by page tables, heap and user pages through the
  identity mapping. Process control blocks are records in the typed store \<open>procs\<close>, addressed by the
  pointer that \<open>kheap_alloc\<close> returned for them (0 is the null pointer); their bytes in the heap are
  allocated, cleared and freed as in the source. A call that does not return normally (a list that is a
  cycle, a page fault of the kernel on a user address, an overrun of a local array) has the value \<open>None\<close>.
\<close>

section \<open>State\<close>

record registers =
  rax :: u64
  rbx :: u64
  rcx :: u64
  rdx :: u64
  rsi :: u64
  rdi :: u64
  rbp :: u64
  r8 :: u64
  r9 :: u64
  r10 :: u64
  r11 :: u64
  r12 :: u64
  r13 :: u64
  r14 :: u64
  r15 :: u64
  int_no :: u64
  err_code :: u64
  rip :: u64
  rcs :: u64
  rflags :: u64
  user_rsp :: u64
  rss :: u64

definition zero_regs :: registers where
  "zero_regs = \<lparr>rax = 0, rbx = 0, rcx = 0, rdx = 0, rsi = 0, rdi = 0, rbp = 0, r8 = 0, r9 = 0, r10 = 0, r11 = 0,
     r12 = 0, r13 = 0, r14 = 0, r15 = 0, int_no = 0, err_code = 0, rip = 0, rcs = 0, rflags = 0, user_rsp = 0, rss = 0\<rparr>"

record syscall_regs =
  srax :: u64
  srbx :: u64
  srcx :: u64
  srdx :: u64
  srsi :: u64
  srdi :: u64
  srbp :: u64
  sr8 :: u64
  sr9 :: u64
  sr10 :: u64
  sr11 :: u64
  sr12 :: u64
  sr13 :: u64
  sr14 :: u64
  sr15 :: u64

datatype process_state = PROC_READY | PROC_RUNNING | PROC_BLOCKED | PROC_ZOMBIE

record process =
  pid :: u64
  pname :: cstring
  state :: process_state
  pcpu :: u32
  cr3 :: u64
  ticks :: u64
  fs_base :: u64
  mmap_cursor :: u64
  files :: "proc_file list"
  kernel_stack_top :: u64
  saved_kernel_rsp :: u64
  puser_rsp :: u64
  exit_status :: u32
  waiting :: bool
  pparent :: u64
  children :: u64
  next_sibling :: u64
  vt :: u8
  terminate :: bool
  blocked :: bool
  ctx :: registers
  pnext :: u64

definition zero_process :: process where
  "zero_process = \<lparr>pid = 0, pname = [], state = PROC_READY, pcpu = 0, cr3 = 0, ticks = 0, fs_base = 0,
     mmap_cursor = 0, files = replicate 16 \<lparr>fpath = [], foffset = 0, fopen = False\<rparr>, kernel_stack_top = 0,
     saved_kernel_rsp = 0, puser_rsp = 0, exit_status = 0, waiting = False, pparent = 0, children = 0,
     next_sibling = 0, vt = 0, terminate = False, blocked = False, ctx = zero_regs, pnext = 0\<rparr>"

record percpu =
  kernel_rsp :: u64
  cpu_user_rsp :: u64
  cpu_index :: u32
  lapic_id :: u32
  current :: u64
  tss_rsp0 :: u64
  syscall_stack_top :: u64

record kstate =
  mach :: machine
  heap_hd :: u64
  heap_used :: u64
  kvfs :: vfs
  procs :: "u64 \<Rightarrow> process"
  next_pid :: u64
  percpus :: "nat \<Rightarrow> percpu"

definition heap_of :: "'a kstate_scheme \<Rightarrow> kheap" where
  "heap_of s = \<lparr>hmem = phys_mem (mach s), hpmm = frames (mach s), heap_head = heap_hd s, allocated_bytes = heap_used s\<rparr>"

definition put_heap :: "'a kstate_scheme \<Rightarrow> kheap \<Rightarrow> 'a kstate_scheme" where
  "put_heap s h = s\<lparr>mach := (mach s)\<lparr>phys_mem := hmem h, frames := hpmm h\<rparr>,
     heap_hd := heap_head h, heap_used := allocated_bytes h\<rparr>"

definition kmalloc :: "'a kstate_scheme \<Rightarrow> u64 \<Rightarrow> u64 \<Rightarrow> (u64 \<times> 'a kstate_scheme) option" where
  "kmalloc s n a = do { (p, h) \<leftarrow> kheap_alloc (heap_of s) n a; Some (p, put_heap s h) }"

definition kfree :: "'a kstate_scheme \<Rightarrow> u64 \<Rightarrow> 'a kstate_scheme option" where
  "kfree s p = do { h \<leftarrow> kheap_free (heap_of s) p; Some (put_heap s h) }"

definition upd_proc :: "'a kstate_scheme \<Rightarrow> u64 \<Rightarrow> (process \<Rightarrow> process) \<Rightarrow> 'a kstate_scheme" where
  "upd_proc s p f = s\<lparr>procs := (procs s)(p := f (procs s p))\<rparr>"

definition upd_mem :: "'a kstate_scheme \<Rightarrow> (mem \<Rightarrow> mem) \<Rightarrow> 'a kstate_scheme" where
  "upd_mem s f = s\<lparr>mach := (mach s)\<lparr>phys_mem := f (phys_mem (mach s))\<rparr>\<rparr>"

definition poke :: "u64 \<Rightarrow> u8 list \<Rightarrow> mem \<Rightarrow> mem" where
  "poke a bs m = (\<lambda>x. if unat (x - a) < length bs then bs ! unat (x - a) else m x)"

definition process_init :: "'a kstate_scheme \<Rightarrow> 'a kstate_scheme" where
  "process_init s = s\<lparr>next_pid := 1\<rparr>"

definition process_next_pid :: "'a kstate_scheme \<Rightarrow> u64" where
  "process_next_pid s = next_pid s"

definition process_current :: "'a kstate_scheme \<Rightarrow> nat \<Rightarrow> u64" where
  "process_current s cpu = current (percpus s cpu)"

definition process_set_current :: "'a kstate_scheme \<Rightarrow> nat \<Rightarrow> u64 \<Rightarrow> 'a kstate_scheme" where
  "process_set_current s cpu p = s\<lparr>percpus := (percpus s)(cpu := (percpus s cpu)\<lparr>current := p\<rparr>)\<rparr>"

section \<open>Creation\<close>

definition PIE_BASE_RANGE :: u64 where [const_defs]: "PIE_BASE_RANGE = 512 * 1024 * 1024"

definition PROCESS_KSTACK_SIZE :: u64 where [const_defs]: "PROCESS_KSTACK_SIZE = 16 * 1024"

definition PROCESS_USER_STACK_SIZE :: u64 where [const_defs]: "PROCESS_USER_STACK_SIZE = 256 * 1024"

definition PROCESS_USER_STACK_TOP :: u64 where [const_defs]: "PROCESS_USER_STACK_TOP = 0x4000000000"

definition PROCESS_MMAP_START :: u64 where [const_defs]: "PROCESS_MMAP_START = 0x1000000000"

text \<open>The size of the structure \<open>process_t\<close> under the layout rules of the target.\<close>

definition sizeof_process :: u64 where
  "sizeof_process = 2632"

definition pie_base :: "process \<Rightarrow> u64" where
  "pie_base p =
     (let x = pid p * 0x9E3779B97F4A7C15 + 0x1234567; off = x mod PIE_BASE_RANGE
      in PAGING_USER_BASE + (off AND NOT 0x1FFFFF))"

definition tty_file :: proc_file where
  "tty_file = \<lparr>fpath = buf_str (k_strncpy (Some (cstr (str ''tty''))) 128), foffset = 0, fopen = True\<rparr>"

definition new_process :: "u64 \<Rightarrow> cstring option \<Rightarrow> process" where
  "new_process n name = zero_process\<lparr>pid := n, state := PROC_READY,
     ctx := zero_regs\<lparr>rcs := 0x23, rss := 0x1B, rflags := 0x202\<rparr>, mmap_cursor := PROCESS_MMAP_START,
     files := replicate 3 tty_file @ drop 3 (files zero_process),
     pname := (case name of Some n \<Rightarrow> buf_str (k_strncpy (Some (cstr n)) 32)
                          | None \<Rightarrow> buf_str (k_strncpy (Some (cstr (str ''user''))) 32))\<rparr>"

definition process_create :: "'a kstate_scheme \<Rightarrow> cstring option \<Rightarrow> (u64 \<times> 'a kstate_scheme) option" where
  "process_create s name = do {
     (p, s) \<leftarrow> kmalloc s sizeof_process 16;
     if p = 0 then Some (0, s)
     else let s = upd_mem s (\<lambda>m. k_memset m p 0 sizeof_process);
              s = upd_proc s p (\<lambda>_. new_process (next_pid s) name);
              s = s\<lparr>next_pid := next_pid s + 1\<rparr>
          in case paging_new_address_space (mach s) of (root, m) \<Rightarrow>
            let s = upd_proc (s\<lparr>mach := m\<rparr>) p (\<lambda>q. q\<lparr>cr3 := root\<rparr>)
            in if root = 0 then do { s \<leftarrow> kfree s p; Some (0, s) }
               else do {
                 (stk, s) \<leftarrow> kmalloc s PROCESS_KSTACK_SIZE 16;
                 let s = upd_proc s p (\<lambda>q. q\<lparr>kernel_stack_top := stk + PROCESS_KSTACK_SIZE\<rparr>);
                 if stk + PROCESS_KSTACK_SIZE = 0 then do {
                   s \<leftarrow> kfree (s\<lparr>mach := paging_free_address_space (mach s) root\<rparr>) p;
                   Some (0, s)
                 } else Some (p, s)
               }
   }"

definition process_destroy :: "'a kstate_scheme \<Rightarrow> u64 \<Rightarrow> 'a kstate_scheme option" where
  "process_destroy s p =
     (if p = 0 then Some s
      else do {
        s \<leftarrow> (if kernel_stack_top (procs s p) \<noteq> 0
              then kfree s (kernel_stack_top (procs s p) - PROCESS_KSTACK_SIZE) else Some s);
        let s = s\<lparr>mach := paging_free_address_space (mach s) (cr3 (procs s p))\<rparr>;
        kfree s p
      })"

section \<open>Mapping an image\<close>

text \<open>The common body of the two mapping loops: a zeroed frame for one user page.\<close>

definition map_zero_page :: "u64 \<Rightarrow> u64 \<Rightarrow> machine \<Rightarrow> u64 option \<times> machine" where
  "map_zero_page root va m =
     (case alloc_frame m of (frame, m) \<Rightarrow>
        if frame = 0 then (None, m)
        else case paging_map (zero_page m frame) root va frame (PAGING_FLAG_USER OR PAGING_FLAG_WRITABLE) of
               (ok, m) \<Rightarrow> if ok then (Some frame, m) else (None, free_frame m frame))"

partial_function (option) map_seg_loop ::
  "machine \<Rightarrow> u64 \<Rightarrow> u64 \<Rightarrow> elf_segment \<Rightarrow> u64 \<Rightarrow> u64 \<Rightarrow> u64 \<Rightarrow> (bool \<times> machine) option" where
  "map_seg_loop m root buf seg vaddr va end_page =
     (if va < end_page then
        (case map_zero_page root va m of
           (None, m) \<Rightarrow> Some (False, m)
         | (Some frame, m) \<Rightarrow>
             (let lo = (if vaddr > va then vaddr else va);
                  hi = (if vaddr + sfilesz seg < va + 0x1000 then vaddr + sfilesz seg else va + 0x1000);
                  m = (if hi > lo
                       then m\<lparr>phys_mem := k_memcpy (phys_mem m) (frame + (lo - va))
                                 (buf + (soffset seg + (lo - vaddr))) (hi - lo)\<rparr>
                       else m)
              in map_seg_loop m root buf seg vaddr (va + 0x1000) end_page))
      else Some (True, m))"

declare map_seg_loop.simps [code]

definition map_segment :: "machine \<Rightarrow> u64 \<Rightarrow> u64 \<Rightarrow> elf_segment \<Rightarrow> u64 \<Rightarrow> (bool \<times> machine) option" where
  "map_segment m root buf seg base =
     (let vaddr = base + svaddr seg;
          start_page = vaddr AND NOT 0xFFF;
          end_page = (vaddr + smemsz seg + 0xFFF) AND NOT 0xFFF
      in map_seg_loop m root buf seg vaddr start_page end_page)"

fun map_segments :: "machine \<Rightarrow> u64 \<Rightarrow> u64 \<Rightarrow> u64 \<Rightarrow> elf_segment list \<Rightarrow> (bool \<times> machine) option" where
  "map_segments m root buf base [] = Some (True, m)"
| "map_segments m root buf base (seg # segs) = do {
     (ok, m) \<leftarrow> map_segment m root buf seg base;
     if ok then map_segments m root buf base segs else Some (False, m)
   }"

definition map_user_stack :: "machine \<Rightarrow> u64 \<Rightarrow> bool \<times> machine" where
  "map_user_stack m root =
     for_ok (\<lambda>i m. case map_zero_page root (PROCESS_USER_STACK_TOP - PROCESS_USER_STACK_SIZE + of_nat i * 0x1000) m of
               (f, m) \<Rightarrow> (f \<noteq> None, m)) [0..<64] m"

section \<open>Relocations\<close>

record elf64_rela =
  r_offset :: u64
  r_info :: u64
  r_addend :: u64

record elf64_sym =
  st_shndx :: u16
  st_value :: u64

definition ld_rela :: "elf_file \<Rightarrow> u64 \<Rightarrow> elf64_rela option" where
  "ld_rela img off = do {
     o' \<leftarrow> ld64 img off; i \<leftarrow> ld64 img (off + 8); a \<leftarrow> ld64 img (off + 16);
     Some \<lparr>r_offset = o', r_info = i, r_addend = a\<rparr>
   }"

definition ld_sym :: "elf_file \<Rightarrow> u64 \<Rightarrow> elf64_sym option" where
  "ld_sym img off = do { x \<leftarrow> ld16 img (off + 6); v \<leftarrow> ld64 img (off + 8); Some \<lparr>st_shndx = x, st_value = v\<rparr> }"

text \<open>The address of a symbol and the flag \<open>defined\<close>.\<close>

definition resolve_symbol :: "elf_file \<Rightarrow> u64 \<Rightarrow> elf_dynamic \<Rightarrow> u32 \<Rightarrow> u64 \<Rightarrow> (u64 \<times> bool) option" where
  "resolve_symbol img sz dyn sym_index base =
     (if symtab_offset dyn = 0 \<or> sym_ent dyn < 24 then Some (0, False)
      else let off = symtab_offset dyn + ucast sym_index * sym_ent dyn
           in if off + 24 > sz then Some (0, False)
              else do {
                sym \<leftarrow> ld_sym img off;
                Some (if st_shndx sym = 0 then (0, False) else (base + st_value sym, True))
              })"

text \<open>The value a relocation stores, \<open>None\<close> when the slot is left alone.\<close>

definition reloc_value :: "elf_file \<Rightarrow> u64 \<Rightarrow> elf_dynamic \<Rightarrow> u64 \<Rightarrow> elf64_rela \<Rightarrow> u64 option option" where
  "reloc_value img sz dyn base r =
     (let type = r_info r AND 0xFFFFFFFF; sym_index = ucast (drop_bit 32 (r_info r))
      in if type = 8 then Some (Some (base + r_addend r))
         else if type = 6 \<or> type = 7 then do {
           (value, defined) \<leftarrow> resolve_symbol img sz dyn sym_index base;
           Some (if defined then Some value else None)
         }
         else if type = 1 then do {
           (sym, _) \<leftarrow> resolve_symbol img sz dyn sym_index base;
           Some (Some (sym + r_addend r))
         }
         else Some None)"

fun reloc_loop :: "machine \<Rightarrow> u64 \<Rightarrow> u64 \<Rightarrow> u64 \<Rightarrow> elf_dynamic \<Rightarrow> u64 \<Rightarrow> nat \<Rightarrow> nat \<Rightarrow> (bool \<times> machine) option" where
  "reloc_loop m root buf sz dyn base i 0 = Some (True, m)"
| "reloc_loop m root buf sz dyn base i (Suc n) = do {
     r \<leftarrow> ld_rela (mem_img (phys_mem m) buf) (rela_offset dyn + of_nat i * rela_ent dyn);
     v \<leftarrow> reloc_value (mem_img (phys_mem m) buf) sz dyn base r;
     case v of
       None \<Rightarrow> reloc_loop m root buf sz dyn base (Suc i) n
     | Some value \<Rightarrow>
         (let phys = paging_translate m root (base + r_offset r)
          in if phys = 0 then Some (False, m)
             else reloc_loop (m\<lparr>phys_mem := wr64 (phys_mem m) phys value\<rparr>) root buf sz dyn base (Suc i) n)
   }"

definition apply_relocations :: "machine \<Rightarrow> u64 \<Rightarrow> u64 \<Rightarrow> u64 \<Rightarrow> u64 \<Rightarrow> (bool \<times> machine) option" where
  "apply_relocations m root buf sz base = do {
     (ok, dyn) \<leftarrow> elf64_parse_dynamic (mem_img (phys_mem m) buf) sz;
     if \<not> ok \<or> \<not> present dyn then Some (True, m)
     else if rela_ent dyn < 24 then Some (True, m)
     else reloc_loop m root buf sz dyn base 0 (unat (rela_size dyn div rela_ent dyn))
   }"

section \<open>Starting a program\<close>

definition put_user64 :: "u64 \<Rightarrow> u64 \<Rightarrow> u64 \<Rightarrow> machine \<Rightarrow> machine" where
  "put_user64 root va v m =
     (let phys = paging_translate m root va
      in if phys \<noteq> 0 then m\<lparr>phys_mem := wr64 (phys_mem m) phys v\<rparr> else m)"

definition put_user_pair :: "u64 \<Rightarrow> u64 \<Rightarrow> machine \<Rightarrow> machine" where
  "put_user_pair root va m =
     (let phys = paging_translate m root va
      in if phys \<noteq> 0 then m\<lparr>phys_mem := wr64 (wr64 (phys_mem m) phys 0) (phys + 8) 0\<rparr> else m)"

definition process_setup :: "'a kstate_scheme \<Rightarrow> u64 \<Rightarrow> u64 \<Rightarrow> u64 \<Rightarrow> 'a kstate_scheme" where
  "process_setup s p entry stack_top =
     (let root = cr3 (procs s p);
          str_vaddr = stack_top - 0x2000;
          str_k = paging_translate (mach s) root str_vaddr;
          s = (if str_k \<noteq> 0 then upd_mem s (poke str_k (pname (procs s p) @ [0])) else s);
          m = put_user_pair root (stack_top - 16) (mach s);
          m = put_user64 root (stack_top - 24) 0 m;
          m = put_user64 root (stack_top - 32) 0 m;
          m = put_user64 root (stack_top - 40) str_vaddr m;
          m = put_user64 root (stack_top - 48) 1 m
      in upd_proc (s\<lparr>mach := m\<rparr>) p
           (\<lambda>q. q\<lparr>ctx := (ctx q)\<lparr>rip := entry, user_rsp := stack_top - 48, rflags := 0x202\<rparr>\<rparr>))"

text \<open>
  The part that \<open>process_load_elf\<close> and \<open>process_execve\<close> share: the file into a heap buffer and its
  segment table. On success the buffer is returned.
\<close>

definition read_image ::
  "'a kstate_scheme \<Rightarrow> cstring \<Rightarrow> ((u64 \<times> u64 \<times> elf_segment list \<times> u64 \<times> bool) option \<times> 'a kstate_scheme) option" where
  "read_image s path = do {
     (buf, s) \<leftarrow> kmalloc s 0x100000 16;
     if buf = 0 then Some (None, s)
     else do {
       (n, data, v) \<leftarrow> vfs_read_file (kvfs s) path 0x100000;
       let s = upd_mem (s\<lparr>kvfs := v\<rparr>) (poke buf data);
       if n \<le> 0 then do { s \<leftarrow> kfree s buf; Some (None, s) }
       else do {
         r \<leftarrow> elf64_parse_segments (mem_img (phys_mem (mach s)) buf) (of_int n) 8;
         case r of
           None \<Rightarrow> do { s \<leftarrow> kfree s buf; Some (None, s) }
         | Some (segs, entry, pie) \<Rightarrow> Some (Some (buf, of_int n, segs, entry, pie), s)
       }
     }
   }"

text \<open>Segments, relocations and user stack, in the address space \<open>root\<close>.\<close>

definition map_image :: "machine \<Rightarrow> u64 \<Rightarrow> u64 \<Rightarrow> u64 \<Rightarrow> elf_segment list \<Rightarrow> u64 \<Rightarrow> (bool \<times> machine) option" where
  "map_image m root buf sz segs base = do {
     (ok, m) \<leftarrow> map_segments m root buf base segs;
     if \<not> ok then Some (False, m)
     else do {
       (ok, m) \<leftarrow> apply_relocations m root buf sz base;
       if \<not> ok then Some (False, m) else Some (map_user_stack m root)
     }
   }"

definition process_load_elf :: "'a kstate_scheme \<Rightarrow> u64 \<Rightarrow> cstring \<Rightarrow> (bool \<times> 'a kstate_scheme) option" where
  "process_load_elf s p path = do {
     (r, s) \<leftarrow> read_image s path;
     case r of
       None \<Rightarrow> Some (False, s)
     | Some (buf, sz, segs, entry, pie) \<Rightarrow>
         (let base = (if pie then pie_base (procs s p) else 0)
          in do {
            (ok, m) \<leftarrow> map_image (mach s) (cr3 (procs s p)) buf sz segs base;
            s \<leftarrow> kfree (s\<lparr>mach := m\<rparr>) buf;
            Some (if ok then (True, process_setup s p (base + entry) PROCESS_USER_STACK_TOP) else (False, s))
          })
   }"

section \<open>Exec\<close>

text \<open>Kernel accesses to user memory through the active page tables; an unmapped address faults.\<close>

definition user_byte :: "machine \<Rightarrow> u64 \<Rightarrow> u64 \<Rightarrow> u8 option" where
  "user_byte m root va =
     (let phys = paging_translate m root va in if phys = 0 then None else Some (phys_mem m phys))"

definition user_word :: "machine \<Rightarrow> u64 \<Rightarrow> u64 \<Rightarrow> u64 option" where
  "user_word m root va = ld64 (user_byte m root) va"

partial_function (option) user_str :: "machine \<Rightarrow> u64 \<Rightarrow> u64 \<Rightarrow> cstring option" where
  "user_str m root va = do {
     c \<leftarrow> user_byte m root va;
     if c = 0 then Some [] else do { s \<leftarrow> user_str m root (va + 1); Some (c # s) }
   }"

declare user_str.simps [code]

text \<open>The pointers of an argument array up to its null pointer.\<close>

partial_function (option) user_array :: "machine \<Rightarrow> u64 \<Rightarrow> u64 \<Rightarrow> u64 list option" where
  "user_array m root va = do {
     p \<leftarrow> user_word m root va;
     if p = 0 then Some [] else do { ps \<leftarrow> user_array m root (va + 8); Some (p # ps) }
   }"

declare user_array.simps [code]

fun read_cstr_loop :: "'a kstate_scheme \<Rightarrow> u64 \<Rightarrow> u64 \<Rightarrow> u64 \<Rightarrow> nat \<Rightarrow> nat \<Rightarrow> cstring \<Rightarrow>
     (u64 \<times> cstring \<times> 'a kstate_scheme) option" where
  "read_cstr_loop s root uaddr out i 0 acc = do { s \<leftarrow> kfree s out; Some (0, [], s) }"
| "read_cstr_loop s root uaddr out i (Suc n) acc =
     (let phys = paging_translate (mach s) root (uaddr + of_nat i)
      in if phys = 0 then do { s \<leftarrow> kfree s out; Some (0, [], s) }
         else let c = phys_mem (mach s) phys; s = upd_mem s (\<lambda>m. m(out + of_nat i := c))
              in if c = 0 then Some (out, acc, s)
                 else read_cstr_loop s root uaddr out (Suc i) n (acc @ [c]))"

text \<open>The result is the pointer to the copy, 0 on failure, and the string it holds.\<close>

definition read_user_cstr :: "'a kstate_scheme \<Rightarrow> u64 \<Rightarrow> u64 \<Rightarrow> (u64 \<times> cstring \<times> 'a kstate_scheme) option" where
  "read_user_cstr s root uaddr = do {
     (out, s) \<leftarrow> kmalloc s 256 1;
     if out = 0 then Some (0, [], s) else read_cstr_loop s root uaddr out 0 255 []
   }"

definition padded_len :: "cstring \<Rightarrow> u64" where
  "padded_len s = (of_nat (length s) + 1 + 7) AND NOT 0x7"

text \<open>The strings of one array, from the top of the stack downwards, with their addresses.\<close>

fun push_strings :: "machine \<Rightarrow> u64 \<Rightarrow> u64 \<Rightarrow> cstring list \<Rightarrow> (u64 \<times> u64 list) option \<times> machine" where
  "push_strings m root str_cur [] = (Some (str_cur, []), m)"
| "push_strings m root str_cur (s # rest) =
     (let str_cur = (str_cur - (of_nat (length s) + 1)) AND NOT 0x7;
          phys = paging_translate m root str_cur
      in if phys = 0 then (None, m)
         else case push_strings (m\<lparr>phys_mem := poke phys (s @ [0]) (phys_mem m)\<rparr>) root str_cur rest of
                (None, m) \<Rightarrow> (None, m)
              | (Some (sp, addrs), m) \<Rightarrow> (Some (sp, str_cur # addrs), m))"

text \<open>One slot of the stack; the whole build fails when it is not mapped.\<close>

definition put_slot :: "u64 \<Rightarrow> u64 \<Rightarrow> u64 \<Rightarrow> machine \<Rightarrow> bool \<times> machine" where
  "put_slot root va v m =
     (let phys = paging_translate m root va
      in if phys = 0 then (False, m) else (True, m\<lparr>phys_mem := wr64 (phys_mem m) phys v\<rparr>))"

definition put_aux :: "u64 \<Rightarrow> u64 \<Rightarrow> machine \<Rightarrow> bool \<times> machine" where
  "put_aux root va m =
     (if paging_translate m root va = 0 then (False, m) else (True, put_user_pair root va m))"

definition put_array :: "u64 \<Rightarrow> u64 \<Rightarrow> u64 list \<Rightarrow> machine \<Rightarrow> bool \<times> machine" where
  "put_array root sp addrs = for_ok (\<lambda>i. put_slot root (sp + of_nat i * 8) (addrs ! i)) [0..<length addrs]"

text \<open>The slots below the strings: auxiliary vector, environment, arguments and count.\<close>

definition stack_slots :: "u64 \<Rightarrow> u64 \<Rightarrow> u64 list \<Rightarrow> u64 list \<Rightarrow> (machine \<Rightarrow> bool \<times> machine) list" where
  "stack_slots root str_cur env_addr arg_addr =
     (let sp1 = str_cur - 16; sp2 = sp1 - 8; sp3 = sp2 - 8 * of_nat (length env_addr);
          sp4 = sp3 - 8; sp5 = sp4 - 8 * of_nat (length arg_addr); sp6 = sp5 - 8
      in [put_aux root sp1, put_slot root sp2 0, put_array root sp3 env_addr, put_slot root sp4 0,
          put_array root sp5 arg_addr, put_slot root sp6 (of_nat (length arg_addr))])"

text \<open>The local arrays hold 128 addresses each; more strings overrun them.\<close>

definition build_exec_stack :: "machine \<Rightarrow> u64 \<Rightarrow> cstring list \<Rightarrow> cstring list \<Rightarrow> (u64 \<times> machine) option" where
  "build_exec_stack m root argv envp =
     (if length argv > 128 \<or> length envp > 128 then None
      else let str_bytes = sum_list (map padded_len envp) + sum_list (map padded_len argv);
               full = str_bytes + 8 * of_nat (5 + length argv + length envp);
               pad = (if full AND 0xF \<noteq> 0 then 8 else 0)
           in Some (case push_strings m root (PROCESS_USER_STACK_TOP - pad) envp of
                (None, m) \<Rightarrow> (0, m)
              | (Some (str_cur, env_addr), m) \<Rightarrow>
                  (case push_strings m root str_cur argv of
                     (None, m) \<Rightarrow> (0, m)
                   | (Some (str_cur, arg_addr), m) \<Rightarrow>
                       (case for_ok (\<lambda>slot. slot) (stack_slots root str_cur env_addr arg_addr) m of
                          (ok, m) \<Rightarrow>
                            (if ok then str_cur - 8 * of_nat (5 + length argv + length envp) else 0, m)))))"

definition user_ptrs :: "machine \<Rightarrow> u64 \<Rightarrow> u64 \<Rightarrow> u64 list option" where
  "user_ptrs m root va = (if va = 0 then Some [] else user_array m root va)"

text \<open>
  The array pointers are counted at the start; the strings are read when the new stack is built, while the
  old address space is still active.
\<close>

definition process_execve :: "'a kstate_scheme \<Rightarrow> u64 \<Rightarrow> cstring \<Rightarrow> u64 \<Rightarrow> u64 \<Rightarrow> (bool \<times> 'a kstate_scheme) option" where
  "process_execve s p path argv envp = do {
     argp \<leftarrow> user_ptrs (mach s) (cr3 (procs s p)) argv;
     envq \<leftarrow> user_ptrs (mach s) (cr3 (procs s p)) envp;
     (r, s) \<leftarrow> read_image s path;
     case r of
       None \<Rightarrow> Some (False, s)
     | Some (buf, sz, segs, entry, pie) \<Rightarrow>
         (case paging_new_address_space (mach s) of (root, m) \<Rightarrow>
            if root = 0 then do { s \<leftarrow> kfree (s\<lparr>mach := m\<rparr>) buf; Some (False, s) }
            else let base = (if pie then pie_base (procs s p) else 0)
              in do {
                (ok, m) \<leftarrow> map_image m root buf sz segs base;
                if \<not> ok then do {
                  s \<leftarrow> kfree (s\<lparr>mach := paging_free_address_space m root\<rparr>) buf;
                  Some (False, s)
                } else do {
                  s \<leftarrow> kfree (s\<lparr>mach := m\<rparr>) buf;
                  args \<leftarrow> those (map (user_str (mach s) (cr3 (procs s p))) argp);
                  env \<leftarrow> those (map (user_str (mach s) (cr3 (procs s p))) envq);
                  (rsp, m) \<leftarrow> build_exec_stack (mach s) root args env;
                  if rsp = 0 then Some (False, s\<lparr>mach := paging_free_address_space m root\<rparr>)
                  else Some (True, upd_proc (s\<lparr>mach := paging_free_address_space m (cr3 (procs s p))\<rparr>) p
                    (\<lambda>q. q\<lparr>cr3 := root, mmap_cursor := PROCESS_MMAP_START, fs_base := 0, terminate := False,
                       ctx := (ctx q)\<lparr>rip := base + entry, user_rsp := rsp, rflags := 0x202\<rparr>\<rparr>))
                }
              })
   }"

section \<open>Fork and children\<close>

definition process_link_child :: "'a kstate_scheme \<Rightarrow> u64 \<Rightarrow> u64 \<Rightarrow> 'a kstate_scheme" where
  "process_link_child s par child =
     (let s = upd_proc s child (\<lambda>c. c\<lparr>pparent := par\<rparr>);
          s = upd_proc s child (\<lambda>c. c\<lparr>next_sibling := children (procs s par)\<rparr>)
      in upd_proc s par (\<lambda>q. q\<lparr>children := child\<rparr>))"

definition fork_ctx :: "syscall_regs \<Rightarrow> u64 \<Rightarrow> registers" where
  "fork_ctx r ursp = \<lparr>rax = 0, rbx = srbx r, rcx = srcx r, rdx = srdx r, rsi = srsi r, rdi = srdi r, rbp = srbp r,
     r8 = sr8 r, r9 = sr9 r, r10 = sr10 r, r11 = sr11 r, r12 = sr12 r, r13 = sr13 r, r14 = sr14 r, r15 = sr15 r,
     int_no = 0, err_code = 0, rip = srcx r, rcs = 0x23, rflags = sr11 r, user_rsp = ursp, rss = 0x1B\<rparr>"

text \<open>What remains once the child and its copy of the address space exist.\<close>

definition fork_finish :: "'a kstate_scheme \<Rightarrow> u64 \<Rightarrow> u64 \<Rightarrow> u64 \<Rightarrow> syscall_regs \<Rightarrow> 'a kstate_scheme" where
  "fork_finish s par child ursp regs =
     (let q = procs s par;
          s = upd_proc s child (\<lambda>c. c\<lparr>files := files q, mmap_cursor := mmap_cursor q,
                fs_base := fs_base q, vt := vt q, ctx := fork_ctx regs ursp\<rparr>)
      in process_link_child s par child)"

definition process_fork :: "'a kstate_scheme \<Rightarrow> nat \<Rightarrow> syscall_regs \<Rightarrow> (u64 \<times> 'a kstate_scheme) option" where
  "process_fork s cpu regs =
     (let par = process_current s cpu
      in if par = 0 then Some (0, s)
         else do {
           (child, s) \<leftarrow> process_create s (Some (pname (procs s par)));
           if child = 0 then Some (0, s)
           else case paging_clone_user_space (mach s) (cr3 (procs s par)) (cr3 (procs s child)) of (ok, m) \<Rightarrow>
             let s = s\<lparr>mach := m\<rparr>
             in if \<not> ok then do { s \<leftarrow> process_destroy s child; Some (0, s) }
                else Some (child, fork_finish s par child (cpu_user_rsp (percpus s cpu)) regs)
         })"

partial_function (option) find_zombie :: "(u64 \<Rightarrow> process) \<Rightarrow> u64 \<Rightarrow> u64 \<Rightarrow> u64 option" where
  "find_zombie ps c n =
     (if c = 0 then Some 0
      else if state (ps c) = PROC_ZOMBIE \<and> (n = 0 \<or> pid (ps c) = n) then Some c
      else find_zombie ps (next_sibling (ps c)) n)"

declare find_zombie.simps [code]

definition process_find_zombie_child :: "'a kstate_scheme \<Rightarrow> u64 \<Rightarrow> u64 \<Rightarrow> u64 option" where
  "process_find_zombie_child s par n =
     find_zombie (procs s) (if par \<noteq> 0 then children (procs s par) else 0) n"

text \<open>The walk of the pointer to the link: the sibling whose link holds \<open>child\<close>, starting behind \<open>q\<close>.\<close>

partial_function (option) unlink_sibling :: "(u64 \<Rightarrow> process) \<Rightarrow> u64 \<Rightarrow> u64 \<Rightarrow> (u64 \<Rightarrow> process) option" where
  "unlink_sibling ps q child =
     (let c = next_sibling (ps q)
      in if c = 0 then Some ps
         else if c = child then Some (ps(q := (ps q)\<lparr>next_sibling := next_sibling (ps child)\<rparr>))
         else unlink_sibling ps c child)"

declare unlink_sibling.simps [code]

definition unlink_child :: "(u64 \<Rightarrow> process) \<Rightarrow> u64 \<Rightarrow> u64 \<Rightarrow> (u64 \<Rightarrow> process) option" where
  "unlink_child ps par child =
     (let c = children (ps par)
      in if c = 0 then Some ps
         else if c = child then Some (ps(par := (ps par)\<lparr>children := next_sibling (ps child)\<rparr>))
         else unlink_sibling ps c child)"

definition process_reap_child :: "'a kstate_scheme \<Rightarrow> u64 \<Rightarrow> u64 \<Rightarrow> 'a kstate_scheme option" where
  "process_reap_child s par child =
     (if par = 0 \<or> child = 0 then Some s
      else do {
        ps \<leftarrow> unlink_child (procs s) par child;
        process_destroy (s\<lparr>procs := ps\<rparr>) child
      })"

section \<open>The initial stack of an exec\<close>

lemma take_bit_3_cases: "take_bit 3 x \<in> {0, 1, 2, 3, 4, 5, 6, 7}" for x :: u64
proof -
  have "unat (take_bit 3 x) < 8" 
    using take_bit_nat_less_exp [of 3 "unat x"] by (simp add: unsigned_take_bit_eq)
  then have "unat (take_bit 3 x) \<in> {0, 1, 2, 3, 4, 5, 6, 7}" by auto
  then show ?thesis by (auto simp: word_unat_eq_iff)
qed

lemma and_not_7: "y AND NOT 7 = y - take_bit 3 y" for y :: u64
proof -
  have "y = (y AND NOT (mask 3)) + (y AND mask 3)"
    by (subst disjunctive_add) (auto simp: bit_simps intro: bit_word_eqI)
  then show ?thesis by (simp add: take_bit_eq_mask mask_eq_exp_minus_1 eq_diff_eq)
qed

lemma word_take_bit_add: "n \<le> 64 \<Longrightarrow> take_bit n (a + b) = take_bit n (take_bit n a + take_bit n b)" for a b :: u64
proof -
  assume "n \<le> 64"
  then have d: "(2 :: nat) ^ n dvd 2 ^ 64" by (rule le_imp_power_dvd)
  have u: "unat (x + y) mod 2 ^ n = (unat x + unat y) mod 2 ^ n" for x y :: u64
    using mod_mod_cancel [OF d] by (simp add: unat_word_ariths)
  have t: "unat (take_bit n x) = unat x mod 2 ^ n" for x :: u64
    unfolding unsigned_take_bit_eq by (simp add: take_bit_eq_mod)
  show ?thesis unfolding word_unat_eq_iff t u by (simp add: mod_simps)
qed

lemma residues:
  fixes a b :: u64
  assumes "a \<in> {0, 1, 2, 3, 4, 5, 6, 7}" "b \<in> {0, 1, 2, 3, 4, 5, 6, 7}"
  shows "take_bit 3 (a + b) = 0 \<Longrightarrow> a + b = (if b = 0 then 0 else 8)"
    "take_bit 3 (b + 7) = (if b = 0 then 7 else b - 1)"
  using assms by (elim insertE emptyE; simp add: take_bit_eq_mod)+

lemma align_down_up: "take_bit 3 c = 0 \<Longrightarrow> (c - x) AND NOT 7 = c - ((x + 7) AND NOT 7)" for c x :: u64
proof -
  assume c: "take_bit 3 c = 0"
  have "take_bit 3 (take_bit 3 (c - x) + take_bit 3 x) = 0" using word_take_bit_add [of 3 "c - x" x] c by simp
  then have s: "take_bit 3 (c - x) + take_bit 3 x = (if take_bit 3 x = 0 then 0 else 8)"
    by (rule residues(1) [OF take_bit_3_cases take_bit_3_cases])
  have "take_bit 3 (x + 7) = take_bit 3 (take_bit 3 x + 7)" using word_take_bit_add [of 3 x 7] by simp
  then have "take_bit 3 (x + 7) = (if take_bit 3 x = 0 then 7 else take_bit 3 x - 1)"
    using residues(2) [OF take_bit_3_cases [of x] take_bit_3_cases [of x]] by simp
  then show ?thesis unfolding and_not_7 using s by (auto simp: algebra_simps split: if_splits)
qed

lemma padded_step: "take_bit 3 c = 0 \<Longrightarrow> (c - (of_nat (length s) + 1)) AND NOT 0x7 = c - padded_len s"
  using align_down_up [of c "of_nat (length s) + 1"] by (simp add: padded_len_def add.assoc)

lemma padded_aligned: "take_bit 3 (padded_len s) = 0" "take_bit 3 c = 0 \<Longrightarrow> take_bit 3 (c - padded_len s) = 0"
proof -
  have z: "take_bit 3 (y AND NOT 7) = 0" for y :: u64
    by (rule bit_word_eqI) (auto simp: bit_simps mask_lits(2))
  then show "take_bit 3 (padded_len s) = 0" by (simp add: padded_len_def)
  show "take_bit 3 (c - padded_len s) = 0" if "take_bit 3 c = 0" using padded_step [OF that, of s] z by metis
qed

lemma push_strings_sp:
  "push_strings m root c ss = (Some (sp, as), m') \<Longrightarrow> take_bit 3 c = 0 \<Longrightarrow>
   sp = c - sum_list (map padded_len ss) \<and> take_bit 3 sp = 0 \<and> length as = length ss"
proof (induction m root c ss arbitrary: sp as m' rule: push_strings.induct)
  case (2 m root c s rest)
  let ?c = "c - padded_len s"
  let ?p = "paging_translate m root ?c"
  have p: "(c - (of_nat (length s) + 1)) AND NOT 0x7 = ?c" using padded_step 2 by blast
  note e = 2(2) [unfolded push_strings.simps(2) p Let_def]
  have nz: "?p \<noteq> 0" using e by auto
  obtain sp' as' where r: "push_strings (m\<lparr>phys_mem := poke ?p (s @ [0]) (phys_mem m)\<rparr>) root ?c rest = (Some (sp', as'), m')"
    "sp = sp'" "as = ?c # as'"
    using e nz by (auto split: option.splits prod.splits)
  show ?case using 2(1) [unfolded p, OF refl refl nz r(1) padded_aligned(2) [OF 2(3)]] r(2,3) by (auto simp: diff_diff_eq)
qed auto

definition stack_bytes :: "cstring list \<Rightarrow> cstring list \<Rightarrow> u64" where
  "stack_bytes argv envp = sum_list (map padded_len envp) + sum_list (map padded_len argv) +
     8 * of_nat (5 + length argv + length envp)"

lemma stack_bytes_aligned: "take_bit 3 (stack_bytes argv envp) = 0"
proof -
  have add: "take_bit 3 (a + b) = 0" if "take_bit 3 a = 0" "take_bit 3 b = 0" for a b :: u64
    using that word_take_bit_add [of 3 a b] by simp
  have s: "take_bit 3 (sum_list (map padded_len xs)) = 0" for xs
    by (induction xs) (auto intro: add padded_aligned)
  have "take_bit 3 (8 * x) = 0" for x :: u64
  proof -
    have "8 * x = push_bit 3 x" by (simp add: push_bit_eq_mult mult.commute)
    moreover have "take_bit 3 (push_bit 3 x) = 0" by (rule bit_word_eqI) (simp add: bit_simps)
    ultimately show ?thesis by simp
  qed
  then show ?thesis unfolding stack_bytes_def by (intro add s) blast
qed

lemma nibble: "take_bit 3 n = 0 \<Longrightarrow> take_bit 4 ((if n AND 0xF \<noteq> 0 then 8 else 0) + n) = 0" for n :: u64
proof -
  assume a: "take_bit 3 n = 0"
  have e: "n AND 0xF = take_bit 4 n" by (simp add: take_bit_eq_mask mask_eq_exp_minus_1)
  have "take_bit 4 n = (if bit n 3 then 8 else 0)"
  proof (rule bit_word_eqI)
    fix k
    have "\<not> bit n k" if "k < 3" using a that by (metis bit_take_bit_iff bit_0_eq bot_apply bot_bool_def)
    moreover have "bit (8 :: u64) k \<longleftrightarrow> k = 3" using bit_exp_iff [of 3 k, where 'a = u64] by auto
    ultimately show "bit (take_bit 4 n) k = bit (if bit n 3 then 8 else 0 :: u64) k"
      by (cases "k < 3"; cases "k = 3") (auto simp: bit_take_bit_iff)
  qed
  then show ?thesis unfolding e using word_take_bit_add [of 4 _ n] by (auto simp: take_bit_eq_mod)
qed

lemma nibble_sub: "take_bit 4 a = 0 \<Longrightarrow> take_bit 4 b = 0 \<Longrightarrow> take_bit 4 (a - b) = 0" for a b :: u64
  using word_take_bit_add [of 4 "a - b" b] by simp

text \<open>
  C24: the stack that an exec builds starts on a 16-byte boundary, as the C library of the user programs
  requires, and below the top of the user stack it takes exactly the padded strings and the pointer slots.
\<close>

theorem exec_stack_aligned:
  assumes "build_exec_stack m root argv envp = Some (rsp, m')" "rsp \<noteq> 0"
  shows "rsp AND 0xF = 0 \<and>
    rsp = PROCESS_USER_STACK_TOP - (if stack_bytes argv envp AND 0xF \<noteq> 0 then 8 else 0) - stack_bytes argv envp"
proof -
  let ?n = "stack_bytes argv envp"
  define pad :: u64 where "pad = (if ?n AND 0xF \<noteq> 0 then 8 else 0)"
  have pad3: "take_bit 3 (PROCESS_USER_STACK_TOP - pad) = 0" by (simp add: pad_def const_defs take_bit_eq_mod)
  obtain c1 e m1 where 1: "push_strings m root (PROCESS_USER_STACK_TOP - pad) envp = (Some (c1, e), m1)"
    using assms by (auto simp: build_exec_stack_def Let_def pad_def stack_bytes_def split: if_splits option.splits prod.splits)
  note s1 = push_strings_sp [OF 1 pad3]
  obtain c2 a m2 where 2: "push_strings m1 root c1 argv = (Some (c2, a), m2)"
    using assms 1 by (auto simp: build_exec_stack_def Let_def pad_def stack_bytes_def split: if_splits option.splits prod.splits)
  note s2 = push_strings_sp [OF 2 s1 [THEN conjunct2, THEN conjunct1]]
  have "rsp = c2 - 8 * of_nat (5 + length argv + length envp)"
    using assms 1 2 by (auto simp: build_exec_stack_def Let_def pad_def stack_bytes_def split: if_splits prod.splits)
  then have r: "rsp = PROCESS_USER_STACK_TOP - pad - ?n" using s1 s2 by (simp add: stack_bytes_def)
  have "take_bit 4 (pad + ?n) = 0"
    using stack_bytes_aligned [of argv envp] nibble [of ?n] unfolding pad_def by blast
  then have "take_bit 4 rsp = 0" using nibble_sub [of "PROCESS_USER_STACK_TOP" "pad + ?n"] r by (simp add: const_defs take_bit_eq_mod diff_diff_eq)
  then have "rsp AND 0xF = 0" by (simp add: take_bit_eq_mask mask_eq_exp_minus_1)
  then show ?thesis using r by (simp add: pad_def)
qed

definition stack_machine :: machine where
  "stack_machine = \<lparr>phys_mem = wr64 (wr64 (wr64 (wr64 (\<lambda>_. 0) 0xA000 0xB007) 0xB7F8 0xC007) 0xCFF8 0xD007) 0xDFF8 0xE007,
     frames = pmm_six, kernel_cr3 = 0x9000, g_lapic_base = 0\<rparr>"

definition stack_tables :: "mem \<Rightarrow> bool" where
  "stack_tables m \<longleftrightarrow> rd64 m 0xA000 = 0xB007 \<and> rd64 m 0xB7F8 = 0xC007 \<and> rd64 m 0xCFF8 = 0xD007 \<and> rd64 m 0xDFF8 = 0xE007"

lemma stack_tables_machine: "stack_tables (phys_mem stack_machine)"
  by (simp add: stack_tables_def stack_machine_def mem_simps cells_apart_def)

lemma stack_tables_translate:
  assumes "stack_tables (phys_mem m)" "va AND NOT 0xFFF = 0x3FFFFFF000"
  shows "paging_translate m 0xA000 va = 0xE000 + (va AND 0xFFF)"
proof -
  have v: "va = 0x3FFFFFF000 OR (va AND 0xFFF)" unfolding assms(2) [symmetric]
    by (rule bit_word_eqI) (auto simp: bit_simps)
  have d: "drop_bit n va = drop_bit n 0x3FFFFFF000" if "12 \<le> n" for n
    using that by (subst v, intro bit_word_eqI) (auto simp: bit_simps mask_lits(1))
  have "PML4_IDX va = 0" "PDPT_IDX va = 255" "PD_IDX va = 511" "PT_IDX va = 511"
    by (simp_all add: PML4_IDX_def PDPT_IDX_def PD_IDX_def PT_IDX_def d)
  then show ?thesis using assms(1) by (simp add: paging_translate_def tbl_get_def stack_tables_def tbl_addr_def const_defs)
qed

lemma stack_tables_wr64:
  "stack_tables m \<Longrightarrow> \<forall>b \<in> {0xA000, 0xB7F8, 0xCFF8, 0xDFF8}. cells_apart a b \<Longrightarrow> stack_tables (wr64 m a v)"
  by (simp add: stack_tables_def rd64_wr64_other)

lemma poke_other: "length bs \<le> unat (x - a) \<Longrightarrow> poke a bs m x = m x"
  by (simp add: poke_def)

lemma stack_tables_poke: "stack_tables m \<Longrightarrow> stack_tables (poke 0xEFF0 [115, 104, 0] m)"
  by (simp add: stack_tables_def rd64_def poke_other)

theorem exec_stack_aligned_witness:
  "\<exists>rsp m'. build_exec_stack stack_machine 0xA000 [str ''sh''] [] = Some (rsp, m') \<and> rsp \<noteq> 0 \<and> rsp AND 0xF = 0"
proof -
  have s: "str ''sh'' = [115, 104]" by code_simp
  have "\<exists>rsp m'. build_exec_stack stack_machine 0xA000 [[115, 104]] [] = Some (rsp, m') \<and> rsp \<noteq> 0"
    using stack_tables_machine
    by (simp add: build_exec_stack_def stack_slots_def padded_len_def put_aux_def put_user_pair_def put_slot_def
        put_array_def Let_def const_defs stack_tables_translate stack_tables_poke stack_tables_wr64 cells_apart_def)
  then obtain rsp m' where r: "build_exec_stack stack_machine 0xA000 [[115, 104]] [] = Some (rsp, m')" "rsp \<noteq> 0" by blast
  then show ?thesis using exec_stack_aligned [OF r] unfolding s by blast
qed

text \<open>Where relocation \<open>i\<close> of the file at \<open>buf\<close> lies in memory.\<close>

definition rela_addr :: "u64 \<Rightarrow> elf_dynamic \<Rightarrow> nat \<Rightarrow> u64" where
  "rela_addr buf dyn i = buf + (rela_offset dyn + of_nat i * rela_ent dyn)"

lemma ucast_push_byte: "n \<le> 24 \<Longrightarrow> ucast (push_bit n (ucast (b :: u8)) :: u32) = push_bit n (ucast b :: u64)"
  by (intro bit_word_eqI) (auto simp: bit_simps dest: bit_imp_le_length)

lemma k_le64_bytes: "k_le64 p = ucast (p 0) OR push_bit 8 (ucast (p 1)) OR push_bit 16 (ucast (p 2)) OR
    push_bit 24 (ucast (p 3)) OR push_bit 32 (ucast (p 4)) OR push_bit 40 (ucast (p 5)) OR
    push_bit 48 (ucast (p 6)) OR push_bit 56 (ucast (p 7))"
proof -
  have "ucast (ucast (b :: u8) :: u32) = (ucast b :: u64)" for b
    using ucast_push_byte [of 0 b] by simp
  then show ?thesis
    unfolding k_le64_def k_le32_def
    by (simp only: unsigned_or_eq ucast_push_byte push_bit_or push_bit_push_bit)
      (simp add: ac_simps)
qed

lemma ld64_mem: "ld64 (mem_img m a) off = Some (rd64 m (a + off))"
  by (simp add: ld64_def mem_img_def eval_nat_numeral k_le64_bytes rd64_def algebra_simps)

lemma ld_rela_mem: "ld_rela (mem_img m buf) (rela_offset dyn + of_nat i * rela_ent dyn) =
    (let a = rela_addr buf dyn i in Some \<lparr>r_offset = rd64 m a, r_info = rd64 m (a + 8), r_addend = rd64 m (a + 16)\<rparr>)"
  by (simp add: ld_rela_def ld64_mem rela_addr_def Let_def add.assoc)

text \<open>
  The stores of the relocations leave the table of relocations and the page table entries that translate
  their targets alone.
\<close>

definition reloc_apart :: "mem \<Rightarrow> u64 \<Rightarrow> u64 \<Rightarrow> elf_dynamic \<Rightarrow> (nat \<Rightarrow> u64) \<Rightarrow> (nat \<Rightarrow> u64) \<Rightarrow> nat \<Rightarrow> bool" where
  "reloc_apart m root buf dyn va ps n \<longleftrightarrow> (\<forall>i < n. \<forall>j < n.
     (\<forall>d \<in> {0, 8, 16}. cells_apart (ps i) (rela_addr buf dyn j + d)) \<and>
     (\<forall>k < 4. \<forall>b. node m root (va j) k = Some b \<longrightarrow> cells_apart (ps i) (b + 8 * idx k (va j))))"

abbreviation "stores ps vs ks \<equiv> fold (\<lambda>i mem. wr64 mem (ps i) (vs i)) ks"

lemma rd64_stores: "\<forall>i \<in> set ks. cells_apart (ps i) a \<Longrightarrow> rd64 (stores ps vs ks m) a = rd64 m a"
  by (induction ks arbitrary: m) (simp_all add: rd64_wr64_other)

lemma reloc_loop_stores:
  assumes rel: "\<forall>i < n. rd64 (phys_mem m) (rela_addr buf dyn i) + base = va i \<and>
      rd64 (phys_mem m) (rela_addr buf dyn i + 8) AND 0xFFFFFFFF = 8 \<and>
      base + rd64 (phys_mem m) (rela_addr buf dyn i + 16) = vs i"
    and mapped: "\<forall>i < n. ps i \<noteq> 0 \<and> pview (phys_mem m) root (va i) = Some (ps i, us i)"
    and apart: "reloc_apart (phys_mem m) root buf dyn va ps n"
  shows "i + k = n \<Longrightarrow> reloc_loop (m\<lparr>phys_mem := stores ps vs [0..<i] (phys_mem m)\<rparr>) root buf sz dyn base i k =
    Some (True, m\<lparr>phys_mem := stores ps vs [0..<n] (phys_mem m)\<rparr>)"
proof (induction k arbitrary: i)
  case (Suc k)
  let ?mem = "stores ps vs [0..<i] (phys_mem m)"
  have i: "i < n" using Suc.prems by simp
  have cell: "rd64 ?mem (rela_addr buf dyn i + d) = rd64 (phys_mem m) (rela_addr buf dyn i + d)" if "d \<in> {0, 8, 16}" for d
    using that apart i unfolding reloc_apart_def by (intro rd64_stores) auto
  have view: "pview ?mem root (va i) = Some (ps i, us i)"
  proof -
    have "pview ?mem root (va i) = pview (phys_mem m) root (va i)"
      using apart i unfolding reloc_apart_def by (intro pview_cong) (auto simp: ent_def intro!: rd64_stores)
    then show ?thesis using mapped i by simp
  qed
  have tr: "paging_translate (m\<lparr>phys_mem := ?mem\<rparr>) root (va i) = ps i" "ps i \<noteq> 0"
    using view mapped i by (simp_all add: translate_pview)
  have c: "rd64 ?mem (rela_addr buf dyn i) = va i - base" "rd64 ?mem (rela_addr buf dyn i + 8) AND 0xFFFFFFFF = 8"
    "base + rd64 ?mem (rela_addr buf dyn i + 16) = vs i"
    using cell [of 0] cell [of 8] cell [of 16] rel i by (auto simp: algebra_simps)
  have "reloc_loop (m\<lparr>phys_mem := ?mem\<rparr>) root buf sz dyn base i (Suc k) =
      reloc_loop (m\<lparr>phys_mem := stores ps vs [0..<Suc i] (phys_mem m)\<rparr>) root buf sz dyn base (Suc i) k"
    using c tr by (simp add: ld_rela_mem reloc_value_def Let_def)
  then show ?case using Suc.IH [of "Suc i"] Suc.prems by simp
qed simp

text \<open>
  A file with two relative relocations whose targets \<open>0x5000\<close> and \<open>0x5008\<close> lie in a large page that only the
  kernel may access.
\<close>

definition evil_elf :: "u8 list" where
  "evil_elf = [
     127, 69, 76, 70, 2, 1, 0, 0, 0, 0, 0, 0, 0, 0, 0, 0, 3, 0, 62, 0, 1, 0, 0, 0,
     0, 0, 0, 0, 0, 0, 0, 0, 64, 0, 0, 0, 0, 0, 0, 0, 0, 0, 0, 0, 0, 0, 0, 0,
     0, 0, 0, 0, 64, 0, 56, 0, 2, 0, 0, 0, 0, 0, 0, 0, 1, 0, 0, 0, 7, 0, 0, 0,
     0, 0, 0, 0, 0, 0, 0, 0, 0, 0, 0, 0, 0, 0, 0, 0, 0, 0, 0, 0, 0, 0, 0, 0,
     32, 1, 0, 0, 0, 0, 0, 0, 32, 1, 0, 0, 0, 0, 0, 0, 0, 0, 0, 0, 0, 0, 0, 0,
     2, 0, 0, 0, 7, 0, 0, 0, 176, 0, 0, 0, 0, 0, 0, 0, 0, 0, 0, 0, 0, 0, 0, 0,
     0, 0, 0, 0, 0, 0, 0, 0, 64, 0, 0, 0, 0, 0, 0, 0, 64, 0, 0, 0, 0, 0, 0, 0,
     0, 0, 0, 0, 0, 0, 0, 0, 7, 0, 0, 0, 0, 0, 0, 0, 240, 0, 0, 0, 0, 0, 0, 0,
     8, 0, 0, 0, 0, 0, 0, 0, 48, 0, 0, 0, 0, 0, 0, 0, 9, 0, 0, 0, 0, 0, 0, 0,
     24, 0, 0, 0, 0, 0, 0, 0, 0, 0, 0, 0, 0, 0, 0, 0, 0, 0, 0, 0, 0, 0, 0, 0,
     0, 80, 0, 0, 0, 0, 0, 0, 8, 0, 0, 0, 0, 0, 0, 0, 173, 222, 0, 0, 0, 0, 0, 0,
     8, 80, 0, 0, 0, 0, 0, 0, 8, 0, 0, 0, 0, 0, 0, 0, 239, 190, 0, 0, 0, 0, 0, 0]"

definition evil_mem :: mem where
  "evil_mem = poke 0x20000 evil_elf (wr64 (wr64 (wr64 (\<lambda>_. 0) 0xA000 0xB007) 0xB000 0xC003) 0xC000 0x83)"

lemma rd64_poke:
  "\<forall>k \<in> {0, 1, 2, 3, 4, 5, 6, 7}. length bs \<le> unat (x + k - a) \<Longrightarrow> rd64 (poke a bs m) x = rd64 m x"
  by (simp add: rd64_def poke_other)

definition evil_machine :: machine where
  "evil_machine = \<lparr>phys_mem = evil_mem, frames = pmm_six, kernel_cr3 = 0x9000, g_lapic_base = 0\<rparr>"

text \<open>
  C25: every relocation of a file that has only relative ones is written at the address to which the page
  tables of the new process translate its target, in the order of the table and for any number of
  relocations, whether or not user mode may access the page: a target that is mapped for the kernel only is
  stored like any other, so a file can overwrite kernel memory. The stores must not hit the table of
  relocations itself nor the page table entries that translate the targets.
\<close>

theorem relocation_writes_supervisor_page:
  assumes "elf64_parse_dynamic (mem_img (phys_mem m) buf) sz = Some (True, dyn)" "present dyn" "24 \<le> rela_ent dyn"
    and "n = unat (rela_size dyn div rela_ent dyn)"
    and "\<forall>i < n. ld_rela (mem_img (phys_mem m) buf) (rela_offset dyn + of_nat i * rela_ent dyn) = Some (rs i) \<and>
      r_info (rs i) AND 0xFFFFFFFF = 8"
    and "\<forall>i < n. ps i \<noteq> 0 \<and> pview (phys_mem m) root (base + r_offset (rs i)) = Some (ps i, us i)"
    and "reloc_apart (phys_mem m) root buf dyn (\<lambda>i. base + r_offset (rs i)) ps n"
  shows "apply_relocations m root buf sz base =
    Some (True, m\<lparr>phys_mem := fold (\<lambda>i mem. wr64 mem (ps i) (base + r_addend (rs i))) [0..<n] (phys_mem m)\<rparr>)"
proof -
  have rel: "\<forall>i < n. rd64 (phys_mem m) (rela_addr buf dyn i) + base = base + r_offset (rs i) \<and>
      rd64 (phys_mem m) (rela_addr buf dyn i + 8) AND 0xFFFFFFFF = 8 \<and>
      base + rd64 (phys_mem m) (rela_addr buf dyn i + 16) = base + r_addend (rs i)"
  proof (intro allI impI)
    fix i assume "i < n"
    then have "ld_rela (mem_img (phys_mem m) buf) (rela_offset dyn + of_nat i * rela_ent dyn) = Some (rs i)"
      "r_info (rs i) AND 0xFFFFFFFF = 8" using assms(5) by auto
    then show "rd64 (phys_mem m) (rela_addr buf dyn i) + base = base + r_offset (rs i) \<and>
      rd64 (phys_mem m) (rela_addr buf dyn i + 8) AND 0xFFFFFFFF = 8 \<and>
      base + rd64 (phys_mem m) (rela_addr buf dyn i + 16) = base + r_addend (rs i)"
      by (cases "rs i") (auto simp: ld_rela_mem Let_def add.commute)
  qed
  from reloc_loop_stores [OF rel assms(6,7), of 0 n sz] show ?thesis
    using assms(1-4) by (simp add: apply_relocations_def not_less)
qed

lemma evil_entries: "rd64 evil_mem 0xA000 = 0xB007" "rd64 evil_mem 0xB000 = 0xC003" "rd64 evil_mem 0xC000 = 0x83"
proof -
  have "length evil_elf = 288" by (simp add: evil_elf_def)
  then show "rd64 evil_mem 0xA000 = 0xB007" "rd64 evil_mem 0xB000 = 0xC003" "rd64 evil_mem 0xC000 = 0x83"
    by (simp_all add: evil_mem_def rd64_poke mem_simps cells_apart_def)
qed

text \<open>The addresses below 2 MiB are mapped by one large page without the user bit.\<close>

lemma evil_walk:
  assumes "v < 0x200000"
  shows "node evil_mem 0xA000 v 1 = Some 0xB000" "node evil_mem 0xA000 v 2 = Some 0xC000" "node evil_mem 0xA000 v 3 = None"
    "pview evil_mem 0xA000 v = Some (v, False)"
proof -
  have "unat v < 2 ^ 21" using assms by (simp add: word_less_nat_alt)
  then have t: "take_bit 21 v = v" by (simp add: word_unat_eq_iff unsigned_take_bit_eq take_bit_nat_eq_self)
  then have off: "v AND 0x1FFFFF = v" by (simp add: take_bit_eq_mask mask_eq_exp_minus_1)
  have "drop_bit n v = 0" if "21 \<le> n" for n
    using that by (subst t [symmetric], intro bit_word_eqI) (auto simp: bit_simps)
  then have z: "idx k v = 0" if "k < 3" for k using that by (simp add: idx_def)
  show n1: "node evil_mem 0xA000 v 1 = Some 0xB000"
    unfolding node_12(1) using z [of 0] by (simp add: ent_def tbl_addr_def evil_entries)
  then show n2: "node evil_mem 0xA000 v 2 = Some 0xC000"
    unfolding node_12(2) using z [of 1] by (simp add: ent_def tbl_addr_def evil_entries)
  then show "node evil_mem 0xA000 v 3 = None"
    using z [of 2] by (simp add: node_3 ent_def evil_entries)
  have "\<not> upath evil_mem 0xA000 v (Suc 1)"
    unfolding upath.simps(2) n1 using z [of 1] by (simp add: ent_def evil_entries)
  then have "\<not> upath evil_mem 0xA000 v 3" using upath_mono [of evil_mem "0xA000" v 3 "Suc 1"]
    by (auto simp del: upath.simps node.simps)
  then show "pview evil_mem 0xA000 v = Some (v, False)"
    using n2 z [of 2] off by (simp add: pview_def ent_def evil_entries)
qed

theorem relocation_writes_supervisor_page_witness:
  "pview evil_mem 0xA000 0x5000 = Some (0x5000, False) \<and> pview evil_mem 0xA000 0x5008 = Some (0x5008, False) \<and>
   apply_relocations evil_machine 0xA000 0x20000 288 0 =
     Some (True, evil_machine\<lparr>phys_mem := wr64 (wr64 evil_mem 0x5000 0xDEAD) 0x5008 0xBEEF\<rparr>)"
proof -
  let ?d = "empty_dynamic\<lparr>present := True, rela_offset := 240, rela_size := 48, rela_ent := 24\<rparr>"
  let ?r = "\<lambda>i::nat. if i = 0 then \<lparr>r_offset = 0x5000, r_info = 8, r_addend = 0xDEAD\<rparr>
    else \<lparr>r_offset = 0x5008, r_info = 8, r_addend = 0xBEEF\<rparr>"
  let ?p = "\<lambda>i::nat. if i = 0 then 0x5000 else 0x5008 :: u64"
  have d: "elf64_parse_dynamic (mem_img evil_mem 0x20000) 288 = Some (True, ?d)" by code_simp
  have r: "ld_rela (mem_img evil_mem 0x20000) 240 = Some (?r 0)" "ld_rela (mem_img evil_mem 0x20000) 264 = Some (?r 1)"
    by code_simp+
  have v: "pview evil_mem 0xA000 0x5000 = Some (0x5000, False)" "pview evil_mem 0xA000 0x5008 = Some (0x5008, False)"
    by (simp_all add: evil_walk(4))
  have two: "i < 2 \<longleftrightarrow> i = 0 \<or> i = 1" for i :: nat by auto
  have four: "k < 4 \<longleftrightarrow> k = 0 \<or> k = 1 \<or> k = 2 \<or> k = 3" for k :: nat by auto
  have "apply_relocations evil_machine 0xA000 0x20000 288 0 =
    Some (True, evil_machine\<lparr>phys_mem := fold (\<lambda>i mem. wr64 mem (?p i) (0 + r_addend (?r i))) [0..<2] (phys_mem evil_machine)\<rparr>)"
  proof (rule relocation_writes_supervisor_page [where dyn = ?d and rs = ?r and ps = ?p and us = "\<lambda>_. False"])
    show "elf64_parse_dynamic (mem_img (phys_mem evil_machine) 0x20000) 288 = Some (True, ?d)"
      using d by (simp add: evil_machine_def)
    show "\<forall>i < 2. ld_rela (mem_img (phys_mem evil_machine) 0x20000) (rela_offset ?d + of_nat i * rela_ent ?d) = Some (?r i) \<and>
      r_info (?r i) AND 0xFFFFFFFF = 8" using r by (simp add: two evil_machine_def)
    show "\<forall>i < 2. ?p i \<noteq> 0 \<and> pview (phys_mem evil_machine) 0xA000 (0 + r_offset (?r i)) = Some (?p i, False)"
      using v by (simp add: two evil_machine_def)
    show "reloc_apart (phys_mem evil_machine) 0xA000 0x20000 ?d (\<lambda>i. 0 + r_offset (?r i)) ?p 2"
      using evil_walk(1-3) [of "0x5000"] evil_walk(1-3) [of "0x5008"]
      by (simp add: reloc_apart_def two four evil_machine_def rela_addr_def cells_apart_def idx_def ent_def evil_entries tbl_addr_def)
  qed simp_all
  then show ?thesis using v by (simp add: evil_machine_def eval_nat_numeral)
qed

section \<open>Fork\<close>

text \<open>Heap calls change only the memory, the frame allocator and the heap fields.\<close>

lemma kmalloc_frame: "kmalloc s n a = Some (p, s') \<Longrightarrow> \<exists>m h u. s' = s\<lparr>mach := m, heap_hd := h, heap_used := u\<rparr>"
  by (auto simp: kmalloc_def put_heap_def bind_eq_Some_conv)

lemma kfree_frame: "kfree s p = Some s' \<Longrightarrow> \<exists>m h u. s' = s\<lparr>mach := m, heap_hd := h, heap_used := u\<rparr>"
  by (auto simp: kfree_def put_heap_def bind_eq_Some_conv)

lemma heap_frame_refl: "\<exists>m h u. s = s\<lparr>mach := m, heap_hd := h, heap_used := u\<rparr>"
  by (intro exI [of _ "mach s"] exI [of _ "heap_hd s"] exI [of _ "heap_used s"]) simp

lemma process_destroy_frame:
  assumes "process_destroy s p = Some s'"
  shows "\<exists>m h u. s' = s\<lparr>mach := m, heap_hd := h, heap_used := u\<rparr>"
proof (cases "p = 0")
  case True
  then show ?thesis using assms heap_frame_refl [of s] by (simp add: process_destroy_def)
next
  case False
  then obtain s1 where s1: "s1 = s \<or> kfree s (kernel_stack_top (procs s p) - PROCESS_KSTACK_SIZE) = Some s1"
    "kfree (s1\<lparr>mach := paging_free_address_space (mach s1) (cr3 (procs s1 p))\<rparr>) p = Some s'"
    using assms by (auto simp: process_destroy_def bind_eq_Some_conv Let_def split: if_splits)
  have "\<exists>m h u. s1 = s\<lparr>mach := m, heap_hd := h, heap_used := u\<rparr>"
    using s1(1) kfree_frame heap_frame_refl [of s] by blast
  then show ?thesis using kfree_frame [OF s1(2)] by (elim exE) (simp, blast)
qed

lemma kmalloc_fields:
  assumes "kmalloc s n a = Some (p, s')"
  shows "procs s' = procs s" "next_pid s' = next_pid s" "percpus s' = percpus s" "kvfs s' = kvfs s"
  using kmalloc_frame [OF assms] by auto

lemma upd_mem_fields [simp]:
  "procs (upd_mem s f) = procs s" "next_pid (upd_mem s f) = next_pid s" "percpus (upd_mem s f) = percpus s"
  "kvfs (upd_mem s f) = kvfs s"
  by (simp_all add: upd_mem_def)

lemma upd_proc_fields [simp]:
  "procs (upd_proc s p f) = (procs s)(p := f (procs s p))" "next_pid (upd_proc s p f) = next_pid s"
  "percpus (upd_proc s p f) = percpus s" "kvfs (upd_proc s p f) = kvfs s" "mach (upd_proc s p f) = mach s"
  by (simp_all add: upd_proc_def)

lemma process_create_spec:
  assumes "process_create s name = Some (p, s')" "p \<noteq> 0"
  shows "\<exists>root stk. root \<noteq> 0 \<and> procs s' = (procs s)(p := (new_process (next_pid s) name)\<lparr>cr3 := root, kernel_stack_top := stk\<rparr>) \<and>
    next_pid s' = next_pid s + 1 \<and> percpus s' = percpus s \<and> kvfs s' = kvfs s"
proof -
  obtain q s1 where k1: "kmalloc s sizeof_process 16 = Some (q, s1)"
    using assms by (cases "kmalloc s sizeof_process 16") (auto simp: process_create_def)
  note f1 = kmalloc_fields [OF k1]
  have q: "q \<noteq> 0" using assms k1 by (auto simp: process_create_def)
  define s2 where "s2 = (upd_proc (upd_mem s1 (\<lambda>m. k_memset m q 0 sizeof_process)) q (\<lambda>_. new_process (next_pid s1) name))\<lparr>next_pid := next_pid s1 + 1\<rparr>"
  obtain root m where r: "paging_new_address_space (mach s2) = (root, m)" by force
  define s3 where "s3 = upd_proc (s2\<lparr>mach := m\<rparr>) q (\<lambda>x. x\<lparr>cr3 := root\<rparr>)"
  have body: "process_create s name =
    (if root = 0 then do { s \<leftarrow> kfree s3 q; Some (0, s) }
     else do {
       (stk, s) \<leftarrow> kmalloc s3 PROCESS_KSTACK_SIZE 16;
       let s = upd_proc s q (\<lambda>x. x\<lparr>kernel_stack_top := stk + PROCESS_KSTACK_SIZE\<rparr>);
       if stk + PROCESS_KSTACK_SIZE = 0 then do {
         s \<leftarrow> kfree (s\<lparr>mach := paging_free_address_space (mach s) root\<rparr>) q; Some (0, s)
       } else Some (q, s)
     })"
    using k1 q r by (simp add: process_create_def s2_def s3_def Let_def)
  have root: "root \<noteq> 0" using assms body by (auto simp: bind_eq_Some_conv)
  obtain stk s4 where k2: "kmalloc s3 PROCESS_KSTACK_SIZE 16 = Some (stk, s4)"
    using assms body root by (cases "kmalloc s3 PROCESS_KSTACK_SIZE 16") auto
  note f2 = kmalloc_fields [OF k2]
  have "p = q" "s' = upd_proc s4 q (\<lambda>x. x\<lparr>kernel_stack_top := stk + PROCESS_KSTACK_SIZE\<rparr>)"
    using assms body root k2 by (auto simp: bind_eq_Some_conv Let_def split: if_splits)
  then show ?thesis using root f1 f2 by (auto simp: s3_def s2_def)
qed

text \<open>What a successful fork has done before its last part.\<close>

lemma process_fork_spec:
  assumes "process_fork s cpu regs = Some (c, s')" "c \<noteq> 0"
  shows "\<exists>root stk s1. root \<noteq> 0 \<and> next_pid s1 = next_pid s + 1 \<and> percpus s1 = percpus s \<and>
    procs s1 = (procs s)(c := (new_process (next_pid s) (Some (pname (procs s (process_current s cpu)))))\<lparr>cr3 := root, kernel_stack_top := stk\<rparr>) \<and>
    s' = fork_finish s1 (process_current s cpu) c (cpu_user_rsp (percpus s cpu)) regs"
proof -
  let ?par = "process_current s cpu"
  have par: "?par \<noteq> 0" using assms(1,2) by (auto simp: process_fork_def)
  obtain d s1 where d: "process_create s (Some (pname (procs s ?par))) = Some (d, s1)"
    using assms(1) par by (cases "process_create s (Some (pname (procs s ?par)))") (auto simp: process_fork_def)
  have d0: "d \<noteq> 0" using assms(1,2) par d by (auto simp: process_fork_def)
  obtain root stk where cr: "root \<noteq> 0" "next_pid s1 = next_pid s + 1" "percpus s1 = percpus s"
    "procs s1 = (procs s)(d := (new_process (next_pid s) (Some (pname (procs s ?par))))\<lparr>cr3 := root, kernel_stack_top := stk\<rparr>)"
    using process_create_spec [OF d d0] by blast
  obtain ok m where cl: "paging_clone_user_space (mach s1) (cr3 (procs s1 ?par)) (cr3 (procs s1 d)) = (ok, m)" by force
  have ok: ok using assms(1,2) par d d0 cl by (auto simp: process_fork_def Let_def bind_eq_Some_conv split: if_splits)
  have s': "c = d" "s' = fork_finish (s1\<lparr>mach := m\<rparr>) ?par d (cpu_user_rsp (percpus s1 cpu)) regs"
    using assms(1) par d d0 cl ok by (auto simp: process_fork_def Let_def)
  show ?thesis
    using cr s' by (intro exI [of _ root] exI [of _ stk] exI [of _ "s1\<lparr>mach := m\<rparr>"]) simp
qed

text \<open>
  the child of a fork continues behind the parent's system call with result 0: all other registers are
  the caller's, the instruction pointer and the flags are those the call saved, the selectors those of user
  mode. It has the parent's open files, mapping cursor, thread pointer and terminal and becomes the first
  child of its parent; apart from its list of children the parent is unchanged, and so is every other process.
\<close>

theorem fork_child_spec:
  assumes "c \<noteq> par" "s' = fork_finish s par c ursp regs"
  shows "let q = procs s par; ch = procs s' c in
    rax (ctx ch) = 0 \<and> rip (ctx ch) = srcx regs \<and> rflags (ctx ch) = sr11 regs \<and> rcs (ctx ch) = 0x23 \<and>
    rss (ctx ch) = 0x1B \<and> user_rsp (ctx ch) = ursp \<and> rbx (ctx ch) = srbx regs \<and> rbp (ctx ch) = srbp regs \<and>
    r12 (ctx ch) = sr12 regs \<and> r13 (ctx ch) = sr13 regs \<and> r14 (ctx ch) = sr14 regs \<and> r15 (ctx ch) = sr15 regs \<and>
    files ch = files q \<and> mmap_cursor ch = mmap_cursor q \<and> fs_base ch = fs_base q \<and> vt ch = vt q \<and>
    pid ch = pid (procs s c) \<and> cr3 ch = cr3 (procs s c) \<and> pparent ch = par \<and> next_sibling ch = children q \<and>
    procs s' par = q\<lparr>children := c\<rparr> \<and> (\<forall>x. x \<noteq> c \<and> x \<noteq> par \<longrightarrow> procs s' x = procs s x)"
  using assms by (simp add: fork_finish_def process_link_child_def fork_ctx_def Let_def)

text \<open>
  When the heap has no room for a kernel stack, \<open>process_create\<close> does not notice: the test compares the
  address behind the stack with 0, so the process is returned with a kernel stack that ends at \<open>0x4000\<close>.
\<close>

lemma create_without_stack:
  assumes "kmalloc s sizeof_process 16 = Some (p, s1)" "p \<noteq> 0"
    and "s2 = (upd_proc (upd_mem s1 (\<lambda>m. k_memset m p 0 sizeof_process)) p (\<lambda>_. new_process (next_pid s1) name))\<lparr>next_pid := next_pid s1 + 1\<rparr>"
    and "paging_new_address_space (mach s2) = (root, m)" "root \<noteq> 0"
    and "kmalloc (upd_proc (s2\<lparr>mach := m\<rparr>) p (\<lambda>x. x\<lparr>cr3 := root\<rparr>)) PROCESS_KSTACK_SIZE 16 = Some (0, s3)"
  shows "\<exists>s'. process_create s name = Some (p, s') \<and> kernel_stack_top (procs s' p) = 0x4000"
  using assms by (simp add: process_create_def Let_def PROCESS_KSTACK_SIZE_def)

section \<open>The children of a process\<close>

abbreviation "nsib ps \<equiv> \<lambda>p. next_sibling (ps p)"

definition child_chain :: "u64 \<Rightarrow> (u64 \<Rightarrow> process) \<Rightarrow> u64 list \<Rightarrow> bool" where
  "child_chain par ps xs \<longleftrightarrow> lpath (nsib ps) (children (ps par)) xs"

text \<open>Linking a child, on the process store alone.\<close>

definition link_procs :: "u64 \<Rightarrow> u64 \<Rightarrow> (u64 \<Rightarrow> process) \<Rightarrow> (u64 \<Rightarrow> process)" where
  "link_procs par c ps =
     (let ps = ps(c := (ps c)\<lparr>pparent := par\<rparr>); ps = ps(c := (ps c)\<lparr>next_sibling := children (ps par)\<rparr>)
      in ps(par := (ps par)\<lparr>children := c\<rparr>))"

lemma process_link_child_procs: "process_link_child s par c = s\<lparr>procs := link_procs par c (procs s)\<rparr>"
  by (simp add: process_link_child_def link_procs_def upd_proc_def Let_def)

lemma unlink_sibling_chain:
  "lpath (nsib ps) q (q # xs) \<Longrightarrow>
   \<exists>ps'. unlink_sibling ps q child = Some ps' \<and> lpath (nsib ps') q (q # remove1 child xs) \<and>
     (\<forall>x. x \<notin> set (q # xs) \<longrightarrow> ps' x = ps x) \<and> (\<forall>x. children (ps' x) = children (ps x))"
proof (induction xs arbitrary: q)
  case Nil
  then have "unlink_sibling ps q child = Some ps" by (subst unlink_sibling.simps) simp
  then show ?case using Nil by simp
next
  case (Cons c xs)
  have c: "next_sibling (ps q) = c" "c \<noteq> 0" "q \<noteq> 0" "lpath (nsib ps) c (c # xs)" using Cons.prems by auto
  have d: "q \<notin> set (c # xs)" "c \<notin> set xs" using lpath_distinct [OF Cons.prems] by auto
  show ?case
  proof (cases "c = child")
    case True
    let ?ps = "ps(q := (ps q)\<lparr>next_sibling := next_sibling (ps child)\<rparr>)"
    have "unlink_sibling ps q child = Some ?ps" using c True by (subst unlink_sibling.simps) (simp add: Let_def)
    moreover have "lpath (nsib ?ps) (next_sibling (ps c)) xs"
      using c(4) d(1) by (subst lpath_cong [where ny = "nsib ps"]) auto
    ultimately show ?thesis using True c(3) by auto
  next
    case False
    obtain ps' where ps': "unlink_sibling ps c child = Some ps'" "lpath (nsib ps') c (c # remove1 child xs)"
      "\<forall>x. x \<notin> set (c # xs) \<longrightarrow> ps' x = ps x" "\<forall>x. children (ps' x) = children (ps x)"
      using Cons.IH [OF c(4)] by blast
    have "unlink_sibling ps q child = Some ps'"
      using c False ps'(1) by (subst unlink_sibling.simps) (simp add: Let_def)
    moreover have "ps' q = ps q" using ps'(3) d(1) by blast
    ultimately show ?thesis using ps' False c d by auto
  qed
qed

lemma unlink_child_chain:
  assumes "child_chain par ps xs"
  shows "\<exists>ps'. unlink_child ps par child = Some ps' \<and> child_chain par ps' (remove1 child xs)"
proof (cases xs)
  case Nil
  then show ?thesis using assms by (simp add: unlink_child_def child_chain_def)
next
  case (Cons c cs)
  then have c: "children (ps par) = c" "c \<noteq> 0" "lpath (nsib ps) c (c # cs)" using assms by (auto simp: child_chain_def)
  show ?thesis
  proof (cases "c = child")
    case True
    let ?ps = "ps(par := (ps par)\<lparr>children := next_sibling (ps child)\<rparr>)"
    have "nsib ?ps = nsib ps" by auto
    then show ?thesis using Cons c True by (simp add: unlink_child_def child_chain_def)
  next
    case False
    then show ?thesis using unlink_sibling_chain [OF c(3), of child] Cons c
      by (auto simp: unlink_child_def child_chain_def Let_def)
  qed
qed

interpretation kids: kernel_list "child_chain par" "link_procs par" "\<lambda>c ps. unlink_child ps par c"
proof
  fix ps :: "u64 \<Rightarrow> process" and xs ys p
  assume c: "child_chain par ps xs"
  then show "distinct xs" unfolding child_chain_def by (rule lpath_distinct)
  show "child_chain par ps ys \<Longrightarrow> xs = ys" using c unfolding child_chain_def by (rule lpath_unique)
  show "\<exists>ps'. unlink_child ps par p = Some ps' \<and> child_chain par ps' (remove1 p xs)" using c by (rule unlink_child_chain)
  assume p: "p \<noteq> 0" "p \<notin> set xs"
  have "nsib (link_procs par p ps) = (nsib ps)(p := children (ps par))" by (auto simp: link_procs_def)
  moreover have "children (link_procs par p ps par) = p" by (simp add: link_procs_def)
  ultimately show "child_chain par (link_procs par p ps) (p # xs)"
    using c p by (simp add: child_chain_def lpath_fun_upd)
qed

definition waits_for :: "(u64 \<Rightarrow> process) \<Rightarrow> u64 \<Rightarrow> u64 \<Rightarrow> bool" where
  "waits_for ps n c \<longleftrightarrow> state (ps c) = PROC_ZOMBIE \<and> (n = 0 \<or> pid (ps c) = n)"

lemma find_zombie_chain:
  "lpath (nsib ps) p xs \<Longrightarrow> find_zombie ps p n = Some (case find (waits_for ps n) xs of Some c \<Rightarrow> c | None \<Rightarrow> 0)"
proof (induction xs arbitrary: p)
  case Nil
  then show ?case by (subst find_zombie.simps) simp
next
  case (Cons x xs)
  then show ?case by (subst find_zombie.simps) (simp flip: waits_for_def)
qed

lemma process_destroy_procs: "process_destroy s p = Some s' \<Longrightarrow> procs s' = procs s"
  using process_destroy_frame by fastforce

text \<open>
  C26: waiting for children is exact. On a well-formed list of children the search returns the first zombie
  with the wanted id (any, for id 0), or 0 if there is none; and reaping it removes exactly this child from
  the list and changes the list in no other way.
\<close>

theorem wait_finds_and_reaps:
  assumes "child_chain par (procs s) xs" "par \<noteq> 0"
  shows "\<exists>z. process_find_zombie_child s par n = Some z \<and>
    (z = 0 \<longleftrightarrow> (\<forall>c \<in> set xs. \<not> waits_for (procs s) n c)) \<and>
    (z \<noteq> 0 \<longrightarrow> waits_for (procs s) n z \<and> (\<exists>ys zs. xs = ys @ z # zs \<and> (\<forall>c \<in> set ys. \<not> waits_for (procs s) n c)) \<and>
       (\<forall>s'. process_reap_child s par z = Some s' \<longrightarrow> child_chain par (procs s') (remove1 z xs)))"
proof -
  have nz: "0 \<notin> set xs" using assms(1) lpath_nonzero unfolding child_chain_def by blast
  have f: "process_find_zombie_child s par n = Some (case find (waits_for (procs s) n) xs of Some c \<Rightarrow> c | None \<Rightarrow> 0)"
    using assms find_zombie_chain unfolding child_chain_def process_find_zombie_child_def by simp
  show ?thesis
  proof (cases "find (waits_for (procs s) n) xs")
    case None
    then have "\<forall>c \<in> set xs. \<not> waits_for (procs s) n c" by (auto simp: find_None_iff)
    then show ?thesis using f None by simp
  next
    case (Some z)
    then have z: "waits_for (procs s) n z" "z \<in> set xs" by (auto simp: find_Some_iff)
    then have z0: "z \<noteq> 0" using nz by metis
    obtain i where i: "i < length xs" "xs ! i = z" "\<forall>j < i. \<not> waits_for (procs s) n (xs ! j)"
      using Some by (auto simp: find_Some_iff)
    have split: "xs = take i xs @ z # drop (Suc i) xs" using id_take_nth_drop [OF i(1)] i(2) by simp
    moreover have "\<forall>c \<in> set (take i xs). \<not> waits_for (procs s) n c" using i by (auto simp: in_set_conv_nth)
    moreover have "child_chain par (procs s') (remove1 z xs)" if "process_reap_child s par z = Some s'" for s'
    proof -
      obtain ps where ps: "unlink_child (procs s) par z = Some ps" "child_chain par ps (remove1 z xs)"
        using kids.pull_chain [OF assms(1)] by blast
      then have "process_destroy (s\<lparr>procs := ps\<rparr>) z = Some s'"
        using that z0 assms(2) by (simp add: process_reap_child_def)
      then show ?thesis using process_destroy_procs ps(2) by fastforce
    qed
    ultimately show ?thesis using f Some z z0 by (intro exI [of _ z]) (use split in blast | simp)+
  qed
qed

text \<open>A parent at \<open>0x10\<close> with the children \<open>0x20\<close>, running, and \<open>0x30\<close>, a zombie with id 3.\<close>

definition family :: "u64 \<Rightarrow> process" where
  "family = (\<lambda>_. zero_process)(0x10 := zero_process\<lparr>children := 0x20\<rparr>,
     0x20 := zero_process\<lparr>pid := 2, state := PROC_RUNNING, next_sibling := 0x30\<rparr>,
     0x30 := zero_process\<lparr>pid := 3, state := PROC_ZOMBIE\<rparr>)"

definition family_state :: kstate where
  "family_state = \<lparr>mach = machine0, heap_hd = 0, heap_used = 0, kvfs = mounted_vfs, procs = family, next_pid = 4,
     percpus = \<lambda>_. \<lparr>kernel_rsp = 0, cpu_user_rsp = 0, cpu_index = 0, lapic_id = 0, current = 0x10, tss_rsp0 = 0,
       syscall_stack_top = 0\<rparr>\<rparr>"

theorem wait_finds_and_reaps_witness:
  "process_find_zombie_child family_state 0x10 3 = Some 0x30"
proof -
  have c: "child_chain 0x10 (procs family_state) [0x20, 0x30]"
    by (simp add: child_chain_def family_state_def family_def zero_process_def)
  obtain z where z: "process_find_zombie_child family_state 0x10 3 = Some z"
    "z = 0 \<longleftrightarrow> (\<forall>c \<in> set [0x20, 0x30]. \<not> waits_for (procs family_state) 3 c)"
    "z \<noteq> 0 \<Longrightarrow> waits_for (procs family_state) 3 z \<and> z \<in> set [0x20, 0x30]"
    using wait_finds_and_reaps [OF c, of 3] by fastforce
  then show ?thesis by (auto simp: waits_for_def family_state_def family_def zero_process_def)
qed

definition demo_regs :: syscall_regs where
  "demo_regs = \<lparr>srax = 16, srbx = 1, srcx = 0x401000, srdx = 0, srsi = 0, srdi = 0, srbp = 0, sr8 = 0, sr9 = 0,
     sr10 = 0, sr11 = 0x202, sr12 = 0, sr13 = 0, sr14 = 0, sr15 = 0\<rparr>"

theorem fork_child_spec_witness:
  "rax (ctx (procs (fork_finish family_state 0x10 0x40 0x7000 demo_regs) 0x40)) = 0 \<and>
   rip (ctx (procs (fork_finish family_state 0x10 0x40 0x7000 demo_regs) 0x40)) = 0x401000 \<and>
   next_sibling (procs (fork_finish family_state 0x10 0x40 0x7000 demo_regs) 0x40) = 0x20"
  using fork_child_spec [where c = "0x40" and par = "0x10" and s = family_state and ursp = "0x7000" and regs = demo_regs, OF _ refl]
  by (simp add: Let_def demo_regs_def family_state_def family_def)

end
