(* ===== verification/Scheduler.thy ===== *)
theory Scheduler
  imports Process
begin

text \<open>
  The scheduler of \<^verbatim>\<open>scheduler/scheduler.c\<close> and the per-processor data of
  \<^verbatim>\<open>arch/x86_64/cpu/percpu.c\<close>.

  Every operation runs on one processor \<open>c\<close>, whose model-specific registers and page-table register are
  \<open>cores s c\<close>. The operations hold one global lock for their whole run, so they are steps on the shared
  state; lock and end-of-interrupt writes have no effect on it. Run queues are linked through the field
  \<open>next\<close> of the processes. A call yields how the processor continues: the return from the interrupt with
  a frame, the resumption of a process in kernel or user mode, or the idle loop.
\<close>

section \<open>Per-processor data\<close>

definition PERCPU_MAX_CPUS :: nat where [const_defs]: "PERCPU_MAX_CPUS = 16"

definition sizeof_percpu :: u64 where [const_defs]: "sizeof_percpu = 0x38"

record core =
  gs_base :: u64
  kernel_gs_base :: u64
  fs_base_msr :: u64
  cr3_reg :: u64

record cpu_rq =
  rq_head :: u64
  rq_count :: u32
  load :: u64
  busy_ticks :: u64
  idle_ticks :: u64

record sched = kstate +
  rqs :: "nat \<Rightarrow> cpu_rq"
  uptime_ticks :: u64
  smp_cpus :: u32
  g_percpu :: u64
  cores :: "nat \<Rightarrow> core"

definition upd_core :: "'a sched_scheme \<Rightarrow> nat \<Rightarrow> (core \<Rightarrow> core) \<Rightarrow> 'a sched_scheme" where
  "upd_core s c f = s\<lparr>cores := (cores s)(c := f (cores s c))\<rparr>"

definition upd_percpu :: "'a sched_scheme \<Rightarrow> nat \<Rightarrow> (percpu \<Rightarrow> percpu) \<Rightarrow> 'a sched_scheme" where
  "upd_percpu s i f = s\<lparr>percpus := (percpus s)(i := f (percpus s i))\<rparr>"

definition upd_rq :: "'a sched_scheme \<Rightarrow> nat \<Rightarrow> (cpu_rq \<Rightarrow> cpu_rq) \<Rightarrow> 'a sched_scheme" where
  "upd_rq s i f = s\<lparr>rqs := (rqs s)(i := f (rqs s i))\<rparr>"

definition percpu_addr :: "'a sched_scheme \<Rightarrow> nat \<Rightarrow> u64" where
  "percpu_addr s i = g_percpu s + of_nat i * sizeof_percpu"

definition percpu_init :: "'a sched_scheme \<Rightarrow> nat \<Rightarrow> u64 \<Rightarrow> 'a sched_scheme" where
  "percpu_init s c stack_top =
     (let s = foldl (\<lambda>s i. upd_percpu s i (\<lambda>p. p\<lparr>cpu_index := of_nat i, kernel_rsp := stack_top,
                syscall_stack_top := stack_top, tss_rsp0 := stack_top, current := 0\<rparr>))
              s [0..<PERCPU_MAX_CPUS];
          s = upd_percpu s 0 (\<lambda>p. p\<lparr>lapic_id := 0\<rparr>)
      in upd_core s c (\<lambda>k. k\<lparr>gs_base := percpu_addr s 0, kernel_gs_base := percpu_addr s 0\<rparr>))"

definition percpu_init_cpu :: "'a sched_scheme \<Rightarrow> nat \<Rightarrow> u32 \<Rightarrow> u8 \<Rightarrow> u64 \<Rightarrow> u64 \<Rightarrow> 'a sched_scheme" where
  "percpu_init_cpu s c index lapic interrupt_stack_top stack_top =
     (if unat index \<ge> PERCPU_MAX_CPUS then s
      else let s = upd_percpu s (unat index) (\<lambda>p. p\<lparr>cpu_index := index, lapic_id := ucast lapic,
                 kernel_rsp := stack_top, syscall_stack_top := stack_top,
                 tss_rsp0 := interrupt_stack_top, current := 0\<rparr>)
           in upd_core s c (\<lambda>k. k\<lparr>gs_base := percpu_addr s (unat index), kernel_gs_base := percpu_addr s (unat index)\<rparr>))"

definition gs_base_is_percpu :: "'a sched_scheme \<Rightarrow> nat \<Rightarrow> bool" where
  "gs_base_is_percpu s c \<longleftrightarrow>
     percpu_addr s 0 \<le> gs_base (cores s c) \<and> gs_base (cores s c) < percpu_addr s PERCPU_MAX_CPUS"

definition percpu_current :: "'a sched_scheme \<Rightarrow> nat \<Rightarrow> u64" where
  "percpu_current s c = (if gs_base_is_percpu s c then gs_base (cores s c) else kernel_gs_base (cores s c))"

text \<open>The element of the array that the pointer denotes.\<close>

definition percpu_slot :: "'a sched_scheme \<Rightarrow> nat \<Rightarrow> nat" where
  "percpu_slot s c = unat ((percpu_current s c - g_percpu s) div sizeof_percpu)"

definition percpu_index :: "'a sched_scheme \<Rightarrow> nat \<Rightarrow> u32" where
  "percpu_index s c = cpu_index (percpus s (percpu_slot s c))"

definition swapgs :: "core \<Rightarrow> core" where
  "swapgs k = k\<lparr>gs_base := kernel_gs_base k, kernel_gs_base := gs_base k\<rparr>"

definition gs_to_user :: "'a sched_scheme \<Rightarrow> nat \<Rightarrow> 'a sched_scheme" where
  "gs_to_user s c = (if gs_base_is_percpu s c then upd_core s c swapgs else s)"

definition gs_to_kernel :: "'a sched_scheme \<Rightarrow> nat \<Rightarrow> 'a sched_scheme" where
  "gs_to_kernel s c = (if \<not> gs_base_is_percpu s c then upd_core s c swapgs else s)"

section \<open>Run queues\<close>

definition SCHED_QUANTUM :: u64 where [const_defs]: "SCHED_QUANTUM = 5"
definition LOAD_UNIT :: u64 where [const_defs]: "LOAD_UNIT = push_bit 12 1"

definition empty_rq :: cpu_rq where
  "empty_rq = \<lparr>rq_head = 0, rq_count = 0, load = 0, busy_ticks = 0, idle_ticks = 0\<rparr>"

definition scheduler_ticks :: "'a sched_scheme \<Rightarrow> u64" where
  "scheduler_ticks s = uptime_ticks s"

definition scheduler_init :: "'a sched_scheme \<Rightarrow> 'a sched_scheme" where
  "scheduler_init s =
     foldl (\<lambda>s i. upd_rq s i (\<lambda>_. empty_rq)) (s\<lparr>uptime_ticks := 0\<rparr>) [0..<PERCPU_MAX_CPUS]"

definition cpu_count :: "'a sched_scheme \<Rightarrow> u32" where
  "cpu_count s = (if smp_cpus s \<noteq> 0 then smp_cpus s else 1)"

definition push_front :: "'a sched_scheme \<Rightarrow> nat \<Rightarrow> u64 \<Rightarrow> 'a sched_scheme" where
  "push_front s cpu p =
     (let s = upd_proc s p (\<lambda>q. q\<lparr>pnext := rq_head (rqs s cpu)\<rparr>)
      in upd_rq s cpu (\<lambda>q. q\<lparr>rq_head := p, rq_count := rq_count q + 1\<rparr>))"

text \<open>The comparison of the loop body; an index outside the array of queues is an access out of bounds.\<close>

definition better_rq :: "'a sched_scheme \<Rightarrow> nat \<Rightarrow> nat \<Rightarrow> bool" where
  "better_rq s i best \<longleftrightarrow>
     rq_count (rqs s i) < rq_count (rqs s best) \<or>
     (rq_count (rqs s i) = rq_count (rqs s best) \<and> load (rqs s i) < load (rqs s best))"

fun least_loop :: "'a sched_scheme \<Rightarrow> nat \<Rightarrow> nat list \<Rightarrow> nat option" where
  "least_loop s best [] = Some best"
| "least_loop s best (i # is) =
     (if i \<ge> PERCPU_MAX_CPUS then None
      else least_loop s (if better_rq s i best then i else best) is)"

definition least_loaded_locked :: "'a sched_scheme \<Rightarrow> nat option" where
  "least_loaded_locked s = least_loop s 0 [1..<unat (cpu_count s)]"

definition scheduler_enqueue_on :: "'a sched_scheme \<Rightarrow> u64 \<Rightarrow> u32 \<Rightarrow> 'a sched_scheme" where
  "scheduler_enqueue_on s p cpu =
     (if p = 0 then s
      else let cpu = (if unat cpu \<ge> PERCPU_MAX_CPUS then 0 else cpu);
               s = upd_proc s p (\<lambda>q. q\<lparr>state := PROC_READY, pcpu := cpu, ticks := 0\<rparr>)
           in push_front s (unat cpu) p)"

definition scheduler_least_loaded_cpu :: "'a sched_scheme \<Rightarrow> u32 option" where
  "scheduler_least_loaded_cpu s = map_option of_nat (least_loaded_locked s)"

definition scheduler_enqueue :: "'a sched_scheme \<Rightarrow> u64 \<Rightarrow> 'a sched_scheme option" where
  "scheduler_enqueue s p =
     (if p = 0 then Some s
      else do {
        cpu \<leftarrow> least_loaded_locked s;
        let s = upd_proc s p (\<lambda>q. q\<lparr>state := PROC_READY, pcpu := of_nat cpu, ticks := 0\<rparr>);
        Some (push_front s cpu p)
      })"

text \<open>The walk of the pointer to the link, behind the process \<open>q\<close>; the flag says that the process was found.\<close>

partial_function (option) unlink_next :: "(u64 \<Rightarrow> process) \<Rightarrow> u64 \<Rightarrow> u64 \<Rightarrow> (bool \<times> (u64 \<Rightarrow> process)) option" where
  "unlink_next ps q p =
     (let n = pnext (ps q)
      in if n = 0 then Some (False, ps)
         else if n = p then Some (True, ps(q := (ps q)\<lparr>pnext := pnext (ps p)\<rparr>))
         else unlink_next ps n p)"

declare unlink_next.simps [code]

definition unlink :: "'a sched_scheme \<Rightarrow> nat \<Rightarrow> u64 \<Rightarrow> 'a sched_scheme option" where
  "unlink s cpu p =
     (let h = rq_head (rqs s cpu)
      in if h = 0 then Some s
         else if h = p then Some (upd_rq s cpu (\<lambda>q. q\<lparr>rq_head := pnext (procs s p), rq_count := rq_count q - 1\<rparr>))
         else do {
           (found, ps) \<leftarrow> unlink_next (procs s) h p;
           let s = s\<lparr>procs := ps\<rparr>;
           Some (if found then upd_rq s cpu (\<lambda>q. q\<lparr>rq_count := rq_count q - 1\<rparr>) else s)
         })"

partial_function (option) pick_loop :: "(u64 \<Rightarrow> process) \<Rightarrow> u64 \<Rightarrow> u64 \<Rightarrow> u64 \<Rightarrow> u64 option" where
  "pick_loop ps start p skip =
     (if state (ps p) = PROC_READY \<and> p \<noteq> skip then Some p
      else let p = (if pnext (ps p) \<noteq> 0 then pnext (ps p) else start)
           in if p \<noteq> start then pick_loop ps start p skip else Some 0)"

declare pick_loop.simps [code]

definition pick_next :: "'a sched_scheme \<Rightarrow> nat \<Rightarrow> u64 \<Rightarrow> u64 option" where
  "pick_next s cpu skip =
     (let start = rq_head (rqs s cpu) in if start = 0 then Some 0 else pick_loop (procs s) start start skip)"

partial_function (option) find_pid_in :: "(u64 \<Rightarrow> process) \<Rightarrow> u64 \<Rightarrow> u64 \<Rightarrow> u64 option" where
  "find_pid_in ps p n =
     (if p = 0 then Some 0 else if pid (ps p) = n then Some p else find_pid_in ps (pnext (ps p)) n)"

declare find_pid_in.simps [code]

fun find_pid_cpus :: "'a sched_scheme \<Rightarrow> u64 \<Rightarrow> nat list \<Rightarrow> u64 option" where
  "find_pid_cpus s n [] = Some 0"
| "find_pid_cpus s n (cpu # cpus) = do {
     p \<leftarrow> find_pid_in (procs s) (rq_head (rqs s cpu)) n;
     if p \<noteq> 0 then Some p else find_pid_cpus s n cpus
   }"

definition find_pid_locked :: "'a sched_scheme \<Rightarrow> u64 \<Rightarrow> u64 option" where
  "find_pid_locked s n = find_pid_cpus s n [0..<PERCPU_MAX_CPUS]"

section \<open>Switching\<close>

text \<open>The processor \<open>slot\<close> is the element of the per-processor array, \<open>cpu\<close> the index stored in it.\<close>

definition kill_cur_locked :: "'a sched_scheme \<Rightarrow> nat \<Rightarrow> nat \<Rightarrow> u64 \<Rightarrow> 'a sched_scheme option" where
  "kill_cur_locked s slot cpu cur =
     (if cur = 0 then Some s
      else do {
        s \<leftarrow> unlink s cpu cur;
        let s = process_set_current s slot 0;
        if pparent (procs s cur) \<noteq> 0
        then Some (upd_proc s cur (\<lambda>p. p\<lparr>state := PROC_ZOMBIE, terminate := False\<rparr>))
        else process_destroy s cur
      })"

datatype outcome = Iret registers | Kernel_resume registers u64 | Usermode_resume registers | Idle

definition make_current :: "'a sched_scheme \<Rightarrow> nat \<Rightarrow> u64 \<Rightarrow> 'a sched_scheme" where
  "make_current s slot nxt =
     (let s = upd_proc s nxt (\<lambda>p. p\<lparr>ticks := 0, state := PROC_RUNNING\<rparr>)
      in upd_percpu s slot (\<lambda>k. k\<lparr>current := nxt, kernel_rsp := kernel_stack_top (procs s nxt)\<rparr>))"

definition load_space :: "'a sched_scheme \<Rightarrow> nat \<Rightarrow> u64 \<Rightarrow> 'a sched_scheme" where
  "load_space s c nxt = upd_core s c (\<lambda>k. k\<lparr>cr3_reg := cr3 (procs s nxt), fs_base_msr := fs_base (procs s nxt)\<rparr>)"

definition tick_switch :: "'a sched_scheme \<Rightarrow> nat \<Rightarrow> nat \<Rightarrow> nat \<Rightarrow> u64 \<Rightarrow> registers \<Rightarrow> (outcome \<times> 'a sched_scheme) option" where
  "tick_switch s c slot cpu cur regs =
     (if rcs regs \<noteq> 0x23 \<and> cur \<noteq> 0 \<and> \<not> blocked (procs s cur) then Some (Iret regs, s)
      else do {
        nxt \<leftarrow> pick_next s cpu cur;
        if nxt = 0 \<or> nxt = cur then Some (Iret regs, s)
        else let s = (if cur \<noteq> 0 then upd_proc s cur (\<lambda>p. p\<lparr>ticks := 0, state := PROC_READY\<rparr>) else s);
                 s = load_space (make_current s slot nxt) c nxt
             in Some (if blocked (procs s nxt)
                      then (Kernel_resume (ctx (procs s nxt)) (saved_kernel_rsp (procs s nxt)), gs_to_kernel s c)
                      else (Iret (ctx (procs s nxt)), gs_to_user s c))
      })"

text \<open>
  The accounting of a tick. The address of the frame gives the stack pointer of a process that waits in the
  kernel: the frame of an interrupt in kernel mode ends before the field \<open>user_rsp\<close>.
\<close>

definition tick_busy :: "'a sched_scheme \<Rightarrow> nat \<Rightarrow> u64 \<Rightarrow> u64 \<Rightarrow> registers \<Rightarrow> 'a sched_scheme" where
  "tick_busy s cpu cur frame regs =
     (let s = upd_rq s cpu (\<lambda>q. q\<lparr>busy_ticks := busy_ticks q + 1, load := drop_bit 1 (load q) + LOAD_UNIT\<rparr>);
          s = upd_proc s cur (\<lambda>p. p\<lparr>ticks := ticks p + 1, ctx := regs\<rparr>)
      in if blocked (procs s cur) then upd_proc s cur (\<lambda>p. p\<lparr>saved_kernel_rsp := frame + 160\<rparr>) else s)"

definition tick_idle :: "'a sched_scheme \<Rightarrow> nat \<Rightarrow> 'a sched_scheme" where
  "tick_idle s cpu = upd_rq s cpu (\<lambda>q. q\<lparr>idle_ticks := idle_ticks q + 1, load := drop_bit 1 (load q)\<rparr>)"

definition scheduler_timer_tick :: "'a sched_scheme \<Rightarrow> nat \<Rightarrow> u64 \<Rightarrow> registers \<Rightarrow> (outcome \<times> 'a sched_scheme) option" where
  "scheduler_timer_tick s c frame regs =
     (let slot = percpu_slot s c; cpu = unat (percpu_index s c);
          s = s\<lparr>uptime_ticks := uptime_ticks s + 1\<rparr>;
          cur = process_current s slot
      in if cur \<noteq> 0 \<and> state (procs s cur) = PROC_RUNNING
         then let s = tick_busy s cpu cur frame regs
              in if terminate (procs s cur)
                 then if rcs regs = 0x23
                      then do { s \<leftarrow> kill_cur_locked s slot cpu cur; tick_switch s c slot cpu 0 regs }
                      else Some (Iret regs, s)
                 else if ticks (procs s cur) < SCHED_QUANTUM \<and> \<not> blocked (procs s cur) then Some (Iret regs, s)
                 else tick_switch s c slot cpu cur regs
         else tick_switch (tick_idle s cpu) c slot cpu cur regs)"

definition scheduler_exit_current :: "'a sched_scheme \<Rightarrow> nat \<Rightarrow> u64 \<Rightarrow> (outcome \<times> 'a sched_scheme) option" where
  "scheduler_exit_current s c status =
     (let slot = percpu_slot s c; cpu = unat (percpu_index s c);
          cur = process_current s slot
      in do {
        s \<leftarrow> (if cur \<noteq> 0 then kill_cur_locked (upd_proc s cur (\<lambda>p. p\<lparr>exit_status := ucast status\<rparr>)) slot cpu cur
             else Some s);
        nxt \<leftarrow> pick_next s cpu 0;
        if nxt = 0 then Some (Idle, s)
        else let s = load_space (make_current s slot nxt) c nxt
             in Some (if blocked (procs s nxt)
                      then (Kernel_resume (ctx (procs s nxt)) (saved_kernel_rsp (procs s nxt)), gs_to_kernel s c)
                      else (Usermode_resume (ctx (procs s nxt)), gs_to_user s c))
      })"

definition scheduler_terminate :: "'a sched_scheme \<Rightarrow> u64 \<Rightarrow> (bool \<times> 'a sched_scheme) option" where
  "scheduler_terminate s n = do {
     p \<leftarrow> find_pid_locked s n;
     Some (if p \<noteq> 0 \<and> state (procs s p) \<noteq> PROC_ZOMBIE
           then (True, upd_proc s p (\<lambda>q. q\<lparr>terminate := True, exit_status := 2\<rparr>))
           else (False, s))
   }"

definition scheduler_terminate_requested :: "'a sched_scheme \<Rightarrow> nat \<Rightarrow> bool" where
  "scheduler_terminate_requested s c =
     (let cur = process_current s (percpu_slot s c) in cur \<noteq> 0 \<and> terminate (procs s cur))"

section \<open>Listing\<close>

definition state_name :: "process_state \<Rightarrow> string" where
  "state_name st = (case st of PROC_RUNNING \<Rightarrow> ''running'' | PROC_ZOMBIE \<Rightarrow> ''zombie'' | _ \<Rightarrow> ''ready'')"

partial_function (option) list_queue ::
  "(u64 \<Rightarrow> cstring \<Rightarrow> string \<Rightarrow> nat \<Rightarrow> 'u \<Rightarrow> 'u) \<Rightarrow> (u64 \<Rightarrow> process) \<Rightarrow> nat \<Rightarrow> u64 \<Rightarrow> 'u \<Rightarrow> 'u option" where
  "list_queue cb ps cpu p user =
     (if p = 0 then Some user
      else list_queue cb ps cpu (pnext (ps p))
             (cb (pid (ps p)) (pname (ps p)) (state_name (state (ps p))) cpu user))"

declare list_queue.simps [code]

fun list_cpus ::
  "(u64 \<Rightarrow> cstring \<Rightarrow> string \<Rightarrow> nat \<Rightarrow> 'u \<Rightarrow> 'u) \<Rightarrow> 'a sched_scheme \<Rightarrow> nat list \<Rightarrow> 'u \<Rightarrow> 'u option" where
  "list_cpus cb s [] user = Some user"
| "list_cpus cb s (cpu # cpus) user = do {
     user \<leftarrow> list_queue cb (procs s) cpu (rq_head (rqs s cpu)) user;
     list_cpus cb s cpus user
   }"

definition scheduler_list ::
  "'a sched_scheme \<Rightarrow> (u64 \<Rightarrow> cstring \<Rightarrow> string \<Rightarrow> nat \<Rightarrow> 'u \<Rightarrow> 'u) \<Rightarrow> 'u \<Rightarrow> 'u option" where
  "scheduler_list s cb user = list_cpus cb s [0..<PERCPU_MAX_CPUS] user"

definition scheduler_process_count :: "'a sched_scheme \<Rightarrow> u32" where
  "scheduler_process_count s = foldl (\<lambda>n i. n + rq_count (rqs s i)) 0 [0..<PERCPU_MAX_CPUS]"

definition scheduler_current :: "'a sched_scheme \<Rightarrow> nat \<Rightarrow> u64" where
  "scheduler_current s c = process_current s (percpu_slot s c)"

section \<open>Run queues as lists\<close>

lemmas sched_upds = upd_core_def upd_percpu_def upd_rq_def upd_proc_def process_set_current_def

abbreviation "qnext ps \<equiv> \<lambda>p. pnext (ps p)"

definition rq_chain :: "nat \<Rightarrow> 'a sched_scheme \<Rightarrow> u64 list \<Rightarrow> bool" where
  "rq_chain i s xs \<longleftrightarrow> lpath (qnext (procs s)) (rq_head (rqs s i)) xs \<and> rq_count (rqs s i) = of_nat (length xs)"

lemma unlink_next_chain:
  "lpath (qnext ps) q (q # xs) \<Longrightarrow>
   \<exists>ps'. unlink_next ps q p = Some (p \<in> set xs, ps') \<and> lpath (qnext ps') q (q # remove1 p xs) \<and>
     (\<forall>x. ps' x = (ps x)\<lparr>pnext := pnext (ps' x)\<rparr>) \<and> (\<forall>x. x \<notin> set (q # xs) \<longrightarrow> ps' x = ps x)"
proof (induction xs arbitrary: q)
  case Nil
  then have "unlink_next ps q p = Some (False, ps)" by (subst unlink_next.simps) simp
  then show ?case using Nil by simp
next
  case (Cons n xs)
  have n: "pnext (ps q) = n" "n \<noteq> 0" "q \<noteq> 0" "lpath (qnext ps) n (n # xs)" using Cons.prems by auto
  have d: "q \<notin> set (n # xs)" "n \<notin> set xs" using lpath_distinct [OF Cons.prems] by auto
  show ?case
  proof (cases "n = p")
    case True
    let ?ps = "ps(q := (ps q)\<lparr>pnext := pnext (ps p)\<rparr>)"
    have "unlink_next ps q p = Some (True, ?ps)" using n True by (subst unlink_next.simps) (simp add: Let_def)
    moreover have "lpath (qnext ?ps) (pnext (ps n)) xs"
      using n(4) d(1) by (subst lpath_cong [where ny = "qnext ps"]) auto
    ultimately show ?thesis using True n(3) by auto
  next
    case False
    obtain ps' where ps': "unlink_next ps n p = Some (p \<in> set xs, ps')" "lpath (qnext ps') n (n # remove1 p xs)"
      "\<forall>x. ps' x = (ps x)\<lparr>pnext := pnext (ps' x)\<rparr>" "\<forall>x. x \<notin> set (n # xs) \<longrightarrow> ps' x = ps x"
      using Cons.IH [OF n(4)] by blast
    have "unlink_next ps q p = Some (p \<in> set (n # xs), ps')"
      using n False ps'(1) by (subst unlink_next.simps) (simp add: Let_def)
    moreover have "ps' q = ps q" using ps'(4) d(1) by blast
    ultimately show ?thesis using ps' False n d by (intro exI [of _ ps']) auto
  qed
qed

lemma unlink_chain:
  assumes "rq_chain i s xs"
  shows "\<exists>s' ps q. unlink s i p = Some s' \<and> s' = s\<lparr>procs := ps, rqs := (rqs s)(i := q)\<rparr> \<and> rq_chain i s' (remove1 p xs) \<and>
    (\<forall>x. ps x = (procs s x)\<lparr>pnext := pnext (ps x)\<rparr>) \<and> (\<forall>x. x \<notin> set xs \<longrightarrow> ps x = procs s x)"
proof (cases xs)
  case Nil
  then show ?thesis using assms
    by (intro exI [of _ s] exI [of _ "procs s"] exI [of _ "rqs s i"]) (simp add: unlink_def rq_chain_def)
next
  case (Cons h ys)
  then have h: "rq_head (rqs s i) = h" "h \<noteq> 0" "lpath (qnext (procs s)) h (h # ys)"
    "rq_count (rqs s i) = of_nat (length ys) + 1" using assms by (auto simp: rq_chain_def)
  show ?thesis
  proof (cases "h = p")
    case True
    then show ?thesis using Cons h
      by (intro exI [of _ "s\<lparr>rqs := (rqs s)(i := (rqs s i)\<lparr>rq_head := pnext (procs s p), rq_count := rq_count (rqs s i) - 1\<rparr>)\<rparr>"]
          exI [of _ "procs s"] exI [of _ "(rqs s i)\<lparr>rq_head := pnext (procs s p), rq_count := rq_count (rqs s i) - 1\<rparr>"])
        (simp add: unlink_def rq_chain_def upd_rq_def)
  next
    case False
    obtain ps where ps: "unlink_next (procs s) h p = Some (p \<in> set ys, ps)" "lpath (qnext ps) h (h # remove1 p ys)"
      "\<forall>x. ps x = (procs s x)\<lparr>pnext := pnext (ps x)\<rparr>" "\<forall>x. x \<notin> set (h # ys) \<longrightarrow> ps x = procs s x"
      using unlink_next_chain [OF h(3)] by blast
    let ?q = "if p \<in> set ys then (rqs s i)\<lparr>rq_count := rq_count (rqs s i) - 1\<rparr> else rqs s i"
    have "length ys = (if p \<in> set ys then 1 else 0) + length (remove1 p ys)"
      using length_pos_if_in_set [of p ys] by (simp add: length_remove1)
    from arg_cong [OF this, of "of_nat :: nat \<Rightarrow> u32"]
    have len: "(of_nat (length ys) :: u32) = (if p \<in> set ys then 1 else 0) + of_nat (length (remove1 p ys))" by simp
    have "unlink s i p = Some (s\<lparr>procs := ps, rqs := (rqs s)(i := ?q)\<rparr>)"
      using h False ps(1) by (simp add: unlink_def upd_rq_def)
    moreover have "rq_chain i (s\<lparr>procs := ps, rqs := (rqs s)(i := ?q)\<rparr>) (remove1 p xs)"
      using h False ps(2) Cons len by (simp add: rq_chain_def)
    ultimately show ?thesis using ps(3,4) Cons by blast
  qed
qed

interpretation runq: kernel_list "rq_chain i" "\<lambda>p s. push_front s i p" "\<lambda>p s. unlink s i p"
proof
  fix s :: "'a sched_scheme" and xs ys p
  assume c: "rq_chain i s xs"
  then show "distinct xs" unfolding rq_chain_def by (blast intro: lpath_distinct)
  show "rq_chain i s ys \<Longrightarrow> xs = ys" using c unfolding rq_chain_def by (blast intro: lpath_unique)
  show "\<exists>s'. unlink s i p = Some s' \<and> rq_chain i s' (remove1 p xs)" using unlink_chain [OF c] by blast
  assume p: "p \<noteq> 0" "p \<notin> set xs"
  have "qnext (procs (push_front s i p)) = (qnext (procs s))(p := rq_head (rqs s i))"
    by (auto simp: push_front_def sched_upds)
  moreover have "rq_head (rqs (push_front s i p) i) = p" "rq_count (rqs (push_front s i p) i) = rq_count (rqs s i) + 1"
    by (simp_all add: push_front_def sched_upds)
  ultimately show "rq_chain i (push_front s i p) (p # xs)" using c p by (simp add: rq_chain_def lpath_fun_upd)
qed

text \<open>The process the search returns: the first ready one from the head of the queue.\<close>

definition ready :: "(u64 \<Rightarrow> process) \<Rightarrow> u64 \<Rightarrow> u64 \<Rightarrow> bool" where
  "ready ps skip p \<longleftrightarrow> state (ps p) = PROC_READY \<and> p \<noteq> skip"

definition first_ready :: "(u64 \<Rightarrow> process) \<Rightarrow> u64 \<Rightarrow> u64 list \<Rightarrow> u64" where
  "first_ready ps skip xs = (case find (ready ps skip) xs of Some p \<Rightarrow> p | None \<Rightarrow> 0)"

lemma pick_loop_chain:
  "lpath (qnext ps) p (p # xs) \<Longrightarrow> start \<noteq> 0 \<Longrightarrow> start \<notin> set xs \<Longrightarrow>
   pick_loop ps start p skip = Some (first_ready ps skip (p # xs))"
proof (induction xs arbitrary: p)
  case Nil
  then show ?case by (subst pick_loop.simps) (simp add: first_ready_def ready_def)
next
  case (Cons n xs)
  have n: "pnext (ps p) = n" "n \<noteq> 0" "n \<noteq> start" using Cons.prems by auto
  have "pick_loop ps start n skip = Some (first_ready ps skip (n # xs))"
    using Cons.prems by (intro Cons.IH) auto
  then show ?case using n by (subst pick_loop.simps) (simp add: first_ready_def ready_def)
qed

lemma pick_next_chain:
  assumes "rq_chain i s xs"
  shows "pick_next s i skip = Some (first_ready (procs s) skip xs)"
proof (cases xs)
  case Nil
  then show ?thesis using assms by (simp add: pick_next_def rq_chain_def first_ready_def)
next
  case (Cons h ys)
  then have "lpath (qnext (procs s)) h (h # ys)" "rq_head (rqs s i) = h" "h \<noteq> 0" using assms by (auto simp: rq_chain_def)
  moreover have "h \<notin> set ys" using runq.chain_distinct [OF assms] Cons by simp
  ultimately show ?thesis using Cons pick_loop_chain [of "procs s" h ys h skip] by (simp add: pick_next_def)
qed

lemma first_ready_cases:
  "first_ready ps skip xs = 0 \<or> first_ready ps skip xs \<in> set xs \<and> ready ps skip (first_ready ps skip xs)"
  by (auto simp: first_ready_def find_Some_iff split: option.splits)

section \<open>The processor that runs the kernel\<close>

definition gs_ok :: "'a sched_scheme \<Rightarrow> nat \<Rightarrow> bool" where
  "gs_ok s c \<longleftrightarrow>
     unat (g_percpu s) + 0x380 < 2 ^ 64 \<and> cpu_index (percpus s c) = of_nat c \<and>
     (let a = percpu_addr s c; inside = (\<lambda>x. percpu_addr s 0 \<le> x \<and> x < percpu_addr s PERCPU_MAX_CPUS);
          g = gs_base (cores s c); k = kernel_gs_base (cores s c)
      in (inside g \<longrightarrow> g = a) \<and> (inside k \<longrightarrow> k = a) \<and> (g = a \<or> k = a))"

lemma percpu_addr_slot:
  assumes "unat (g_percpu s) + 0x380 < 2 ^ 64" "c < 16"
  shows "(percpu_addr s c - g_percpu s) div sizeof_percpu = of_nat c"
    "percpu_addr s 0 \<le> percpu_addr s c" "percpu_addr s c < percpu_addr s PERCPU_MAX_CPUS"
proof -
  have m: "unat (of_nat k * sizeof_percpu :: u64) = k * 56" if "k \<le> 16" for k
    using that by (simp add: sizeof_percpu_def unat_word_ariths unat_of_nat)
  have u: "unat (percpu_addr s k) = unat (g_percpu s) + k * 56" if "k \<le> 16" for k
  proof -
    have "unat (g_percpu s) + unat (of_nat k * sizeof_percpu :: u64) < 2 ^ 64" using m [OF that] assms(1) that by linarith
    then show ?thesis using unat_add_lem [of "g_percpu s" "of_nat k * sizeof_percpu"] m [OF that] by (simp add: percpu_addr_def)
  qed
  show "percpu_addr s 0 \<le> percpu_addr s c" "percpu_addr s c < percpu_addr s PERCPU_MAX_CPUS"
    using u [of 0] u [of c] u [of 16] assms(2) by (simp_all add: word_le_nat_alt word_less_nat_alt PERCPU_MAX_CPUS_def)
  have "unat (of_nat c * sizeof_percpu div sizeof_percpu :: u64) = c"
    using m [of c] assms(2) by (simp add: unat_div) (simp add: sizeof_percpu_def)
  then show "(percpu_addr s c - g_percpu s) div sizeof_percpu = of_nat c"
    using assms(2) by (simp add: percpu_addr_def word_unat_eq_iff unat_of_nat)
qed

lemma gs_ok_slot:
  assumes "gs_ok s c" "c < 16"
  shows "percpu_slot s c = c" "unat (percpu_index s c) = c"
proof -
  have b: "unat (g_percpu s) + 0x380 < 2 ^ 64" and i: "cpu_index (percpus s c) = of_nat c"
    using assms(1) by (auto simp: gs_ok_def)
  note a = percpu_addr_slot [OF b assms(2)]
  have "percpu_current s c = percpu_addr s c"
    using assms(1) a(2,3) by (auto simp: percpu_current_def gs_base_is_percpu_def gs_ok_def Let_def)
  then show "percpu_slot s c = c" using a(1) assms(2) by (simp add: percpu_slot_def unat_of_nat)
  then show "unat (percpu_index s c) = c" using i assms(2) by (simp add: percpu_index_def unat_of_nat)
qed

lemma gs_ok_cong:
  "gs_ok s c \<Longrightarrow> g_percpu s' = g_percpu s \<Longrightarrow> cpu_index (percpus s' c) = cpu_index (percpus s c) \<Longrightarrow>
   {gs_base (cores s' c), kernel_gs_base (cores s' c)} = {gs_base (cores s c), kernel_gs_base (cores s c)} \<Longrightarrow> gs_ok s' c"
  by (auto simp: gs_ok_def Let_def percpu_addr_def doubleton_eq_iff)

text \<open>Each processor that starts up installs its own element.\<close>

lemma percpu_init_cpu_ok:
  assumes "unat index < 16" "unat (g_percpu s) + 0x380 < 2 ^ 64"
  shows "gs_ok (percpu_init_cpu s (unat index) index l it st) (unat index)"
    "current (percpus (percpu_init_cpu s (unat index) index l it st) (unat index)) = 0"
    "c \<noteq> unat index \<Longrightarrow> gs_ok s c \<Longrightarrow> gs_ok (percpu_init_cpu s (unat index) index l it st) c"
  using assms
  by (auto simp: percpu_init_cpu_def PERCPU_MAX_CPUS_def sched_upds gs_ok_def Let_def percpu_addr_def)

section \<open>The invariant of the scheduler\<close>

definition cpu_rep :: "nat \<Rightarrow> 'a sched_scheme \<Rightarrow> u64 list \<Rightarrow> bool" where
  "cpu_rep i s xs \<longleftrightarrow> rq_chain i s xs \<and>
     (let cur = current (percpus s i)
      in (cur = 0 \<or> cur \<in> set xs) \<and>
         (\<forall>p \<in> set xs. pcpu (procs s p) = of_nat i \<and>
            state (procs s p) = (if p = cur then PROC_RUNNING else PROC_READY)))"

definition sched_rep :: "'a sched_scheme \<Rightarrow> (nat \<Rightarrow> u64 list) \<Rightarrow> bool" where
  "sched_rep s Q \<longleftrightarrow> (\<forall>i < 16. gs_ok s i \<and> cpu_rep i s (Q i))"

definition sfields :: "process \<Rightarrow> u64 \<times> u32 \<times> process_state" where
  "sfields p = (pnext p, pcpu p, state p)"

lemma cpu_rep_cong:
  assumes "cpu_rep i s xs" "\<And>p. p \<in> set xs \<Longrightarrow> sfields (procs s' p) = sfields (procs s p)"
    "rq_head (rqs s' i) = rq_head (rqs s i)" "rq_count (rqs s' i) = rq_count (rqs s i)"
    "current (percpus s' i) = current (percpus s i)"
  shows "cpu_rep i s' xs"
  using assms lpath_cong [of xs "qnext (procs s')" "qnext (procs s)"]
  by (auto simp: cpu_rep_def rq_chain_def sfields_def Let_def)

lemma rep_disjoint:
  assumes "sched_rep s Q" "i < 16" "j < 16" "p \<in> set (Q i)" "p \<in> set (Q j)"
  shows "i = j"
proof -
  have "(of_nat i :: u32) = of_nat j" using assms by (metis cpu_rep_def sched_rep_def)
  then have "unat (of_nat i :: u32) = unat (of_nat j :: u32)" by simp
  then show ?thesis using assms(2,3) by (simp add: unat_of_nat)
qed

lemma rep_local:
  assumes r: "sched_rep s Q" and i: "i < 16" and q: "cpu_rep i s' xs" and g: "\<And>j. j < 16 \<Longrightarrow> gs_ok s' j"
    and p: "\<And>p j. j < 16 \<Longrightarrow> j \<noteq> i \<Longrightarrow> p \<in> set (Q j) \<Longrightarrow> sfields (procs s' p) = sfields (procs s p)"
    and o: "\<And>j. j \<noteq> i \<Longrightarrow> rqs s' j = rqs s j" "\<And>j. j \<noteq> i \<Longrightarrow> current (percpus s' j) = current (percpus s j)"
  shows "sched_rep s' (Q(i := xs))"
proof -
  have "cpu_rep j s' (Q j)" if "j < 16" "j \<noteq> i" for j
    by (rule cpu_rep_cong [of j s]) (use that r p o in \<open>auto simp: sched_rep_def\<close>)
  then show ?thesis using q g by (simp add: sched_rep_def)
qed

lemma rep_same:
  assumes "sched_rep s Q" "\<And>p j. j < 16 \<Longrightarrow> p \<in> set (Q j) \<Longrightarrow> sfields (procs s' p) = sfields (procs s p)"
    "\<And>j. j < 16 \<Longrightarrow> gs_ok s' j"
    "\<And>j. rq_head (rqs s' j) = rq_head (rqs s j) \<and> rq_count (rqs s' j) = rq_count (rqs s j)"
    "\<And>j. current (percpus s' j) = current (percpus s j)"
  shows "sched_rep s' Q"
  using assms cpu_rep_cong [of _ s _ s'] by (simp add: sched_rep_def)

lemma gs_ok_switch: "gs_ok (gs_to_user s c) j = gs_ok s j" "gs_ok (gs_to_kernel s c) j = gs_ok s j"
  by (auto simp: gs_to_user_def gs_to_kernel_def gs_ok_def Let_def sched_upds swapgs_def percpu_addr_def)

lemma gs_fields [simp]:
  "procs (gs_to_user s c) = procs s" "rqs (gs_to_user s c) = rqs s" "percpus (gs_to_user s c) = percpus s"
  "procs (gs_to_kernel s c) = procs s" "rqs (gs_to_kernel s c) = rqs s" "percpus (gs_to_kernel s c) = percpus s"
  by (simp_all add: gs_to_user_def gs_to_kernel_def upd_core_def)

lemma rep_gs: "sched_rep s Q \<Longrightarrow> sched_rep (gs_to_user s c) Q" "sched_rep s Q \<Longrightarrow> sched_rep (gs_to_kernel s c) Q"
  using rep_same [of s Q "gs_to_user s c"] rep_same [of s Q "gs_to_kernel s c"]
  by (simp_all add: gs_ok_switch sched_rep_def)

lemma rep_fields: "sched_rep s Q \<Longrightarrow> i < 16 \<Longrightarrow> cpu_rep i s (Q i) \<and> gs_ok s i"
  by (simp add: sched_rep_def)

lemma rep_enqueue_on:
  assumes r: "sched_rep s Q" and p: "p \<noteq> 0" "\<forall>j < 16. p \<notin> set (Q j)" and cpu: "cpu < 16"
  shows "sched_rep (push_front (upd_proc s p (\<lambda>q. q\<lparr>state := PROC_READY, pcpu := of_nat cpu, ticks := 0\<rparr>)) cpu p)
    (Q(cpu := p # Q cpu))" (is "sched_rep (push_front ?s cpu p) _")
proof (rule rep_local [OF r cpu])
  have c: "cpu_rep cpu ?s (Q cpu)"
    by (rule cpu_rep_cong [of cpu s]) (use p cpu r in \<open>auto simp: sched_rep_def sched_upds\<close>)
  have "rq_chain cpu (push_front ?s cpu p) (p # Q cpu)"
    using c p cpu by (intro runq.push_chain) (auto simp: cpu_rep_def)
  moreover have "current (percpus s cpu) \<noteq> p" using rep_fields [OF r cpu] p cpu by (auto simp: cpu_rep_def Let_def)
  ultimately show "cpu_rep cpu (push_front ?s cpu p) (p # Q cpu)"
    using c p cpu by (auto simp: cpu_rep_def Let_def push_front_def sched_upds)
  show "gs_ok (push_front ?s cpu p) j" if "j < 16" for j
    using r that by (auto simp: sched_rep_def push_front_def sched_upds intro: gs_ok_cong)
qed (use p in \<open>auto simp: push_front_def sched_upds sfields_def\<close>)

lemma rep_kill:
  assumes r: "sched_rep s Q" and i: "i < 16" and cur: "cur = current (percpus s i)" "cur \<noteq> 0"
    and k: "kill_cur_locked s i i cur = Some s'"
  shows "sched_rep s' (Q(i := remove1 cur (Q i)))" "current (percpus s' i) = 0"
proof -
  have c: "cpu_rep i s (Q i)" using rep_fields [OF r i] ..
  obtain s1 ps q where u: "unlink s i cur = Some s1" "s1 = s\<lparr>procs := ps, rqs := (rqs s)(i := q)\<rparr>"
    "rq_chain i s1 (remove1 cur (Q i))" "\<forall>x. ps x = (procs s x)\<lparr>pnext := pnext (ps x)\<rparr>"
    "\<forall>x. x \<notin> set (Q i) \<longrightarrow> ps x = procs s x"
    using unlink_chain [of i s "Q i" cur] c by (auto simp: cpu_rep_def)
  have st: "state (ps x) = state (procs s x)" "pcpu (ps x) = pcpu (procs s x)" for x
    by (subst u(4) [rule_format], simp)+
  have notin: "cur \<notin> set (remove1 cur (Q i))"
    using c runq.chain_distinct [of i s "Q i"] by (simp add: cpu_rep_def)
  define s2 where "s2 = process_set_current s1 i 0"
  have f2: "procs s2 = ps" "rqs s2 = (rqs s)(i := q)" "percpus s2 = (percpus s)(i := (percpus s i)\<lparr>current := 0\<rparr>)"
    "g_percpu s2 = g_percpu s" "cores s2 = cores s"
    by (simp_all add: s2_def u(2) process_set_current_def)
  obtain s3 where s3: "s' = s3" "\<forall>x. x \<noteq> cur \<longrightarrow> procs s3 x = ps x" "rqs s3 = rqs s2" "percpus s3 = percpus s2"
    "g_percpu s3 = g_percpu s2" "cores s3 = cores s2"
  proof (cases "pparent (ps cur) = 0")
    case True
    then have "process_destroy s2 cur = Some s'" using k cur(2) u(1) f2(1) by (simp add: kill_cur_locked_def s2_def)
    from process_destroy_frame [OF this] show ?thesis using that f2 by auto
  next
    case False
    then have "s' = upd_proc s2 cur (\<lambda>p. p\<lparr>state := PROC_ZOMBIE, terminate := False\<rparr>)"
      using k cur(2) u(1) f2(1) by (simp add: kill_cur_locked_def s2_def)
    then show ?thesis using that f2 by (auto simp: upd_proc_def)
  qed
  have cr: "cpu_rep i s' (remove1 cur (Q i))"
  proof -
    have "qnext (procs s') x = qnext ps x" if "x \<in> set (remove1 cur (Q i))" for x
      using s3(1,2) notin that by auto
    from lpath_cong [OF this] have "lpath (qnext (procs s')) (rq_head q) (remove1 cur (Q i))"
      using u(2,3) by (simp add: rq_chain_def)
    moreover have "rq_count q = of_nat (length (remove1 cur (Q i)))" using u(2,3) by (simp add: rq_chain_def)
    moreover have "pcpu (procs s' x) = of_nat i \<and> state (procs s' x) = (if x = 0 then PROC_RUNNING else PROC_READY)"
      if x: "x \<in> set (remove1 cur (Q i))" for x
    proof -
      have "x \<noteq> cur" "x \<in> set (Q i)" using x notin set_remove1_subset [of cur "Q i"] by auto
      moreover have "0 \<notin> set (Q i)" using c lpath_nonzero by (auto simp: cpu_rep_def rq_chain_def)
      moreover have "procs s' x = ps x" using s3(1,2) \<open>x \<noteq> cur\<close> by simp
      ultimately show ?thesis using c cur(1) st [of x] by (auto simp: cpu_rep_def Let_def)
    qed
    moreover have "rqs s' i = q" "current (percpus s' i) = 0" using s3 f2 by simp_all
    ultimately show ?thesis by (simp add: cpu_rep_def rq_chain_def)
  qed
  show "current (percpus s' i) = 0" using s3 f2 by simp
  show "sched_rep s' (Q(i := remove1 cur (Q i)))"
  proof (rule rep_local [OF r i cr])
    show "gs_ok s' j" if "j < 16" for j
      using r that s3 f2 by (auto simp: sched_rep_def intro: gs_ok_cong)
    have cq: "cur \<in> set (Q i)" using c cur by (auto simp: cpu_rep_def Let_def)
    show "sfields (procs s' p) = sfields (procs s p)" if "j < 16" "j \<noteq> i" "p \<in> set (Q j)" for p j
      using rep_disjoint [OF r i that(1)] that(2,3) cq s3 u(5) by (metis)
  qed (use s3 f2 in auto)
qed

lemma rep_switch_to:
  assumes r: "sched_rep s Q" and c: "c < 16" and n: "nxt \<in> set (Q c)"
    and s': "s' = load_space (make_current (if cur \<noteq> 0 then upd_proc s cur (\<lambda>p. p\<lparr>ticks := 0, state := PROC_READY\<rparr>) else s) c nxt) c nxt"
    and cur: "cur = current (percpus s c)"
  shows "sched_rep s' Q"
proof -
  let ?st = "\<lambda>p. if p = nxt then PROC_RUNNING else if p = cur \<and> cur \<noteq> 0 then PROC_READY else state (procs s p)"
  have f: "sfields (procs s' p) = (pnext (procs s p), pcpu (procs s p), ?st p)" for p
    unfolding s' by (simp add: load_space_def make_current_def sched_upds sfields_def Let_def)
  have o: "rqs s' = rqs s" "current (percpus s' j) = (if j = c then nxt else current (percpus s j))"
    "g_percpu s' = g_percpu s" "cpu_index (percpus s' j) = cpu_index (percpus s j)"
    "gs_base (cores s' j) = gs_base (cores s j)" "kernel_gs_base (cores s' j) = kernel_gs_base (cores s j)" for j
    unfolding s' by (simp_all add: load_space_def make_current_def sched_upds Let_def)
  have cr: "cpu_rep c s (Q c)" using rep_fields [OF r c] ..
  have "cpu_rep c s' (Q c)"
  proof -
    have "lpath (qnext (procs s')) (rq_head (rqs s c)) (Q c)"
      using cr f lpath_cong [of "Q c" "qnext (procs s')" "qnext (procs s)"]
      by (simp add: cpu_rep_def rq_chain_def sfields_def)
    moreover have "0 \<notin> set (Q c)" using cr lpath_nonzero by (auto simp: cpu_rep_def rq_chain_def)
    ultimately show ?thesis
      using cr f n cur by (auto simp: cpu_rep_def rq_chain_def sfields_def o Let_def)
  qed
  moreover have "gs_ok s' j" if "j < 16" for j
    using r that by (auto simp: sched_rep_def o intro: gs_ok_cong)
  moreover have "sfields (procs s' p) = sfields (procs s p)" if "j < 16" "j \<noteq> c" "p \<in> set (Q j)" for p j
  proof -
    have "p \<notin> set (Q c)" using rep_disjoint [OF r c that(1), of p] that by blast
    moreover have "cur = 0 \<or> cur \<in> set (Q c)" using cr cur by (auto simp: cpu_rep_def Let_def)
    ultimately show ?thesis using f n by (auto simp: sfields_def)
  qed
  ultimately have "sched_rep s' (Q(c := Q c))" by (intro rep_local [OF r c]) (simp_all add: o)
  then show ?thesis by simp
qed

lemma rep_tick_switch:
  assumes r: "sched_rep s Q" and c: "c < 16" and cur: "cur = current (percpus s c)"
    and t: "tick_switch s c c c cur regs = Some (out, s')"
  shows "sched_rep s' Q"
proof -
  have q: "rq_chain c s (Q c)" using rep_fields [OF r c] by (simp add: cpu_rep_def)
  let ?n = "first_ready (procs s) cur (Q c)"
  let ?s = "load_space (make_current (if cur \<noteq> 0 then upd_proc s cur (\<lambda>p. p\<lparr>ticks := 0, state := PROC_READY\<rparr>) else s) c ?n) c ?n"
  have "s' = s \<or> ?n \<noteq> 0 \<and> (s' = gs_to_kernel ?s c \<or> s' = gs_to_user ?s c)"
    using t by (auto simp: tick_switch_def pick_next_chain [OF q] Let_def split: if_splits)
  moreover have "?n \<noteq> 0 \<Longrightarrow> sched_rep ?s Q"
    using first_ready_cases [of "procs s" cur "Q c"] by (intro rep_switch_to [OF r c _ refl cur]) auto
  ultimately show ?thesis using r rep_gs by auto
qed

lemma rep_timer_tick:
  assumes r: "sched_rep s Q" and c: "c < 16" and t: "scheduler_timer_tick s c frame regs = Some (out, s')"
  shows "\<exists>Q'. sched_rep s' Q'"
proof -
  note g = gs_ok_slot [of s c, OF _ c]
  have sl: "percpu_slot s c = c" "unat (percpu_index s c) = c" using g rep_fields [OF r c] by auto
  let ?cur = "current (percpus s c)"
  define s1 where "s1 = tick_idle (s\<lparr>uptime_ticks := uptime_ticks s + 1\<rparr>) c"
  define s3 where "s3 = tick_busy (s\<lparr>uptime_ticks := uptime_ticks s + 1\<rparr>) c ?cur frame regs"
  note defs = s1_def s3_def tick_idle_def tick_busy_def Let_def sched_upds sfields_def
  have gs: "gs_ok s1 j" "gs_ok s3 j" if "j < 16" for j
    using r that by (auto simp: sched_rep_def defs intro: gs_ok_cong)
  have r1: "sched_rep s1 Q" by (rule rep_same [OF r]) (use gs in \<open>auto simp: defs\<close>)
  have r3: "sched_rep s3 Q"
    by (rule rep_same [OF r]) (use gs in \<open>auto simp: defs\<close>)
  have cur: "current (percpus s1 c) = ?cur" "current (percpus s3 c) = ?cur"
    by (auto simp: defs)
  have "s' = s3 \<or> tick_switch s1 c c c ?cur regs = Some (out, s') \<or> tick_switch s3 c c c ?cur regs = Some (out, s') \<or>
     (\<exists>k. ?cur \<noteq> 0 \<and> kill_cur_locked s3 c c ?cur = Some k \<and> tick_switch k c c c 0 regs = Some (out, s'))"
    using t unfolding scheduler_timer_tick_def sl Let_def
    by (auto simp: process_current_def bind_eq_Some_conv s1_def s3_def split: if_splits)
  then show ?thesis
    using r3 rep_tick_switch [OF r1 c] rep_tick_switch [OF r3 c] cur rep_kill [OF r3 c] rep_tick_switch [OF _ c]
    by metis
qed

lemma rep_exit:
  assumes r: "sched_rep s Q" and c: "c < 16" and t: "scheduler_exit_current s c status = Some (out, s')"
  shows "\<exists>Q'. sched_rep s' Q'"
proof -
  note g = gs_ok_slot [of s c, OF _ c]
  have sl: "percpu_slot s c = c" "unat (percpu_index s c) = c" using g rep_fields [OF r c] by auto
  let ?cur = "current (percpus s c)"
  let ?s0 = "upd_proc s ?cur (\<lambda>p. p\<lparr>exit_status := ucast status\<rparr>)"
  have r0: "sched_rep ?s0 Q"
    by (rule rep_same [OF r]) (use r in \<open>auto simp: sched_rep_def sched_upds sfields_def intro: gs_ok_cong\<close>)
  obtain k where k: "(if ?cur \<noteq> 0 then kill_cur_locked ?s0 c c ?cur else Some s) = Some k"
    using t by (auto simp: scheduler_exit_current_def sl process_current_def Let_def bind_eq_Some_conv)
  have "\<exists>Q'. sched_rep k Q' \<and> current (percpus k c) = 0"
    using k r rep_kill [OF r0 c, of ?cur k] by (auto simp: upd_proc_def split: if_splits)
  then obtain Q' where Q': "sched_rep k Q'" "current (percpus k c) = 0" by blast
  have q: "rq_chain c k (Q' c)" using rep_fields [OF Q'(1) c] by (simp add: cpu_rep_def)
  let ?n = "first_ready (procs k) 0 (Q' c)"
  let ?s = "load_space (make_current k c ?n) c ?n"
  have "s' = k \<or> ?n \<noteq> 0 \<and> (s' = gs_to_kernel ?s c \<or> s' = gs_to_user ?s c)"
    using t k by (auto simp: scheduler_exit_current_def sl process_current_def pick_next_chain [OF q] Let_def split: if_splits)
  moreover have "?n \<noteq> 0 \<Longrightarrow> sched_rep ?s Q'"
    using first_ready_cases [of "procs k" 0 "Q' c"] Q'(2)
    by (intro rep_switch_to [OF Q'(1) c, where cur = 0]) auto
  ultimately show ?thesis using Q'(1) rep_gs by blast
qed

lemma rep_terminate:
  assumes "sched_rep s Q" "scheduler_terminate s n = Some (ok, s')"
  shows "sched_rep s' Q"
proof -
  have "s' = s \<or> (\<exists>p. s' = upd_proc s p (\<lambda>q. q\<lparr>terminate := True, exit_status := 2\<rparr>))"
    using assms(2) by (auto simp: scheduler_terminate_def bind_eq_Some_conv split: if_splits)
  moreover have "sched_rep (upd_proc s p (\<lambda>q. q\<lparr>terminate := True, exit_status := 2\<rparr>)) Q" for p
    by (rule rep_same [OF assms(1)])
      (use assms(1) in \<open>auto simp: sched_rep_def sched_upds sfields_def intro: gs_ok_cong\<close>)
  ultimately show ?thesis using assms(1) by auto
qed

lemma least_loop_bound: "best < 16 \<Longrightarrow> least_loop s best is = Some k \<Longrightarrow> k < 16"
  by (induction "is" arbitrary: best) (fastforce simp: PERCPU_MAX_CPUS_def not_le split: if_splits)+

section \<open>Reachable states\<close>

definition queued :: "'a sched_scheme \<Rightarrow> u64 \<Rightarrow> bool" where
  "queued s p \<longleftrightarrow> (\<exists>i < 16. \<exists>xs. rq_chain i s xs \<and> p \<in> set xs)"

lemma queued_rep: "sched_rep s Q \<Longrightarrow> queued s p \<longleftrightarrow> (\<exists>i < 16. p \<in> set (Q i))"
  unfolding queued_def sched_rep_def cpu_rep_def by (metis runq.chain_unique)

text \<open>
  The steps of the scheduler in any order on any processor. A caller enqueues a process that is in no
  queue; the rest of the kernel leaves the queues, the scheduling fields of queued processes and the
  per-processor data alone.
\<close>

definition outside_step :: "'a sched_scheme \<Rightarrow> 'a sched_scheme \<Rightarrow> bool" where
  "outside_step s s' \<longleftrightarrow> (\<forall>p. queued s p \<longrightarrow> sfields (procs s' p) = sfields (procs s p)) \<and> rqs s' = rqs s \<and>
     g_percpu s' = g_percpu s \<and>
     (\<forall>c. current (percpus s' c) = current (percpus s c) \<and> cpu_index (percpus s' c) = cpu_index (percpus s c) \<and>
        {gs_base (cores s' c), kernel_gs_base (cores s' c)} = {gs_base (cores s c), kernel_gs_base (cores s c)})"

inductive sched_reach :: "'a sched_scheme \<Rightarrow> bool" where
  start: "(\<And>c. c < 16 \<Longrightarrow> gs_ok s c \<and> current (percpus s c) = 0) \<Longrightarrow> sched_reach (scheduler_init s)"
| tick: "sched_reach s \<Longrightarrow> c < 16 \<Longrightarrow> scheduler_timer_tick s c frame regs = Some (out, s') \<Longrightarrow> sched_reach s'"
| enqueue_on: "sched_reach s \<Longrightarrow> \<not> queued s p \<Longrightarrow> sched_reach (scheduler_enqueue_on s p cpu)"
| enqueue: "sched_reach s \<Longrightarrow> \<not> queued s p \<Longrightarrow> scheduler_enqueue s p = Some s' \<Longrightarrow> sched_reach s'"
| exits: "sched_reach s \<Longrightarrow> c < 16 \<Longrightarrow> scheduler_exit_current s c status = Some (out, s') \<Longrightarrow> sched_reach s'"
| killed: "sched_reach s \<Longrightarrow> scheduler_terminate s n = Some (ok, s') \<Longrightarrow> sched_reach s'"
| other: "sched_reach s \<Longrightarrow> outside_step s s' \<Longrightarrow> sched_reach s'"

lemma init_rqs: "foldl (\<lambda>s i. upd_rq s i (\<lambda>_. empty_rq)) s is = s\<lparr>rqs := \<lambda>i. if i \<in> set is then empty_rq else rqs s i\<rparr>"
  by (induction "is" arbitrary: s) (auto simp: upd_rq_def fun_eq_iff)

lemma rep_start:
  assumes "\<And>c. c < 16 \<Longrightarrow> gs_ok s c \<and> current (percpus s c) = 0"
  shows "sched_rep (scheduler_init s) (\<lambda>_. [])"
proof -
  have s: "scheduler_init s = s\<lparr>uptime_ticks := 0, rqs := \<lambda>i. if i < 16 then empty_rq else rqs s i\<rparr>"
    unfolding scheduler_init_def init_rqs by (simp add: PERCPU_MAX_CPUS_def cong: if_cong)
  have "gs_ok (scheduler_init s) c" if "c < 16" for c
    using gs_ok_cong [of s c "scheduler_init s"] assms [OF that] by (simp add: s)
  then show ?thesis using assms by (simp add: s sched_rep_def cpu_rep_def rq_chain_def empty_rq_def)
qed

lemma rep_outside:
  assumes "sched_rep s Q" "outside_step s s'"
  shows "sched_rep s' Q"
proof (rule rep_same [OF assms(1)])
  show "gs_ok s' j" if "j < 16" for j
    using gs_ok_cong [of s j s'] rep_fields [OF assms(1) that] assms(2) unfolding outside_step_def by blast
qed (use assms(2) queued_rep [OF assms(1)] in \<open>auto simp: outside_step_def\<close>)

lemma reach_rep: "sched_reach s \<Longrightarrow> \<exists>Q. sched_rep s Q"
proof (induction rule: sched_reach.induct)
  case (start s)
  then show ?case using rep_start [of s] by blast
next
  case (tick s c frame regs out s')
  then show ?case using rep_timer_tick by blast
next
  case (enqueue_on s p cpu)
  then obtain Q where Q: "sched_rep s Q" by blast
  then have p: "\<forall>j < 16. p \<notin> set (Q j)" using enqueue_on queued_rep by blast
  let ?c = "if unat cpu \<ge> PERCPU_MAX_CPUS then 0 else cpu"
  have "unat ?c < 16" by (simp add: PERCPU_MAX_CPUS_def)
  from rep_enqueue_on [OF Q _ p this] have "\<exists>Q'. sched_rep (scheduler_enqueue_on s p cpu) Q'" if "p \<noteq> 0"
    using that by (auto simp: scheduler_enqueue_on_def Let_def)
  then show ?case using Q by (cases "p = 0") (auto simp: scheduler_enqueue_on_def)
next
  case (enqueue s p s')
  then obtain Q where Q: "sched_rep s Q" by blast
  then have p: "\<forall>j < 16. p \<notin> set (Q j)" using enqueue queued_rep by blast
  show ?case
  proof (cases "p = 0")
    case True
    then show ?thesis using enqueue.hyps Q by (auto simp: scheduler_enqueue_def)
  next
    case False
    then obtain cpu where cpu: "least_loaded_locked s = Some cpu"
      "s' = push_front (upd_proc s p (\<lambda>q. q\<lparr>state := PROC_READY, pcpu := of_nat cpu, ticks := 0\<rparr>)) cpu p"
      using enqueue.hyps by (auto simp: scheduler_enqueue_def bind_eq_Some_conv)
    then show ?thesis
      using rep_enqueue_on [OF Q False p] least_loop_bound [of 0 s] by (auto simp: least_loaded_locked_def)
  qed
next
  case (exits s c status out s')
  then show ?case using rep_exit by blast
next
  case (killed s n ok s')
  then show ?case using rep_terminate by blast
next
  case (other s s')
  then show ?case using rep_outside by blast
qed

text \<open>
  The processors found at boot may be more than the run queues have room for; then the search for the least
  loaded one leaves the array.
\<close>

lemma least_loop_outside: "i \<in> set is \<Longrightarrow> PERCPU_MAX_CPUS \<le> i \<Longrightarrow> least_loop s best is = None"
  by (induction "is" arbitrary: best) auto

lemma too_many_cpus: "16 < unat (smp_cpus s) \<Longrightarrow> p \<noteq> 0 \<Longrightarrow> scheduler_enqueue s p = None"
  using least_loop_outside [of 16 "[1..<unat (smp_cpus s)]" s 0]
  by (auto simp: scheduler_enqueue_def least_loaded_locked_def cpu_count_def PERCPU_MAX_CPUS_def)

section \<open>Properties of the scheduler\<close>

text \<open>
  C3: however ticks, enqueues, exits and kills of the processors interleave, the run queues stay consistent.
  Each queue is a duplicate-free list whose length is its count, a process is in the queue of at most one
  processor, the current process of a processor is queued there and is the only one of the queue that is
  running, all others are ready, and no process is current on two processors.
\<close>

theorem run_queues_consistent:
  assumes "sched_reach s" "i < 16"
  shows "\<exists>xs. rq_chain i s xs \<and> distinct xs \<and> (process_current s i = 0 \<or> process_current s i \<in> set xs) \<and>
    (\<forall>p \<in> set xs. state (procs s p) = (if p = process_current s i then PROC_RUNNING else PROC_READY)) \<and>
    (\<forall>j < 16. j \<noteq> i \<longrightarrow> (\<forall>ys. rq_chain j s ys \<longrightarrow> set xs \<inter> set ys = {})) \<and>
    (\<forall>j < 16. j \<noteq> i \<and> process_current s i \<noteq> 0 \<longrightarrow> process_current s j \<noteq> process_current s i)"
proof -
  obtain Q where Q: "sched_rep s Q" using reach_rep [OF assms(1)] by blast
  have c: "cpu_rep j s (Q j)" if "j < 16" for j using rep_fields [OF Q that] ..
  have "set (Q i) \<inter> set ys = {}" if "j < 16" "j \<noteq> i" "rq_chain j s ys" for j ys
  proof -
    have "ys = Q j" using runq.chain_unique [OF that(3)] c [OF that(1)] by (simp add: cpu_rep_def)
    then show ?thesis using rep_disjoint [OF Q assms(2) that(1)] that(2) by blast
  qed
  moreover have "process_current s j \<noteq> process_current s i"
    if "j < 16" "j \<noteq> i" "process_current s i \<noteq> 0" for j
    using c [OF assms(2)] c [OF that(1)] rep_disjoint [OF Q assms(2) that(1)] that
    by (auto simp: cpu_rep_def process_current_def Let_def)
  ultimately show ?thesis
    using c [OF assms(2)] runq.chain_distinct [of i s "Q i"]
    by (intro exI [of _ "Q i"]) (auto simp: cpu_rep_def process_current_def Let_def)
qed

text \<open>Ticks of one processor while it runs user code, which changes the registers but stays in user mode.\<close>

fun run_ticks :: "(registers \<Rightarrow> registers) \<Rightarrow> 'a sched_scheme \<Rightarrow> nat \<Rightarrow> u64 \<Rightarrow> registers \<Rightarrow> nat \<Rightarrow> (registers \<times> 'a sched_scheme) option" where
  "run_ticks user s c frame regs 0 = Some (regs, s)"
| "run_ticks user s c frame regs (Suc n) = do {
     (out, s) \<leftarrow> scheduler_timer_tick s c frame (user regs);
     (case out of Iret r \<Rightarrow> run_ticks user s c frame r n | _ \<Rightarrow> None)
   }"

text \<open>Processor \<open>c\<close> runs the process \<open>cur\<close> of its queue \<open>xs\<close> in user mode.\<close>

definition runs_user :: "'a sched_scheme \<Rightarrow> nat \<Rightarrow> u64 list \<Rightarrow> u64 \<Rightarrow> bool" where
  "runs_user s c xs cur \<longleftrightarrow> gs_ok s c \<and> c < 16 \<and> cpu_rep c s xs \<and> current (percpus s c) = cur \<and> cur \<noteq> 0 \<and>
     \<not> blocked (procs s cur) \<and> \<not> terminate (procs s cur)"

lemma runs_user_facts:
  assumes "runs_user s c xs cur"
  shows "percpu_slot s c = c" "unat (percpu_index s c) = c" "process_current s c = cur" "cur \<noteq> 0" "cur \<in> set xs"
    "state (procs s cur) = PROC_RUNNING" "\<not> blocked (procs s cur)" "\<not> terminate (procs s cur)"
  using assms gs_ok_slot [of s c] by (auto simp: runs_user_def cpu_rep_def process_current_def Let_def)

lemma tick_busy_fields:
  "procs (tick_busy s i p f r) =
     (procs s)(p := (procs s p)\<lparr>ticks := ticks (procs s p) + 1, ctx := r,
        saved_kernel_rsp := (if blocked (procs s p) then f + 160 else saved_kernel_rsp (procs s p))\<rparr>)"
  "percpus (tick_busy s i p f r) = percpus s" "cores (tick_busy s i p f r) = cores s"
  "g_percpu (tick_busy s i p f r) = g_percpu s"
  "rq_head (rqs (tick_busy s i p f r) j) = rq_head (rqs s j)"
  "rq_count (rqs (tick_busy s i p f r) j) = rq_count (rqs s j)"
  by (auto simp: tick_busy_def Let_def sched_upds)

lemma runs_user_busy:
  assumes "runs_user s c xs cur"
  shows "runs_user (tick_busy (s\<lparr>uptime_ticks := u\<rparr>) c cur f r) c xs cur"
proof -
  let ?s = "tick_busy (s\<lparr>uptime_ticks := u\<rparr>) c cur f r"
  have "gs_ok ?s c" using assms gs_ok_cong [of s c ?s] by (simp add: runs_user_def tick_busy_fields)
  moreover have "cpu_rep c ?s xs"
    by (rule cpu_rep_cong [of c s]) (use assms in \<open>auto simp: runs_user_def tick_busy_fields sfields_def\<close>)
  ultimately show ?thesis using assms by (simp add: runs_user_def tick_busy_fields)
qed

text \<open>A tick inside the quantum only counts and saves the registers.\<close>

lemma tick_inside:
  assumes "runs_user s c xs cur" "ticks (procs s cur) + 1 < SCHED_QUANTUM"
  shows "\<exists>s'. scheduler_timer_tick s c f r = Some (Iret r, s') \<and> runs_user s' c xs cur \<and> cores s' = cores s \<and>
    procs s' = (procs s)(cur := (procs s cur)\<lparr>ticks := ticks (procs s cur) + 1, ctx := r\<rparr>)"
proof -
  note a = runs_user_facts [OF assms(1)]
  let ?s = "tick_busy (s\<lparr>uptime_ticks := uptime_ticks s + 1\<rparr>) c cur f r"
  have "scheduler_timer_tick s c f r = Some (Iret r, ?s)"
    using a assms(2) by (simp add: scheduler_timer_tick_def process_current_def tick_busy_fields)
  then show ?thesis using a runs_user_busy [OF assms(1)]
    by (intro exI [of _ ?s]) (simp add: tick_busy_fields)
qed

text \<open>At the end of the quantum the first ready process of the queue continues.\<close>

lemma tick_switches:
  assumes "runs_user s c xs cur" "\<not> ticks (procs s cur) + 1 < SCHED_QUANTUM" "rcs r = 0x23"
    and n: "nxt = first_ready (procs s) cur xs" "nxt \<noteq> 0" "\<not> blocked (procs s nxt)"
  shows "\<exists>s'. scheduler_timer_tick s c f r = Some (Iret (ctx (procs s nxt)), s') \<and>
    gs_ok s' c \<and> cpu_rep c s' xs \<and> current (percpus s' c) = nxt \<and>
    cr3_reg (cores s' c) = cr3 (procs s nxt) \<and> fs_base_msr (cores s' c) = fs_base (procs s nxt) \<and>
    procs s' = (procs s)(cur := (procs s cur)\<lparr>ctx := r, ticks := 0, state := PROC_READY\<rparr>,
       nxt := (procs s nxt)\<lparr>ticks := 0, state := PROC_RUNNING\<rparr>)"
proof -
  note a = runs_user_facts [OF assms(1)]
  let ?b = "tick_busy (s\<lparr>uptime_ticks := uptime_ticks s + 1\<rparr>) c cur f r"
  have b: "runs_user ?b c xs cur" by (rule runs_user_busy [OF assms(1)])
  have ne: "nxt \<noteq> cur" "nxt \<in> set xs" using n first_ready_cases [of "procs s" cur xs] by (auto simp: ready_def)
  have "ready (procs ?b) cur = ready (procs s) cur" by (auto simp: ready_def tick_busy_fields fun_eq_iff)
  then have fr: "first_ready (procs ?b) cur xs = nxt" by (simp add: n(1) first_ready_def)
  have pick: "pick_next ?b c cur = Some nxt"
    using pick_next_chain [of c ?b xs cur] b fr by (simp add: runs_user_def cpu_rep_def)
  define s1 where "s1 = load_space (make_current (upd_proc ?b cur (\<lambda>p. p\<lparr>ticks := 0, state := PROC_READY\<rparr>)) c nxt) c nxt"
  have p1: "procs s1 = (procs s)(cur := (procs s cur)\<lparr>ctx := r, ticks := 0, state := PROC_READY\<rparr>,
       nxt := (procs s nxt)\<lparr>ticks := 0, state := PROC_RUNNING\<rparr>)"
    using ne a by (simp add: s1_def load_space_def make_current_def sched_upds tick_busy_fields Let_def)
  have o1: "cr3_reg (cores s1 c) = cr3 (procs s nxt)" "fs_base_msr (cores s1 c) = fs_base (procs s nxt)"
    "rqs s1 = rqs ?b" "current (percpus s1 c) = nxt" "cpu_index (percpus s1 c) = cpu_index (percpus s c)"
    "gs_base (cores s1 c) = gs_base (cores s c)" "kernel_gs_base (cores s1 c) = kernel_gs_base (cores s c)"
    "g_percpu s1 = g_percpu s"
    using ne by (simp_all add: s1_def load_space_def make_current_def sched_upds tick_busy_fields Let_def)
  have t: "scheduler_timer_tick s c f r = Some (Iret (ctx (procs s nxt)), gs_to_user s1 c)"
    using a assms(2,3) n(2,3) ne pick p1
    by (simp add: scheduler_timer_tick_def process_current_def tick_switch_def tick_busy_fields s1_def)
  have "cpu_rep c s1 xs"
  proof -
    have "lpath (qnext (procs s1)) (rq_head (rqs s c)) xs"
      using assms(1) p1 lpath_cong [of xs "qnext (procs s1)" "qnext (procs s)"]
      by (simp add: runs_user_def cpu_rep_def rq_chain_def)
    then show ?thesis using assms(1) ne p1 a
      by (auto simp: runs_user_def cpu_rep_def rq_chain_def o1 tick_busy_fields Let_def)
  qed
  then have "cpu_rep c (gs_to_user s1 c) xs" by (rule cpu_rep_cong) simp_all
  moreover have "gs_ok s1 c" using assms(1) gs_ok_cong [of s c s1] by (simp add: runs_user_def o1)
  moreover have "cr3_reg (cores (gs_to_user s1 c) c) = cr3_reg (cores s1 c)" "fs_base_msr (cores (gs_to_user s1 c) c) = fs_base_msr (cores s1 c)"
    by (simp_all add: gs_to_user_def upd_core_def swapgs_def)
  ultimately show ?thesis using t o1 p1 by (intro exI [of _ "gs_to_user s1 c"]) (simp add: gs_ok_switch)
qed

lemma run_ticks_add:
  "run_ticks user s c f r (n + m) = do { (r, s) \<leftarrow> run_ticks user s c f r n; run_ticks user s c f r m }"
proof (induction n arbitrary: s r)
  case (Suc n)
  then show ?case
    by (cases "scheduler_timer_tick s c f (user r)") (auto split: outcome.splits)
qed simp

lemma run_ticks_snoc:
  assumes "run_ticks user s c f r n = Some (r1, s1)" "scheduler_timer_tick s1 c f (user r1) = Some (Iret r2, s2)"
  shows "run_ticks user s c f r (Suc n) = Some (r2, s2)"
  using run_ticks_add [of user s c f r n 1] assms by simp

lemma run_inside:
  assumes "runs_user s c xs cur" "ticks (procs s cur) = 0" "k < 5"
  shows "\<exists>s'. run_ticks user s c f r k = Some ((user ^^ k) r, s') \<and> runs_user s' c xs cur \<and>
    (\<exists>x. procs s' = (procs s)(cur := (procs s cur)\<lparr>ticks := of_nat k, ctx := x\<rparr>))"
  using assms(3)
proof (induction k)
  case 0
  have "procs s = (procs s)(cur := (procs s cur)\<lparr>ticks := of_nat 0, ctx := ctx (procs s cur)\<rparr>)"
    using assms(2) by (simp add: fun_eq_iff)
  then have "\<exists>x. procs s = (procs s)(cur := (procs s cur)\<lparr>ticks := of_nat 0, ctx := x\<rparr>)" by (rule exI)
  then show ?case using assms(1) unfolding run_ticks.simps funpow.simps id_apply by blast
next
  case (Suc k)
  then obtain s1 x where s1: "run_ticks user s c f r k = Some ((user ^^ k) r, s1)" "runs_user s1 c xs cur"
    "procs s1 = (procs s)(cur := (procs s cur)\<lparr>ticks := of_nat k, ctx := x\<rparr>)" using Suc_lessD by blast
  have "ticks (procs s1 cur) + 1 < SCHED_QUANTUM"
    using Suc.prems by (simp add: s1(3) SCHED_QUANTUM_def word_less_nat_alt unat_word_ariths unat_of_nat)
  from tick_inside [OF s1(2) this, of f "user ((user ^^ k) r)"] obtain s2 where
    s2: "scheduler_timer_tick s1 c f (user ((user ^^ k) r)) = Some (Iret (user ((user ^^ k) r)), s2)" "runs_user s2 c xs cur"
    "procs s2 = (procs s1)(cur := (procs s1 cur)\<lparr>ticks := ticks (procs s1 cur) + 1, ctx := user ((user ^^ k) r)\<rparr>)" by blast
  have "procs s2 = (procs s)(cur := (procs s cur)\<lparr>ticks := of_nat (Suc k), ctx := user ((user ^^ k) r)\<rparr>)"
    unfolding s2(3) s1(3) by (simp add: add.commute)
  then show ?case using run_ticks_snoc [OF s1(1) s2(1)] s2(2) unfolding funpow.simps o_apply by blast
qed

lemma funpow_mode: "(\<And>r. rcs (user r) = rcs r) \<Longrightarrow> rcs ((user ^^ k) r) = rcs r" for user :: "registers \<Rightarrow> registers"
  by (induction k) auto

text \<open>
  C11: preemption. A process that runs user code is interrupted by every tick with its registers unchanged
  until its quantum of five ticks is used up; then the first ready process of the queue continues exactly
  where it was suspended, in its own address space and with its own thread pointer, and all registers of
  the suspended process are saved, whatever the user code did.
\<close>

theorem preempt_after_quantum:
  assumes "runs_user s c xs cur" "ticks (procs s cur) = 0" "\<And>r. rcs (user r) = rcs r" "rcs regs = 0x23"
    and "nxt = first_ready (procs s) cur xs" "nxt \<noteq> 0" "\<not> blocked (procs s nxt)"
  shows "\<exists>s'. run_ticks user s c f regs 5 = Some (ctx (procs s nxt), s') \<and> process_current s' c = nxt \<and>
    cr3_reg (cores s' c) = cr3 (procs s nxt) \<and> fs_base_msr (cores s' c) = fs_base (procs s nxt) \<and>
    ctx (procs s' cur) = (user ^^ 5) regs \<and> state (procs s' cur) = PROC_READY \<and>
    (\<forall>k < 5. \<exists>s1. run_ticks user s c f regs k = Some ((user ^^ k) regs, s1) \<and> process_current s1 c = cur)"
proof -
  obtain s1 x where s1: "run_ticks user s c f regs 4 = Some ((user ^^ 4) regs, s1)" "runs_user s1 c xs cur"
    "procs s1 = (procs s)(cur := (procs s cur)\<lparr>ticks := of_nat 4, ctx := x\<rparr>)"
    using run_inside [OF assms(1,2), of 4 user f regs] numeral_less_iff [of "num.Bit0 (num.Bit0 num.One)" "num.Bit1 (num.Bit0 num.One)"] by auto
  let ?r = "user ((user ^^ 4) regs)"
  have cur: "nxt \<noteq> cur" using assms(5,6) first_ready_cases [of "procs s" cur xs] by (auto simp: ready_def)
  have "ready (procs s1) cur = ready (procs s) cur" by (auto simp: ready_def s1(3) fun_eq_iff)
  then have n: "nxt = first_ready (procs s1) cur xs" by (simp add: assms(5) first_ready_def)
  have q: "\<not> ticks (procs s1 cur) + 1 < SCHED_QUANTUM" by (simp add: s1(3) SCHED_QUANTUM_def)
  have m: "rcs ?r = 0x23" using assms(3,4) funpow_mode [of user 4 regs] by simp
  have nb: "\<not> blocked (procs s1 nxt)" using assms(7) cur by (simp add: s1(3))
  from tick_switches [OF s1(2) q m n assms(6) nb, of f] obtain s2 where
    s2: "scheduler_timer_tick s1 c f ?r = Some (Iret (ctx (procs s1 nxt)), s2)" "current (percpus s2 c) = nxt"
    "cr3_reg (cores s2 c) = cr3 (procs s1 nxt)" "fs_base_msr (cores s2 c) = fs_base (procs s1 nxt)"
    "procs s2 = (procs s1)(cur := (procs s1 cur)\<lparr>ctx := ?r, ticks := 0, state := PROC_READY\<rparr>,
       nxt := (procs s1 nxt)\<lparr>ticks := 0, state := PROC_RUNNING\<rparr>)" by blast
  have "run_ticks user s c f regs 5 = Some (ctx (procs s nxt), s2)"
    using run_ticks_snoc [OF s1(1) s2(1)] cur s1(3) by (simp add: eval_nat_numeral)
  moreover have "\<exists>s1. run_ticks user s c f regs k = Some ((user ^^ k) regs, s1) \<and> process_current s1 c = cur" if "k < 5" for k
    using run_inside [OF assms(1,2) that, of user f regs] runs_user_facts(3) by blast
  moreover have "(user ^^ 5) regs = ?r" by (simp add: eval_nat_numeral)
  ultimately show ?thesis using s2 cur s1(3) by (intro exI [of _ s2]) (simp add: process_current_def)
qed

text \<open>
  C27: the scheduler is not fair. The search for the next process always starts at the head of the queue, so
  two processes there that compute without blocking take turns forever; whatever number of ticks passes,
  the processes behind them are never run and their records never change.
\<close>

theorem two_processes_starve_the_rest:
  assumes "runs_user s c (a # b # xs) cur" "cur \<in> {a, b}" "\<And>r. rcs (user r) = rcs r" "rcs regs = 0x23"
    and "\<And>p. p \<in> {a, b} \<Longrightarrow> \<not> blocked (procs s p) \<and> \<not> terminate (procs s p) \<and> rcs (ctx (procs s p)) = 0x23"
  shows "\<exists>regs' s'. run_ticks user s c f regs n = Some (regs', s') \<and> process_current s' c \<in> {a, b} \<and>
    (\<forall>p \<in> set xs. procs s' p = procs s p \<and> state (procs s' p) = PROC_READY)"
proof -
  have d: "distinct (a # b # xs)" "a \<noteq> 0" "b \<noteq> 0"
    using assms(1) runq.chain_distinct [of c s "a # b # xs"] by (auto simp: runs_user_def cpu_rep_def rq_chain_def)
  let ?J = "\<lambda>regs' s' cur'. runs_user s' c (a # b # xs) cur' \<and> cur' \<in> {a, b} \<and> rcs regs' = 0x23 \<and>
     (\<forall>p \<in> {a, b}. \<not> blocked (procs s' p) \<and> \<not> terminate (procs s' p) \<and> rcs (ctx (procs s' p)) = 0x23) \<and>
     (\<forall>p \<in> set xs. procs s' p = procs s p)"
  have "\<exists>regs' s' cur'. run_ticks user s c f regs n = Some (regs', s') \<and> ?J regs' s' cur'"
  proof (induction n)
    case 0
    then show ?case using assms by auto
  next
    case (Suc n)
    then obtain r1 s1 p where r1: "run_ticks user s c f regs n = Some (r1, s1)" and J: "?J r1 s1 p" by blast
    have m: "rcs (user r1) = 0x23" using J assms(3) by simp
    show ?case
    proof (cases "ticks (procs s1 p) + 1 < SCHED_QUANTUM")
      case True
      then obtain s2 where s2: "scheduler_timer_tick s1 c f (user r1) = Some (Iret (user r1), s2)" "runs_user s2 c (a # b # xs) p"
        "procs s2 = (procs s1)(p := (procs s1 p)\<lparr>ticks := ticks (procs s1 p) + 1, ctx := user r1\<rparr>)"
        using tick_inside J by blast
      then have "?J (user r1) s2 p" using J m d(1) by auto
      then show ?thesis using run_ticks_snoc [OF r1 s2(1)] by blast
    next
      case False
      let ?n = "if p = a then b else a"
      have st: "state (procs s1 a) = (if p = a then PROC_RUNNING else PROC_READY)"
        "state (procs s1 b) = (if p = b then PROC_RUNNING else PROC_READY)"
        using J by (auto simp: runs_user_def cpu_rep_def Let_def)
      have n: "?n = first_ready (procs s1) p (a # b # xs)" using st J d by (auto simp: first_ready_def ready_def)
      have nb: "?n \<noteq> 0" "\<not> blocked (procs s1 ?n)" using J d by auto
      obtain s2 where s2: "scheduler_timer_tick s1 c f (user r1) = Some (Iret (ctx (procs s1 ?n)), s2)"
        "gs_ok s2 c" "cpu_rep c s2 (a # b # xs)" "current (percpus s2 c) = ?n"
        "procs s2 = (procs s1)(p := (procs s1 p)\<lparr>ctx := user r1, ticks := 0, state := PROC_READY\<rparr>,
           ?n := (procs s1 ?n)\<lparr>ticks := 0, state := PROC_RUNNING\<rparr>)"
        using tick_switches [OF _ False m n nb] J by blast
      have "?J (ctx (procs s1 ?n)) s2 ?n"
        using J m d s2 by (auto simp: runs_user_def)
      then show ?thesis using run_ticks_snoc [OF r1 s2(1)] by blast
    qed
  qed
  then obtain r' s' p where e: "run_ticks user s c f regs n = Some (r', s')" and J: "?J r' s' p" by blast
  have "state (procs s' q) = PROC_READY" if "q \<in> set xs" for q
    using J d(1) that by (auto simp: runs_user_def cpu_rep_def Let_def)
  then show ?thesis using e J by (auto simp: runs_user_def process_current_def)
qed

lemma killed_last_tick:
  assumes "gs_ok s c" "c < 16" "cpu_rep c s [cur]" "current (percpus s c) = cur"
    and "terminate (procs s cur)" "rcs regs = 0x23"
  shows "scheduler_timer_tick s c f regs = do {
      s \<leftarrow> kill_cur_locked (tick_busy (s\<lparr>uptime_ticks := uptime_ticks s + 1\<rparr>) c cur f regs) c c cur;
      tick_switch s c c c 0 regs }"
  using gs_ok_slot [OF assms(1,2)] assms(3-6)
  by (simp add: scheduler_timer_tick_def process_current_def tick_busy_fields cpu_rep_def rq_chain_def)

lemma kill_last_removed:
  assumes "cpu_rep c s [cur]" "current (percpus s c) = cur" "kill_cur_locked s c c cur = Some s'"
  shows "rq_chain c s' [] \<and> process_current s' c = 0 \<and> cores s' = cores s \<and> cr3 (procs s' cur) = cr3 (procs s cur) \<and>
    (pparent (procs s cur) \<noteq> 0 \<longrightarrow> state (procs s' cur) = PROC_ZOMBIE)"
proof -
  have cur: "cur \<noteq> 0" "pnext (procs s cur) = 0" "rq_head (rqs s c) = cur" "rq_count (rqs s c) = 1"
    using assms(1) by (auto simp: cpu_rep_def rq_chain_def Let_def)
  let ?u = "process_set_current (upd_rq s c (\<lambda>q. q\<lparr>rq_head := 0, rq_count := rq_count q - 1\<rparr>)) c 0"
  have "(if pparent (procs s cur) \<noteq> 0
      then Some (upd_proc ?u cur (\<lambda>p. p\<lparr>state := PROC_ZOMBIE, terminate := False\<rparr>))
      else process_destroy ?u cur) = Some s'"
    using assms(3) cur by (simp add: kill_cur_locked_def unlink_def upd_rq_def process_set_current_def Let_def split: if_splits)
  then show ?thesis
    using cur by (auto simp: rq_chain_def sched_upds process_current_def dest!: process_destroy_frame split: if_splits)
qed

text \<open>
  C28: a killed process can keep running. Suppose the tick finds the terminate flag of a process in user
  mode and the queue of the processor has no other process. If the process has a parent, it becomes a zombie;
  a process without a parent is destroyed, and the claim covers the ticks in which \<open>process_destroy\<close>
  returns. In both cases it leaves the queue and the processor counts as idle, but the interrupt returns to
  the same registers in the same address space: the process goes on executing, on page tables that its
  parent may free or that have just been freed.
\<close>

theorem killed_last_process_keeps_running:
  assumes "gs_ok s c" "c < 16" "cpu_rep c s [cur]" "current (percpus s c) = cur"
    and "terminate (procs s cur)" "rcs regs = 0x23"
  shows "(pparent (procs s cur) \<noteq> 0 \<longrightarrow> (\<exists>s'. scheduler_timer_tick s c f regs = Some (Iret regs, s') \<and>
      state (procs s' cur) = PROC_ZOMBIE \<and> process_current s' c = 0 \<and> rq_chain c s' [] \<and> cores s' = cores s \<and>
      cr3 (procs s' cur) = cr3 (procs s cur))) \<and>
    (\<forall>res s'. pparent (procs s cur) = 0 \<and> scheduler_timer_tick s c f regs = Some (res, s') \<longrightarrow>
      res = Iret regs \<and> process_current s' c = 0 \<and> rq_chain c s' [] \<and> cores s' = cores s)"
proof -
  let ?b = "tick_busy (s\<lparr>uptime_ticks := uptime_ticks s + 1\<rparr>) c cur f regs"
  have b: "cpu_rep c ?b [cur]" "current (percpus ?b c) = cur" "pparent (procs ?b cur) = pparent (procs s cur)"
    "cores ?b = cores s" "cr3 (procs ?b cur) = cr3 (procs s cur)"
    using assms(3,4) by (auto simp: cpu_rep_def rq_chain_def tick_busy_fields)
  have sw: "tick_switch k c c c 0 regs = Some (Iret regs, k)" if "rq_chain c k []" for k
    by (simp add: tick_switch_def pick_next_chain [OF that] first_ready_def)
  have ret: "\<exists>k. kill_cur_locked ?b c c cur = Some k" if "pparent (procs s cur) \<noteq> 0"
    using that b(1,3) by (auto simp: kill_cur_locked_def unlink_def upd_rq_def process_set_current_def cpu_rep_def rq_chain_def)
  note T = killed_last_tick [OF assms]
  have R: "rq_chain c k [] \<and> process_current k c = 0 \<and> cores k = cores s \<and> cr3 (procs k cur) = cr3 (procs s cur) \<and>
    (pparent (procs s cur) \<noteq> 0 \<longrightarrow> state (procs k cur) = PROC_ZOMBIE)" if "kill_cur_locked ?b c c cur = Some k" for k
    using kill_last_removed [OF b(1,2) that] b(3-5) by simp
  show ?thesis
  proof (intro conjI impI allI)
    assume p: "pparent (procs s cur) \<noteq> 0"
    from ret [OF this] obtain k where k: "kill_cur_locked ?b c c cur = Some k" ..
    then show "\<exists>s'. scheduler_timer_tick s c f regs = Some (Iret regs, s') \<and>
      state (procs s' cur) = PROC_ZOMBIE \<and> process_current s' c = 0 \<and> rq_chain c s' [] \<and> cores s' = cores s \<and>
      cr3 (procs s' cur) = cr3 (procs s cur)"
      using R [OF k] sw [of k] T p by simp
  next
    fix res s'
    assume "pparent (procs s cur) = 0 \<and> scheduler_timer_tick s c f regs = Some (res, s')"
    then obtain k where k: "kill_cur_locked ?b c c cur = Some k" "tick_switch k c c c 0 regs = Some (res, s')"
      using T by (auto simp: bind_eq_Some_conv)
    then have "res = Iret regs" "s' = k" using R [OF k(1)] sw [of k] by auto
    then show "res = Iret regs" "process_current s' c = 0" "rq_chain c s' []" "cores s' = cores s"
      using R [OF k(1)] by auto
  qed
qed
section \<open>Examples\<close>

text \<open>Sixteen processors that have started up; three processes of which the first runs on processor 0.\<close>

definition user_ctx :: "u64 \<Rightarrow> registers" where
  "user_ctx a = zero_regs\<lparr>rcs := 0x23, rip := a\<rparr>"

definition three_procs :: "u64 \<Rightarrow> process" where
  "three_procs p = zero_process\<lparr>pid := p, cr3 := 0x1000 + p, pparent := 0x900, ctx := user_ctx p,
     state := (if p = 0x100 then PROC_RUNNING else PROC_READY),
     pnext := (if p = 0x100 then 0x200 else if p = 0x200 then 0x300 else 0)\<rparr>"

definition demo_percpu :: "nat \<Rightarrow> percpu" where
  "demo_percpu c = \<lparr>kernel_rsp = 0, cpu_user_rsp = 0, cpu_index = of_nat c, lapic_id = 0, current = 0, tss_rsp0 = 0,
     syscall_stack_top = 0\<rparr>"

definition demo_sched :: sched where
  "demo_sched = kstate.extend (family_state\<lparr>procs := three_procs, percpus := demo_percpu\<rparr>)
     \<lparr>rqs = \<lambda>_. empty_rq, uptime_ticks = 0, smp_cpus = 16, g_percpu = 0x10000,
      cores = \<lambda>c. \<lparr>gs_base = 0x10000 + of_nat c * 0x38, kernel_gs_base = 0, fs_base_msr = 0, cr3_reg = 0\<rparr>\<rparr>"

definition busy_sched :: sched where
  "busy_sched = demo_sched\<lparr>rqs := (\<lambda>_. empty_rq)(0 := empty_rq\<lparr>rq_head := 0x100, rq_count := 3\<rparr>),
     percpus := demo_percpu(0 := (demo_percpu 0)\<lparr>current := 0x100\<rparr>)\<rparr>"

lemmas demo_defs = demo_sched_def busy_sched_def kstate.extend_def family_state_def demo_percpu_def three_procs_def
  user_ctx_def zero_process_def zero_regs_def empty_rq_def

lemma demo_gs: "gs_ok demo_sched c" if "c < 16"
  using that by (simp add: gs_ok_def demo_defs percpu_addr_def sizeof_percpu_def PERCPU_MAX_CPUS_def Let_def)

lemma busy_runs: "runs_user busy_sched 0 [0x100, 0x200, 0x300] 0x100"
  using gs_ok_cong [of demo_sched 0 busy_sched] demo_gs [of 0]
  by (simp add: runs_user_def cpu_rep_def rq_chain_def demo_defs)

lemma init_fields:
  "procs (scheduler_init s) = procs s" "percpus (scheduler_init s) = percpus s" "cores (scheduler_init s) = cores s"
  "g_percpu (scheduler_init s) = g_percpu s" "uptime_ticks (scheduler_init s) = 0"
  "rqs (scheduler_init s) i = (if i < 16 then empty_rq else rqs s i)"
  unfolding scheduler_init_def init_rqs by (simp_all add: PERCPU_MAX_CPUS_def)

theorem preempt_after_quantum_witness:
  "\<exists>s'. run_ticks (\<lambda>r. r\<lparr>rax := rax r + 1\<rparr>) busy_sched 0 0x5000 (user_ctx 0x100) 5 = Some (user_ctx 0x200, s') \<and>
     process_current s' 0 = 0x200 \<and> cr3_reg (cores s' 0) = 0x1200 \<and> rax (ctx (procs s' 0x100)) = 5"
proof -
  have n: "first_ready (procs busy_sched) 0x100 [0x100, 0x200, 0x300] = 0x200"
    by (simp add: first_ready_def ready_def demo_defs)
  have p: "(((\<lambda>r. r\<lparr>rax := rax r + 1\<rparr>) ^^ 5) (user_ctx 0x100)) = (user_ctx 0x100)\<lparr>rax := 5\<rparr>"
    by (simp add: eval_nat_numeral user_ctx_def zero_regs_def)
  have b: "ticks (procs busy_sched 0x100) = 0" "rcs (user_ctx 0x100) = 0x23" "\<not> blocked (procs busy_sched 0x200)"
    "ctx (procs busy_sched 0x200) = user_ctx 0x200" "cr3 (procs busy_sched 0x200) = 0x1200"
    by (simp_all add: demo_defs)
  show ?thesis
    using preempt_after_quantum [OF busy_runs b(1) _ b(2) n [symmetric] _ b(3), of "\<lambda>r. r\<lparr>rax := rax r + 1\<rparr>" "0x5000"]
    unfolding p b by auto
qed

theorem two_processes_starve_the_rest_witness:
  "\<exists>r s'. run_ticks (\<lambda>r. r) busy_sched 0 0x5000 (user_ctx 0x100) 1000 = Some (r, s') \<and>
     process_current s' 0 \<in> {0x100, 0x200} \<and> procs s' 0x300 = procs busy_sched 0x300"
proof -
  have b: "\<not> blocked (procs busy_sched p) \<and> \<not> terminate (procs busy_sched p) \<and> rcs (ctx (procs busy_sched p)) = 0x23" for p
    by (simp add: demo_defs)
  show ?thesis
    using two_processes_starve_the_rest [OF busy_runs, of "\<lambda>r. r" "user_ctx 0x100" "0x5000" 1000] b
    by (auto simp: user_ctx_def)
qed

theorem killed_last_process_keeps_running_witness:
  "\<exists>s'. scheduler_timer_tick (demo_sched\<lparr>procs := \<lambda>p. (three_procs p)\<lparr>terminate := True, pnext := 0\<rparr>,
       rqs := (\<lambda>_. empty_rq)(0 := empty_rq\<lparr>rq_head := 0x100, rq_count := 1\<rparr>),
       percpus := demo_percpu(0 := (demo_percpu 0)\<lparr>current := 0x100\<rparr>)\<rparr>) 0 0x5000 (user_ctx 0x100) =
     Some (Iret (user_ctx 0x100), s') \<and> state (procs s' 0x100) = PROC_ZOMBIE"
  (is "\<exists>s'. scheduler_timer_tick ?s 0 _ _ = _ \<and> _")
proof -
  have "gs_ok ?s 0" using gs_ok_cong [of demo_sched 0 ?s] demo_gs [of 0] by (simp add: demo_defs)
  moreover have "cpu_rep 0 ?s [0x100]" "current (percpus ?s 0) = 0x100"
    by (simp_all add: cpu_rep_def rq_chain_def demo_defs)
  moreover have "terminate (procs ?s 0x100)" "pparent (procs ?s 0x100) \<noteq> 0" "rcs (user_ctx 0x100) = 0x23"
    by (simp_all add: demo_defs)
  ultimately show ?thesis using killed_last_process_keeps_running [of ?s 0 "0x100" "user_ctx 0x100" "0x5000"] by auto
qed

theorem run_queues_consistent_witness:
  "\<exists>s r. sched_reach s \<and> scheduler_timer_tick (scheduler_enqueue_on (scheduler_init demo_sched) 0x200 1) 1 0x5000 (user_ctx 0) = Some (r, s) \<and>
     process_current s 1 = 0x200 \<and> (\<exists>xs. rq_chain 1 s xs \<and> 0x200 \<in> set xs \<and> state (procs s 0x200) = PROC_RUNNING)"
proof -
  have st: "sched_reach (scheduler_init demo_sched)" using demo_gs by (intro sched_reach.start) (simp add: demo_defs)
  have Q: "sched_rep (scheduler_init demo_sched) (\<lambda>_. [])" using demo_gs by (intro rep_start) (simp add: demo_defs)
  let ?e = "scheduler_enqueue_on (scheduler_init demo_sched) 0x200 1"
  have e: "sched_reach ?e" using st queued_rep [OF Q] by (intro sched_reach.enqueue_on) auto
  have g: "gs_ok ?e 1"
    using gs_ok_cong [of demo_sched 1 ?e] demo_gs [of 1] by (simp add: init_fields scheduler_enqueue_on_def push_front_def sched_upds Let_def PERCPU_MAX_CPUS_def)
  note sl = gs_ok_slot [OF g]
  have c: "rq_chain 1 (tick_idle (?e\<lparr>uptime_ticks := 1\<rparr>) 1) [0x200]" "current (percpus ?e 1) = 0"
    "procs (tick_idle (?e\<lparr>uptime_ticks := 1\<rparr>) 1) 0x200 = (three_procs 0x200)\<lparr>state := PROC_READY, pcpu := 1, ticks := 0, pnext := 0\<rparr>"
    "uptime_ticks ?e = 0"
    by (simp_all add: rq_chain_def init_fields scheduler_enqueue_on_def push_front_def tick_idle_def sched_upds Let_def PERCPU_MAX_CPUS_def)
      (simp_all add: demo_defs)
  let ?n = "load_space (make_current (tick_idle (?e\<lparr>uptime_ticks := 1\<rparr>) 1) 1 0x200) 1 0x200"
  have nb: "\<not> blocked (procs (tick_idle (?e\<lparr>uptime_ticks := 1\<rparr>) 1) 0x200)" "state (procs (tick_idle (?e\<lparr>uptime_ticks := 1\<rparr>) 1) 0x200) = PROC_READY"
    unfolding c(3) by (simp_all add: demo_defs)
  have n: "\<not> blocked (procs ?n 0x200)" using nb by (simp add: load_space_def make_current_def sched_upds Let_def)
  have t: "scheduler_timer_tick ?e 1 0x5000 (user_ctx 0) = Some (Iret (ctx (procs ?n 0x200)), gs_to_user ?n 1)"
    using sl c(2,4) n nb pick_next_chain [OF c(1), of 0]
    by (simp add: scheduler_timer_tick_def process_current_def tick_switch_def first_ready_def ready_def Let_def)
  have r: "sched_reach (gs_to_user ?n 1)" using sched_reach.tick [OF e _ t] by simp
  have "process_current (gs_to_user ?n 1) 1 = 0x200"
    by (simp add: process_current_def load_space_def make_current_def sched_upds Let_def)
  then show ?thesis using t r run_queues_consistent [OF r, of 1] by force
qed

end
