(* ===== verification/Ring.thy ===== *)
theory Ring
  imports Dynt_Prelude
begin

text \<open>
  Ring buffers as the input drivers use them: an array, the index of the next free element and the index of
  the oldest one; an element is dropped when only one free element is left. The file has the facts about the
  contents of such an array and the interface of a bounded queue that its users rely on.
\<close>

section \<open>Contents of a ring\<close>

definition ring_items :: "'a list \<Rightarrow> nat \<Rightarrow> nat \<Rightarrow> 'a list" where
  "ring_items b h t = (let n = length b in map (\<lambda>i. b ! ((t + i) mod n)) [0..<(h + n - t) mod n])"

lemma ring_empty: "h < length b \<Longrightarrow> ring_items b h h = []"
  by (simp add: ring_items_def)

lemma ring_length: "length (ring_items b h t) = (h + length b - t) mod length b"
  by (simp add: ring_items_def Let_def)

lemma ring_full:
  assumes "h < length b" "t < length b" "(h + 1) mod length b = t"
  shows "length (ring_items b h t) = length b - 1"
proof (cases "h + 1 = length b")
  case True
  then show ?thesis using assms by (simp add: ring_length)
next
  case False
  then have "t = h + 1" using assms by simp
  then show ?thesis using assms by (simp add: ring_length)
qed

lemma ring_count:
  "h < n \<Longrightarrow> t < n \<Longrightarrow> (h + n - t) mod n = (if t \<le> h then h - t else h + n - t)" for n :: nat
proof (cases "t \<le> h")
  case True
  assume "h < n" "t < n"
  moreover have "(h + n - t) mod n = ((h - t) + n) mod n" by (rule arg_cong [where f = "\<lambda>x. x mod n"]) (use True in simp)
  ultimately show ?thesis using True unfolding mod_add_self2 by simp
qed simp

lemma ring_next: "h < n \<Longrightarrow> (h + 1) mod n = (if h + 1 = n then 0 else h + 1)" for n :: nat
  by simp

lemma ring_index: "t < n \<Longrightarrow> i < n \<Longrightarrow> (t + i) mod n = (if t + i < n then t + i else t + i - n)" for n :: nat
  by (simp add: mod_if)

lemma ring_put:
  assumes "h < length b" "t < length b" "(h + 1) mod length b \<noteq> t"
  shows "ring_items (b[h := x]) ((h + 1) mod length b) t = ring_items b h t @ [x]"
proof -
  let ?n = "length b" and ?m = "(h + length b - t) mod length b"
  have m: "?m = (if t \<le> h then h - t else h + ?n - t)" by (rule ring_count [OF assms(1,2)])
  have n: "(h + 1) mod ?n = (if h + 1 = ?n then 0 else h + 1)" by (rule ring_next [OF assms(1)])
  have lt: "?m < ?n" using m assms(1,2) by (simp split: if_splits)
  have "(h + 1) mod ?n < ?n" using assms(1) by (cases ?n) simp_all
  from ring_count [OF this assms(2)] have c: "((h + 1) mod ?n + ?n - t) mod ?n = Suc ?m"
    using m n assms by (auto split: if_splits)
  have last: "(t + ?m) mod ?n = h" using ring_index [OF assms(2) lt] m assms(1,2) by (auto split: if_splits)
  have other: "(t + i) mod ?n \<noteq> h" if "i < ?m" for i
    using ring_index [of t ?n i] that lt m assms(1,2) by (auto split: if_splits)
  have "ring_items (b[h := x]) ((h + 1) mod ?n) t = map (\<lambda>i. b[h := x] ! ((t + i) mod ?n)) [0..<Suc ?m]"
    using c by (simp add: ring_items_def Let_def)
  also have "\<dots> = map (\<lambda>i. b ! ((t + i) mod ?n)) [0..<?m] @ [x]"
    using last assms(1) by (auto simp: nth_list_update_neq [OF other [symmetric]])
  finally show ?thesis by (simp add: ring_items_def Let_def)
qed

lemma ring_take:
  assumes "h < length b" "t < length b" "h \<noteq> t"
  shows "ring_items b h t = b ! t # ring_items b h ((t + 1) mod length b)"
proof -
  let ?n = "length b" and ?m = "(h + length b - t) mod length b" and ?t = "(t + 1) mod length b"
  have m: "?m = (if t \<le> h then h - t else h + ?n - t)" by (rule ring_count [OF assms(1,2)])
  have pos: "0 < ?m" using m assms by (auto split: if_splits)
  have n: "?t = (if t + 1 = ?n then 0 else t + 1)" by (rule ring_next [OF assms(2)])
  have "?t < ?n" using assms(2) by (cases ?n) simp_all
  from ring_count [OF assms(1) this] have m': "(h + ?n - ?t) mod ?n = ?m - 1"
    using m n assms by (auto split: if_splits)
  have "[0..<?m] = 0 # map Suc [0..<?m - 1]" using pos by (metis Suc_pred' map_Suc_upt upt_conv_Cons)
  moreover have "(?t + i) mod ?n = (t + Suc i) mod ?n" for i by (simp add: mod_add_left_eq)
  ultimately show ?thesis using m' assms(2) by (simp add: ring_items_def Let_def)
qed

text \<open>What storing does, also when the ring is full.\<close>

lemma ring_store:
  assumes "h < length b" "t < length b"
  shows "ring_items (if (h + 1) mod length b = t then b else b[h := x]) (if (h + 1) mod length b = t then h else (h + 1) mod length b) t =
    (if length (ring_items b h t) < length b - 1 then ring_items b h t @ [x] else ring_items b h t)"
proof (cases "(h + 1) mod length b = t")
  case True
  then show ?thesis using ring_full [OF assms] by simp
next
  case False
  have "length (ring_items b h t) < length b - 1"
  proof -
    have "length (ring_items (b[h := x]) ((h + 1) mod length b) t) < length b"
      unfolding ring_length using assms(1) by (cases "length b") simp_all
    then show ?thesis unfolding ring_put [OF assms False] by simp
  qed
  then show ?thesis using False ring_put [OF assms False] by simp
qed

lemma ring_next_word:
  fixes h n :: u32
  assumes "h < n"
  shows "unat ((h + 1) mod n) = (unat h + 1) mod unat n" "(h + 1) mod n < n"
proof -
  have "unat (h + 1) = unat h + 1" using unat_inc [OF assms] by simp
  then show "unat ((h + 1) mod n) = (unat h + 1) mod unat n" by (simp add: unat_mod)
  show "(h + 1) mod n < n" using assms by (simp add: word_less_nat_alt unat_mod)
qed

section \<open>Bounded queues\<close>

text \<open>Taking up to \<open>n\<close> elements out.\<close>

fun drain :: "('s \<Rightarrow> ('a \<times> 's) option) \<Rightarrow> 's \<Rightarrow> nat \<Rightarrow> 'a list \<times> 's" where
  "drain f s 0 = ([], s)"
| "drain f s (Suc n) = (case f s of None \<Rightarrow> ([], s) | Some (x, s) \<Rightarrow> case drain f s n of (xs, s) \<Rightarrow> (x # xs, s))"

locale bounded_queue =
  fixes ok :: "'s \<Rightarrow> bool" and items :: "'s \<Rightarrow> 'a list" and put :: "'a \<Rightarrow> 's \<Rightarrow> 's" and get :: "'s \<Rightarrow> ('a \<times> 's) option"
    and cap :: nat
  assumes put_ok: "ok s \<Longrightarrow> ok (put x s)"
    and put_items: "ok s \<Longrightarrow> items (put x s) = (if length (items s) < cap then items s @ [x] else items s)"
    and get_none: "ok s \<Longrightarrow> items s = [] \<Longrightarrow> get s = None"
    and get_some: "ok s \<Longrightarrow> items s = x # xs \<Longrightarrow> \<exists>s'. get s = Some (x, s') \<and> ok s' \<and> items s' = xs"
begin

lemma puts_items:
  "ok s \<Longrightarrow> length (items s) \<le> cap \<Longrightarrow>
   ok (fold put xs s) \<and> items (fold put xs s) = take cap (items s @ xs)"
proof (induction xs arbitrary: s)
  case (Cons x xs)
  have "length (items (put x s)) \<le> cap" using Cons.prems put_items by simp
  then show ?case
    using Cons put_ok put_items [of s x] by (cases "length (items s) < cap") (auto simp: take_Cons' Suc_diff_Suc)
qed simp

lemma drain_items:
  "ok s \<Longrightarrow> \<exists>s'. drain get s n = (take n (items s), s') \<and> ok s' \<and> items s' = drop n (items s)"
proof (induction n arbitrary: s)
  case (Suc n)
  show ?case
  proof (cases "items s")
    case Nil
    then show ?thesis using Suc.prems get_none by simp
  next
    case (Cons x xs)
    obtain s1 where s1: "get s = Some (x, s1)" "ok s1" "items s1 = xs" using get_some [OF Suc.prems Cons] by blast
    then show ?thesis using Suc.IH [OF s1(2)] Cons by auto
  qed
qed auto

end

end
