(* ===== verification/Vga.thy ===== *)
theory Vga
  imports Dynt_Prelude
begin

text \<open>
  The text-mode driver of \<^verbatim>\<open>driver/buildin/video/vga/vga.c\<close>: four virtual terminals with their own
  cells, cursor and colours, one of which is shown on the screen. The state holds the arrays of the source,
  the video memory and the two cursor registers of the controller. A write outside the cells of a terminal
  is an access out of bounds, the result \<open>None\<close>.
\<close>

section \<open>State\<close>

definition VGA_COLS :: u16 where [const_defs]: "VGA_COLS = 80"
definition VGA_ROWS :: u16 where [const_defs]: "VGA_ROWS = 25"
definition VGA_CELLS :: nat where [const_defs]: "VGA_CELLS = 2000"
definition VGA_VT_MAX :: u8 where [const_defs]: "VGA_VT_MAX = 4"

record vterm =
  vt_buf :: "u16 list"
  vt_x :: u16
  vt_y :: u16
  vt_fg :: u8
  vt_bg :: u8
  vt_reverse :: bool
  vt_cursor_visible :: bool

record vga =
  vterms :: "vterm list"
  displayed_vt :: u8
  VGA_MEMORY :: "u16 list"
  cursor_high :: u8
  cursor_low :: u8

definition vterm_of :: "vga \<Rightarrow> u8 \<Rightarrow> vterm" where
  "vterm_of g v = vterms g ! unat v"

definition upd_vterm :: "vga \<Rightarrow> u8 \<Rightarrow> (vterm \<Rightarrow> vterm) \<Rightarrow> vga" where
  "upd_vterm g v f = g\<lparr>vterms := (vterms g)[unat v := f (vterms g ! unat v)]\<rparr>"

section \<open>Cells and cursor\<close>

text \<open>A character is a signed byte, so the conversion to 16 bits extends its sign.\<close>

definition vga_cell :: "u8 \<Rightarrow> u8 \<Rightarrow> u16" where
  "vga_cell c color = scast c OR push_bit 8 (ucast color)"

definition vga_attr :: "vterm \<Rightarrow> u8" where
  "vga_attr t =
     (if vt_reverse t then push_bit 4 (vt_fg t) OR vt_bg t else push_bit 4 (vt_bg t) OR vt_fg t)"

definition blank_cell :: "vterm \<Rightarrow> u16" where
  "blank_cell t = vga_cell 32 (vga_attr t)"

definition cell_index :: "vterm \<Rightarrow> nat" where
  "cell_index t = unat (vt_y t) * 80 + unat (vt_x t)"

definition put_cell :: "vterm \<Rightarrow> nat \<Rightarrow> u16 \<Rightarrow> vterm option" where
  "put_cell t i c = (if i < VGA_CELLS then Some (t\<lparr>vt_buf := (vt_buf t)[i := c]\<rparr>) else None)"

definition fill_cells :: "vterm \<Rightarrow> nat \<Rightarrow> nat \<Rightarrow> u16 \<Rightarrow> vterm option" where
  "fill_cells t a b c =
     (if b \<le> a then Some t
      else if b \<le> VGA_CELLS then Some (t\<lparr>vt_buf := take a (vt_buf t) @ replicate (b - a) c @ drop b (vt_buf t)\<rparr>)
      else None)"

definition vga_flush :: "vga \<Rightarrow> vga" where
  "vga_flush g = g\<lparr>VGA_MEMORY := map (\<lambda>i. vt_buf (vterm_of g (displayed_vt g)) ! i) [0..<VGA_CELLS]\<rparr>"

definition cursor_pos :: "vterm \<Rightarrow> u16" where
  "cursor_pos t = (if \<not> vt_cursor_visible t then of_nat (VGA_CELLS - 1) else vt_y t * VGA_COLS + vt_x t)"

definition vga_update_cursor :: "vga \<Rightarrow> vga" where
  "vga_update_cursor g =
     (let pos = cursor_pos (vterm_of g (displayed_vt g))
      in g\<lparr>cursor_high := ucast (drop_bit 8 pos), cursor_low := ucast (pos AND 0xFF)\<rparr>)"

definition show_vt :: "vga \<Rightarrow> u8 \<Rightarrow> vga" where
  "show_vt g v = (if v = displayed_vt g then vga_update_cursor (vga_flush g) else g)"

definition vt_scroll :: "vterm \<Rightarrow> vterm" where
  "vt_scroll t =
     t\<lparr>vt_buf := map (\<lambda>i. if i < 24 * 80 then vt_buf t ! (i + 80) else blank_cell t) [0..<VGA_CELLS]\<rparr>"

definition vt_clear_impl :: "vga \<Rightarrow> u8 \<Rightarrow> vga" where
  "vt_clear_impl g v =
     (let g = upd_vterm g v (\<lambda>t. t\<lparr>vt_buf := replicate VGA_CELLS (blank_cell t), vt_x := 0, vt_y := 0\<rparr>)
      in show_vt g v)"

definition draw_char :: "vterm \<Rightarrow> u8 \<Rightarrow> vterm option" where
  "draw_char t c =
     (if c = 10 then Some (t\<lparr>vt_x := 0, vt_y := vt_y t + 1\<rparr>)
      else if c = 13 then Some (t\<lparr>vt_x := 0\<rparr>)
      else if c = 9 then Some (t\<lparr>vt_x := (vt_x t + 8) AND NOT 7\<rparr>)
      else if c = 8 then
        if vt_x t > 0 then let t = t\<lparr>vt_x := vt_x t - 1\<rparr> in put_cell t (cell_index t) (blank_cell t)
        else Some t
      else do {
        t \<leftarrow> put_cell t (cell_index t) (vga_cell c (vga_attr t));
        Some (t\<lparr>vt_x := vt_x t + 1\<rparr>)
      })"

definition wrap_cursor :: "vterm \<Rightarrow> vterm" where
  "wrap_cursor t =
     (let t = (if vt_x t \<ge> VGA_COLS then t\<lparr>vt_x := 0, vt_y := vt_y t + 1\<rparr> else t)
      in if vt_y t \<ge> VGA_ROWS then (vt_scroll t)\<lparr>vt_y := VGA_ROWS - 1\<rparr> else t)"

definition vt_putc_impl :: "vga \<Rightarrow> u8 \<Rightarrow> u8 \<Rightarrow> vga option" where
  "vt_putc_impl g v c = do {
     t \<leftarrow> draw_char (vterm_of g v) c;
     Some (show_vt (upd_vterm g v (\<lambda>_. wrap_cursor t)) v)
   }"

section \<open>The driver\<close>

definition vga_init :: "vga \<Rightarrow> vga" where
  "vga_init g =
     vga_flush (foldl (\<lambda>g v. vt_clear_impl
         (upd_vterm g v (\<lambda>t. t\<lparr>vt_fg := 7, vt_bg := 0, vt_reverse := False, vt_cursor_visible := True, vt_x := 0, vt_y := 0\<rparr>)) v)
       (g\<lparr>displayed_vt := 0\<rparr>) [0, 1, 2, 3])"

definition vga_putc :: "vga \<Rightarrow> u8 \<Rightarrow> vga option" where
  "vga_putc g c = vt_putc_impl g (displayed_vt g) c"

definition vga_putc_at :: "vga \<Rightarrow> u16 \<Rightarrow> u16 \<Rightarrow> u8 \<Rightarrow> vga option" where
  "vga_putc_at g x y c =
     (let v = displayed_vt g
      in if x \<ge> VGA_COLS \<or> y \<ge> VGA_ROWS then Some g
         else let i = unat y * 80 + unat x; cell = vga_cell c (vga_attr (vterm_of g v))
              in do {
                t \<leftarrow> put_cell (vterm_of g v) i cell;
                Some ((upd_vterm g v (\<lambda>_. t))\<lparr>VGA_MEMORY := (VGA_MEMORY g)[i := vt_buf t ! i]\<rparr>)
              })"

fun vga_puts :: "vga \<Rightarrow> cstring \<Rightarrow> vga option" where
  "vga_puts g [] = Some g"
| "vga_puts g (c # cs) = do { g \<leftarrow> vga_putc g c; vga_puts g cs }"

definition vga_clear :: "vga \<Rightarrow> vga" where
  "vga_clear g = vt_clear_impl g (displayed_vt g)"

definition vga_set_fg_color :: "vga \<Rightarrow> u8 \<Rightarrow> vga" where
  "vga_set_fg_color g color = upd_vterm g (displayed_vt g) (\<lambda>t. t\<lparr>vt_fg := color\<rparr>)"

definition vga_set_bg_color :: "vga \<Rightarrow> u8 \<Rightarrow> vga" where
  "vga_set_bg_color g color = upd_vterm g (displayed_vt g) (\<lambda>t. t\<lparr>vt_bg := color\<rparr>)"

definition vga_set_cursor :: "vga \<Rightarrow> u16 \<Rightarrow> u16 \<Rightarrow> vga" where
  "vga_set_cursor g x y = vga_update_cursor (upd_vterm g (displayed_vt g) (\<lambda>t. t\<lparr>vt_x := x, vt_y := y\<rparr>))"

section \<open>The virtual terminals\<close>

definition valid_vt :: "u8 \<Rightarrow> u8" where
  "valid_vt v = (if v \<ge> VGA_VT_MAX then 0 else v)"

definition vga_vt_putc :: "vga \<Rightarrow> u8 \<Rightarrow> u8 \<Rightarrow> vga option" where
  "vga_vt_putc g v c = vt_putc_impl g (valid_vt v) c"

definition vga_vt_clear :: "vga \<Rightarrow> u8 \<Rightarrow> vga" where
  "vga_vt_clear g v = vt_clear_impl g (valid_vt v)"

definition cursor_shown :: "vga \<Rightarrow> u8 \<Rightarrow> vga" where
  "cursor_shown g v = (if v = displayed_vt g then vga_update_cursor g else g)"

definition vga_vt_set_cursor :: "vga \<Rightarrow> u8 \<Rightarrow> u16 \<Rightarrow> u16 \<Rightarrow> vga" where
  "vga_vt_set_cursor g v x y =
     (let v = valid_vt v in cursor_shown (upd_vterm g v (\<lambda>t. t\<lparr>vt_x := x, vt_y := y\<rparr>)) v)"

definition vga_vt_switch :: "vga \<Rightarrow> u8 \<Rightarrow> vga" where
  "vga_vt_switch g v = (if v \<ge> VGA_VT_MAX then g else vga_update_cursor (vga_flush (g\<lparr>displayed_vt := v\<rparr>)))"

definition vga_vt_displayed :: "vga \<Rightarrow> u8 \<Rightarrow> bool" where
  "vga_vt_displayed g v \<longleftrightarrow> v = displayed_vt g"

text \<open>The sums are 16-bit signed numbers, clamped to the screen.\<close>

definition clamp16 :: "u16 \<Rightarrow> u16 \<Rightarrow> u16" where
  "clamp16 x n = (if sint x < 0 then 0 else if sint x \<ge> uint n then n - 1 else x)"

definition vga_vt_move_cursor :: "vga \<Rightarrow> u8 \<Rightarrow> u16 \<Rightarrow> u16 \<Rightarrow> vga" where
  "vga_vt_move_cursor g v dx dy =
     (let v = valid_vt v
      in cursor_shown (upd_vterm g v (\<lambda>t. t\<lparr>vt_x := clamp16 (vt_x t + dx) VGA_COLS, vt_y := clamp16 (vt_y t + dy) VGA_ROWS\<rparr>)) v)"

definition vga_vt_clear_to_eol :: "vga \<Rightarrow> u8 \<Rightarrow> vga option" where
  "vga_vt_clear_to_eol g v =
     (let v = valid_vt v; t = vterm_of g v
      in do {
        t \<leftarrow> fill_cells t (cell_index t) (unat (vt_y t) * 80 + 80) (blank_cell t);
        Some (show_vt (upd_vterm g v (\<lambda>_. t)) v)
      })"

definition vga_vt_clear_line :: "vga \<Rightarrow> u8 \<Rightarrow> vga option" where
  "vga_vt_clear_line g v =
     (let v = valid_vt v; t = vterm_of g v
      in do {
        t \<leftarrow> fill_cells t (unat (vt_y t) * 80) (unat (vt_y t) * 80 + 80) (blank_cell t);
        Some (show_vt (upd_vterm g v (\<lambda>_. t)) v)
      })"

definition vga_vt_clear_to_escreen :: "vga \<Rightarrow> u8 \<Rightarrow> vga option" where
  "vga_vt_clear_to_escreen g v =
     (let v = valid_vt v; t = vterm_of g v
      in do {
        t \<leftarrow> fill_cells t (cell_index t) VGA_CELLS (blank_cell t);
        Some (show_vt (upd_vterm g v (\<lambda>_. t)) v)
      })"

definition vga_vt_set_reverse :: "vga \<Rightarrow> u8 \<Rightarrow> bool \<Rightarrow> vga" where
  "vga_vt_set_reverse g v r = upd_vterm g (valid_vt v) (\<lambda>t. t\<lparr>vt_reverse := r\<rparr>)"

definition vga_vt_set_fg_color :: "vga \<Rightarrow> u8 \<Rightarrow> u8 \<Rightarrow> vga" where
  "vga_vt_set_fg_color g v color = upd_vterm g (valid_vt v) (\<lambda>t. t\<lparr>vt_fg := color\<rparr>)"

definition vga_vt_set_bg_color :: "vga \<Rightarrow> u8 \<Rightarrow> u8 \<Rightarrow> vga" where
  "vga_vt_set_bg_color g v color = upd_vterm g (valid_vt v) (\<lambda>t. t\<lparr>vt_bg := color\<rparr>)"

definition vga_vt_set_cursor_visible :: "vga \<Rightarrow> u8 \<Rightarrow> bool \<Rightarrow> vga" where
  "vga_vt_set_cursor_visible g v b =
     (let v = valid_vt v in cursor_shown (upd_vterm g v (\<lambda>t. t\<lparr>vt_cursor_visible := b\<rparr>)) v)"

definition vga_vt_cols :: u16 where "vga_vt_cols = VGA_COLS"
definition vga_vt_rows :: u16 where "vga_vt_rows = VGA_ROWS"

section \<open>The screen shows the displayed terminal\<close>

definition vterm_ok :: "vterm \<Rightarrow> bool" where
  "vterm_ok t \<longleftrightarrow> length (vt_buf t) = VGA_CELLS \<and> vt_x t < VGA_COLS \<and> vt_y t < VGA_ROWS"

definition vga_ok :: "vga \<Rightarrow> bool" where
  "vga_ok g \<longleftrightarrow> length (vterms g) = 4 \<and> displayed_vt g < VGA_VT_MAX \<and> (\<forall>t \<in> set (vterms g). vterm_ok t)"

definition shown :: "vga \<Rightarrow> bool" where
  "shown g \<longleftrightarrow>
     VGA_MEMORY g = vt_buf (vterm_of g (displayed_vt g)) \<and>
     cursor_high g = ucast (drop_bit 8 (cursor_pos (vterm_of g (displayed_vt g)))) \<and>
     cursor_low g = ucast (cursor_pos (vterm_of g (displayed_vt g)) AND 0xFF)"

lemma vt_index: "v < VGA_VT_MAX \<Longrightarrow> unat v < 4"
  by (simp add: VGA_VT_MAX_def word_less_nat_alt)

lemma valid_vt_less [simp]: "valid_vt v < VGA_VT_MAX"
  by (simp add: valid_vt_def VGA_VT_MAX_def not_le)

lemma vterm_of_upd [simp]:
  "vga_ok g \<Longrightarrow> v < VGA_VT_MAX \<Longrightarrow> vterm_of (upd_vterm g v f) w = (if w = v then f (vterm_of g v) else vterm_of g w)"
  using vt_index [of v] by (simp add: vterm_of_def upd_vterm_def vga_ok_def nth_list_update word_unat_eq_iff)

lemma upd_vterm_fields [simp]:
  "displayed_vt (upd_vterm g v f) = displayed_vt g" "VGA_MEMORY (upd_vterm g v f) = VGA_MEMORY g"
  "cursor_high (upd_vterm g v f) = cursor_high g" "cursor_low (upd_vterm g v f) = cursor_low g"
  by (simp_all add: upd_vterm_def)

lemma vterm_of_cursor_shown [simp]: "vterm_of (cursor_shown g v) w = vterm_of g w"
  by (simp add: cursor_shown_def vga_update_cursor_def vterm_of_def Let_def)

lemma vga_ok_vterm: "vga_ok g \<Longrightarrow> v < VGA_VT_MAX \<Longrightarrow> vterm_ok (vterm_of g v)"
  using vt_index [of v] by (simp add: vga_ok_def vterm_of_def)

lemma vga_ok_upd: "vga_ok g \<Longrightarrow> v < VGA_VT_MAX \<Longrightarrow> vterm_ok (f (vterm_of g v)) \<Longrightarrow> vga_ok (upd_vterm g v f)"
  by (auto simp: vga_ok_def upd_vterm_def vterm_of_def dest!: subsetD [OF set_update_subset_insert])

lemma map_nth_all: "length xs = n \<Longrightarrow> map (\<lambda>i. xs ! i) [0..<n] = xs"
  using map_nth [of xs] by auto

lemma show_vt_ok:
  assumes "vga_ok g" "v = displayed_vt g \<or> shown g"
  shows "vga_ok (show_vt g v) \<and> shown (show_vt g v) \<and> vterms (show_vt g v) = vterms g \<and> displayed_vt (show_vt g v) = displayed_vt g"
proof -
  have d: "displayed_vt g < VGA_VT_MAX" using assms(1) by (simp add: vga_ok_def)
  have "length (vt_buf (vterm_of g (displayed_vt g))) = VGA_CELLS"
    using vga_ok_vterm [OF assms(1) d] by (simp add: vterm_ok_def)
  from map_nth_all [OF this] show ?thesis using assms
    by (auto simp: show_vt_def shown_def vga_flush_def vga_update_cursor_def vga_ok_def vterm_of_def Let_def)
qed

lemma cursor_shown_ok:
  assumes "vga_ok g" "v < VGA_VT_MAX" "shown g" "vt_buf (f (vterm_of g v)) = vt_buf (vterm_of g v)" "vterm_ok (f (vterm_of g v))"
  shows "vga_ok (cursor_shown (upd_vterm g v f) v) \<and> shown (cursor_shown (upd_vterm g v f) v)"
proof -
  have u: "vga_ok (upd_vterm g v f)" by (rule vga_ok_upd [of g v f, OF assms(1,2,5)])
  have "displayed_vt g < VGA_VT_MAX" using assms(1) by (simp add: vga_ok_def)
  moreover have "vterm_of (vga_update_cursor h) w = vterm_of h w" for h w
    by (simp add: vterm_of_def vga_update_cursor_def Let_def)
  moreover have "vga_ok (vga_update_cursor h) = vga_ok h" for h
    by (simp add: vga_ok_def vga_update_cursor_def Let_def)
  ultimately show ?thesis
    using assms u by (auto simp: cursor_shown_def shown_def) (auto simp: vga_update_cursor_def Let_def)
qed

lemma upd_shown:
  assumes "vga_ok g" "v < VGA_VT_MAX" "shown g" "vterm_ok (f (vterm_of g v))"
  shows "vga_ok (show_vt (upd_vterm g v f) v) \<and> shown (show_vt (upd_vterm g v f) v)"
proof -
  have d: "displayed_vt g < VGA_VT_MAX" using assms(1) by (simp add: vga_ok_def)
  have "v = displayed_vt (upd_vterm g v f) \<or> shown (upd_vterm g v f)"
    using assms(1-3) d by (cases "v = displayed_vt g") (auto simp: shown_def)
  then show ?thesis using show_vt_ok [OF vga_ok_upd [of g v f, OF assms(1,2,4)]] by blast
qed

text \<open>Drawing a character on a well-formed terminal succeeds and keeps it well-formed.\<close>

lemma cell_index_bound: "vt_x t < VGA_COLS \<Longrightarrow> vt_y t < VGA_ROWS \<Longrightarrow> cell_index t < VGA_CELLS"
  by (simp add: cell_index_def VGA_COLS_def VGA_ROWS_def VGA_CELLS_def word_less_nat_alt)

lemma col_inc: "x < VGA_COLS \<Longrightarrow> x + 1 \<le> VGA_COLS" "y < VGA_ROWS \<Longrightarrow> y + 1 \<le> VGA_ROWS"
  using unat_inc [of x VGA_COLS] unat_inc [of y VGA_ROWS]
  by (auto simp: word_le_nat_alt word_less_nat_alt VGA_COLS_def VGA_ROWS_def unat_word_ariths)


definition drawn :: "vterm \<Rightarrow> bool" where
  "drawn t \<longleftrightarrow> length (vt_buf t) = VGA_CELLS \<and>
     (vt_x t \<le> VGA_COLS \<and> vt_y t < VGA_ROWS \<or> vt_x t = 0 \<and> vt_y t \<le> VGA_ROWS)"

lemma wrap_cursor_ok: "drawn t \<Longrightarrow> vterm_ok (wrap_cursor t)"
proof -
  assume d: "drawn t"
  let ?u = "if vt_x t \<ge> VGA_COLS then t\<lparr>vt_x := 0, vt_y := vt_y t + 1\<rparr> else t"
  have "length (vt_buf ?u) = VGA_CELLS" "vt_x ?u < VGA_COLS" using d by (auto simp: drawn_def VGA_COLS_def not_le)
  then show ?thesis by (auto simp: wrap_cursor_def vterm_ok_def vt_scroll_def Let_def not_le VGA_ROWS_def)
qed

lemma tab_stop:
  assumes "x < VGA_COLS"
  shows "(x + 8) AND NOT 7 \<le> VGA_COLS"
proof -
  have "unat x < 80" using assms by (simp add: VGA_COLS_def word_less_nat_alt)
  then have n: "unat (x + 8) = unat x + 8" by (simp add: unat_word_ariths)
  have "(x + 8) AND NOT (mask 3) = push_bit 3 (drop_bit 3 (x + 8))"
    by (rule bit_word_eqI) (auto simp: bit_simps)
  then have "unat ((x + 8) AND NOT (mask 3)) = unat (push_bit 3 (drop_bit 3 (x + 8)))" by simp
  also have "\<dots> = (unat (x + 8) div 8) * 8"
    using n \<open>unat x < 80\<close>
    by (simp add: push_bit_eq_mult unat_word_ariths unsigned_drop_bit_eq drop_bit_eq_div)
  finally have "unat ((x + 8) AND NOT (mask 3)) \<le> 80" using n \<open>unat x < 80\<close> by simp
  then show ?thesis by (simp add: VGA_COLS_def word_le_nat_alt mask_eq_exp_minus_1)
qed

lemma draw_char_ok:
  assumes "vterm_ok t"
  shows "\<exists>u. draw_char t c = Some u \<and> drawn u"
proof -
  have t: "length (vt_buf t) = VGA_CELLS" "vt_x t < VGA_COLS" "vt_y t < VGA_ROWS" using assms by (auto simp: vterm_ok_def)
  have le: "vt_x t \<le> VGA_COLS" "0 \<le> VGA_COLS" using t by simp_all
  consider (nl) "c = 10" | (cr) "c = 13" | (tab) "c = 9" | (bs) "c = 8" | (plain) "c \<notin> {10, 13, 9, 8}" by blast
  then show ?thesis
  proof cases
    case bs
    let ?u = "t\<lparr>vt_x := vt_x t - 1\<rparr>"
    have "vt_x t - 1 < VGA_COLS" if "vt_x t > 0" using t(2) that by (simp add: unat_arith_simps VGA_COLS_def) 
    then have "cell_index ?u < VGA_CELLS" "vt_x t - 1 \<le> VGA_COLS" if "vt_x t > 0" using cell_index_bound [of ?u] t that by simp_all
    then show ?thesis using bs t le by (auto simp: draw_char_def put_cell_def drawn_def Let_def)
  next
    case plain
    then show ?thesis using t col_inc(1) [OF t(2)] cell_index_bound [OF t(2,3)]
      by (auto simp: draw_char_def put_cell_def drawn_def)
  qed (use t le col_inc(2) [OF t(3)] tab_stop [OF t(2)] in \<open>auto simp: draw_char_def drawn_def\<close>)
qed

lemma putc_ok:
  assumes "vga_ok g" "shown g" "v < VGA_VT_MAX"
  shows "\<exists>g'. vt_putc_impl g v c = Some g' \<and> vga_ok g' \<and> shown g'"
proof -
  obtain u where u: "draw_char (vterm_of g v) c = Some u" "drawn u"
    using draw_char_ok [OF vga_ok_vterm [OF assms(1,3)]] by blast
  then show ?thesis
    using upd_shown [of g v "\<lambda>_. wrap_cursor u"] assms wrap_cursor_ok [OF u(2)] by (simp add: vt_putc_impl_def)
qed

lemma fill_cells_ok:
  assumes "vga_ok g" "shown g" "v < VGA_VT_MAX" "a \<le> b" "b \<le> VGA_CELLS"
  shows "\<exists>t. fill_cells (vterm_of g v) a b c = Some t \<and> vga_ok (show_vt (upd_vterm g v (\<lambda>_. t)) v) \<and> shown (show_vt (upd_vterm g v (\<lambda>_. t)) v)"
proof -
  have "vterm_ok (vterm_of g v)" by (rule vga_ok_vterm [OF assms(1,3)])
  then obtain t where "fill_cells (vterm_of g v) a b c = Some t" "vterm_ok t"
    using assms(4,5) by (cases "b = a") (simp_all add: fill_cells_def vterm_ok_def)
  then show ?thesis using upd_shown [of g v "\<lambda>_. t"] assms(1-3) by auto
qed

lemma clamp16_less: "0 < n \<Longrightarrow> uint n < 2 ^ 15 \<Longrightarrow> clamp16 x n < n"
proof -
  assume n: "0 < n" "uint n < 2 ^ 15"
  have "x < n" if "0 \<le> sint x" "sint x < uint n"
  proof -
    have "uint x = take_bit 16 (sint x)" using uint_sint [of x] by simp
    also have "\<dots> = sint x" using that n(2) by (intro take_bit_int_eq_self) auto
    finally have "uint x = sint x" .
    then show ?thesis using that(2) by (simp add: word_less_def)
  qed
  moreover have "n - 1 < n" using n(1) by (metis diff_0_right word_coorder.extremum_strict less_eq_dec_iff sub_wrap)
  ultimately show ?thesis using n(1) by (simp add: clamp16_def)
qed

inductive vga_reach :: "vga \<Rightarrow> bool" where
  start: "length (vterms g) = 4 \<Longrightarrow> vga_reach (vga_init g)"
| putc: "vga_reach g \<Longrightarrow> vga_vt_putc g v c = Some g' \<Longrightarrow> vga_reach g'"
| drv_putc: "vga_reach g \<Longrightarrow> vga_putc g c = Some g' \<Longrightarrow> vga_reach g'"
| putc_at: "vga_reach g \<Longrightarrow> vga_putc_at g x y c = Some g' \<Longrightarrow> vga_reach g'"
| clear: "vga_reach g \<Longrightarrow> vga_reach (vga_vt_clear g v)"
| drv_clear: "vga_reach g \<Longrightarrow> vga_reach (vga_clear g)"
| switch: "vga_reach g \<Longrightarrow> vga_reach (vga_vt_switch g v)"
| cursor: "vga_reach g \<Longrightarrow> x < VGA_COLS \<Longrightarrow> y < VGA_ROWS \<Longrightarrow> vga_reach (vga_vt_set_cursor g v x y)"
| move: "vga_reach g \<Longrightarrow> vga_reach (vga_vt_move_cursor g v dx dy)"
| eol: "vga_reach g \<Longrightarrow> vga_vt_clear_to_eol g v = Some g' \<Longrightarrow> vga_reach g'"
| clear_line: "vga_reach g \<Longrightarrow> vga_vt_clear_line g v = Some g' \<Longrightarrow> vga_reach g'"
| escreen: "vga_reach g \<Longrightarrow> vga_vt_clear_to_escreen g v = Some g' \<Longrightarrow> vga_reach g'"
| reverse: "vga_reach g \<Longrightarrow> vga_reach (vga_vt_set_reverse g v b)"
| fg: "vga_reach g \<Longrightarrow> vga_reach (vga_vt_set_fg_color g v col)"
| bg: "vga_reach g \<Longrightarrow> vga_reach (vga_vt_set_bg_color g v col)"
| visible: "vga_reach g \<Longrightarrow> vga_reach (vga_vt_set_cursor_visible g v b)"

lemma vterm_row: "vterm_ok t \<Longrightarrow> unat (vt_y t) * 80 + 80 \<le> VGA_CELLS \<and> cell_index t \<le> unat (vt_y t) * 80 + 80 \<and> cell_index t \<le> VGA_CELLS"
  by (auto simp: vterm_ok_def cell_index_def VGA_CELLS_def VGA_COLS_def VGA_ROWS_def word_less_nat_alt)

lemma colour_ok:
  assumes "vga_ok g" "shown g" "v < VGA_VT_MAX" "\<And>t. vt_buf (f t) = vt_buf t \<and> vt_x (f t) = vt_x t \<and> vt_y (f t) = vt_y t \<and> vt_cursor_visible (f t) = vt_cursor_visible t"
  shows "vga_ok (upd_vterm g v f) \<and> shown (upd_vterm g v f)"
proof -
  have d: "displayed_vt g < VGA_VT_MAX" using assms(1) by (simp add: vga_ok_def)
  have "vterm_ok (f (vterm_of g v))" using vga_ok_vterm [OF assms(1,3)] assms(4) by (simp add: vterm_ok_def)
  moreover have "cursor_pos (f t) = cursor_pos t" for t using assms(4) by (simp add: cursor_pos_def)
  ultimately show ?thesis using vga_ok_upd [of g v f] assms d by (simp add: shown_def)
qed

lemma init_ok: "length (vterms g) = 4 \<Longrightarrow> vga_ok (vga_init g) \<and> shown (vga_init g)"
proof -
  assume "length (vterms g) = 4"
  then obtain a b c d where "vterms g = [a, b, c, d]" by (auto simp: numeral_eq_Suc length_Suc_conv)
  moreover have "map ((!) (replicate n x)) [0..<n] = replicate n x" for n and x :: u16
    using map_nth_all [of "replicate n x" n] by simp
  ultimately show ?thesis
    by (simp add: vga_init_def upd_vterm_def vt_clear_impl_def show_vt_def vga_flush_def vga_update_cursor_def
        vterm_of_def vga_ok_def vterm_ok_def shown_def cursor_pos_def VGA_COLS_def VGA_ROWS_def VGA_VT_MAX_def Let_def)
qed

lemma putc_at_ok:
  assumes "vga_ok g" "shown g" "vga_putc_at g x y c = Some g'"
  shows "vga_ok g' \<and> shown g'"
proof (cases "x \<ge> VGA_COLS \<or> y \<ge> VGA_ROWS")
  case True
  then show ?thesis using assms by (simp add: vga_putc_at_def Let_def)
next
  case False
  let ?v = "displayed_vt g" and ?i = "unat y * 80 + unat x"
  have d: "?v < VGA_VT_MAX" "vterm_ok (vterm_of g ?v)" using assms vga_ok_vterm [of g ?v] by (auto simp: vga_ok_def)
  have i: "?i < VGA_CELLS" using False by (auto simp: VGA_CELLS_def VGA_COLS_def VGA_ROWS_def not_le word_less_nat_alt)
  let ?t = "(vterm_of g ?v)\<lparr>vt_buf := (vt_buf (vterm_of g ?v))[?i := vga_cell c (vga_attr (vterm_of g ?v))]\<rparr>"
  have g': "g' = (upd_vterm g ?v (\<lambda>_. ?t))\<lparr>VGA_MEMORY := (VGA_MEMORY g)[?i := vt_buf ?t ! ?i]\<rparr>"
    using assms(3) False i by (auto simp: vga_putc_at_def put_cell_def Let_def)
  have "vterm_ok ?t" using d by (simp add: vterm_ok_def)
  then have "vga_ok (upd_vterm g ?v (\<lambda>_. ?t))" using d(1) assms(1) by (intro vga_ok_upd) auto
  moreover have "vterm_of (h\<lparr>VGA_MEMORY := m\<rparr>) w = vterm_of h w" "vga_ok (h\<lparr>VGA_MEMORY := m\<rparr>) = vga_ok h" for h m w
    by (simp_all add: vterm_of_def vga_ok_def)
  moreover have "cursor_pos ?t = cursor_pos (vterm_of g ?v)" by (simp add: cursor_pos_def)
  ultimately show ?thesis unfolding g' using assms d i by (simp add: shown_def vterm_ok_def)
qed

lemma switch_ok: "vga_ok g \<Longrightarrow> shown g \<Longrightarrow> vga_ok (vga_vt_switch g v) \<and> shown (vga_vt_switch g v)"
  using show_vt_ok [of "g\<lparr>displayed_vt := v\<rparr>" v]
  by (cases "v \<ge> VGA_VT_MAX") (simp_all add: vga_vt_switch_def show_vt_def vga_ok_def not_le)

lemma clear_ok: "vga_ok g \<Longrightarrow> shown g \<Longrightarrow> v < VGA_VT_MAX \<Longrightarrow> vga_ok (vt_clear_impl g v) \<and> shown (vt_clear_impl g v)"
  unfolding vt_clear_impl_def Let_def by (rule upd_shown) (simp_all add: vterm_ok_def VGA_COLS_def VGA_ROWS_def)

lemma set_cursor_ok:
  assumes "vga_ok g" "shown g"
  shows "x < VGA_COLS \<Longrightarrow> y < VGA_ROWS \<Longrightarrow> vga_ok (vga_vt_set_cursor g v x y) \<and> shown (vga_vt_set_cursor g v x y)"
    "vga_ok (vga_vt_move_cursor g v dx dy) \<and> shown (vga_vt_move_cursor g v dx dy)"
    "vga_ok (vga_vt_set_cursor_visible g v b) \<and> shown (vga_vt_set_cursor_visible g v b)"
  using vga_ok_vterm [OF assms(1), of "valid_vt v"] assms
  unfolding vga_vt_set_cursor_def vga_vt_move_cursor_def vga_vt_set_cursor_visible_def Let_def
  by (intro cursor_shown_ok; simp add: vterm_ok_def clamp16_less VGA_COLS_def VGA_ROWS_def)+

lemma clears_ok:
  assumes "vga_ok g" "shown g"
  shows "\<exists>g'. vga_vt_clear_to_eol g v = Some g' \<and> vga_ok g' \<and> shown g'"
    "\<exists>g'. vga_vt_clear_line g v = Some g' \<and> vga_ok g' \<and> shown g'"
    "\<exists>g'. vga_vt_clear_to_escreen g v = Some g' \<and> vga_ok g' \<and> shown g'"
proof -
  note f = fill_cells_ok [OF assms valid_vt_less [of v]] and r = vterm_row [OF vga_ok_vterm [OF assms(1) valid_vt_less [of v]]]
  let ?t = "vterm_of g (valid_vt v)"
  show "\<exists>g'. vga_vt_clear_to_eol g v = Some g' \<and> vga_ok g' \<and> shown g'"
    using f [of "cell_index ?t" "unat (vt_y ?t) * 80 + 80" "blank_cell ?t"] r by (auto simp: vga_vt_clear_to_eol_def Let_def)
  show "\<exists>g'. vga_vt_clear_line g v = Some g' \<and> vga_ok g' \<and> shown g'"
    using f [of "unat (vt_y ?t) * 80" "unat (vt_y ?t) * 80 + 80" "blank_cell ?t"] r by (auto simp: vga_vt_clear_line_def Let_def)
  show "\<exists>g'. vga_vt_clear_to_escreen g v = Some g' \<and> vga_ok g' \<and> shown g'"
    using f [of "cell_index ?t" VGA_CELLS "blank_cell ?t"] r by (auto simp: vga_vt_clear_to_escreen_def Let_def)
qed

lemma reach_ok: "vga_reach g \<Longrightarrow> vga_ok g \<and> shown g"
proof (induction rule: vga_reach.induct)
  case (start g)
  then show ?case by (rule init_ok)
next
  case (putc g v c g')
  then show ?case using putc_ok [of g "valid_vt v" c] by (auto simp: vga_vt_putc_def)
next
  case (drv_putc g c g')
  then show ?case using putc_ok [of g "displayed_vt g" c] by (auto simp: vga_putc_def vga_ok_def)
next
  case (putc_at g x y c g')
  then show ?case using putc_at_ok by blast
next
  case (drv_clear g)
  then show ?case using clear_ok [of g "displayed_vt g"] by (simp add: vga_clear_def vga_ok_def)
next
  case (eol g v g')
  then show ?case using clears_ok(1) [of g v] by auto
next
  case (clear_line g v g')
  then show ?case using clears_ok(2) [of g v] by auto
next
  case (escreen g v g')
  then show ?case using clears_ok(3) [of g v] by auto
qed (simp_all add: vga_vt_clear_def clear_ok switch_ok set_cursor_ok colour_ok
    vga_vt_set_reverse_def vga_vt_set_fg_color_def vga_vt_set_bg_color_def)

text \<open>
  C37: the screen always shows the displayed terminal. After initialisation and any sequence of driver
  operations, on any of the terminals, in which the cursor is only set inside the screen, the video memory
  holds exactly the cells of the displayed terminal and the cursor registers its cursor; every cursor is
  inside the screen, and drawing another character or clearing never leaves the arrays.
\<close>

theorem screen_shows_displayed_terminal:
  assumes "vga_reach g"
  shows "vga_ok g \<and> shown g \<and> (\<forall>v c. \<exists>g'. vga_vt_putc g v c = Some g') \<and> (\<forall>v. \<exists>g'. vga_vt_clear_to_eol g v = Some g')"
proof -
  have g: "vga_ok g" "shown g" using reach_ok [OF assms] by auto
  then show ?thesis
    using putc_ok [OF g valid_vt_less] clears_ok(1) [OF g] unfolding vga_vt_putc_def by blast
qed

definition demo_vga :: vga where
  "demo_vga = \<lparr>vterms = replicate 4 \<lparr>vt_buf = replicate 2000 0, vt_x = 0, vt_y = 0, vt_fg = 0, vt_bg = 0,
       vt_reverse = False, vt_cursor_visible = False\<rparr>,
     displayed_vt = 0, VGA_MEMORY = [], cursor_high = 0, cursor_low = 0\<rparr>"

theorem screen_shows_displayed_terminal_witness:
  "vga_reach (vga_vt_switch (vga_init demo_vga) 2) \<and> displayed_vt (vga_vt_switch (vga_init demo_vga) 2) = 2 \<and>
   shown (vga_vt_switch (vga_init demo_vga) 2)"
proof -
  have r: "vga_reach (vga_vt_switch (vga_init demo_vga) 2)"
    by (intro vga_reach.switch vga_reach.start) (simp add: demo_vga_def)
  have "displayed_vt (vga_vt_switch (vga_init demo_vga) 2) = 2"
    by (simp add: vga_vt_switch_def VGA_VT_MAX_def vga_flush_def vga_update_cursor_def Let_def)
  then show ?thesis using r screen_shows_displayed_terminal [OF r] by blast
qed

end
