(* ===== verification/Console.thy ===== *)
theory Console
  imports Vga
begin

text \<open>
  The console: the video stack of \<^verbatim>\<open>driver/stacks/video/video_stack.c\<close>, the serial port of
  \<^verbatim>\<open>arch/x86_64/io/serial.c\<close>, the debug output of \<^verbatim>\<open>init/debug.c\<close> and the terminal that
  \<^verbatim>\<open>arch/x86_64/syscall/syscall_dispatch.c\<close> gives to user programs. The serial line is the list of
  bytes sent and the list of bytes that have arrived; the wait for the transmitter always ends.
\<close>

section \<open>The video stack\<close>

definition VIDEO_MAX_DRIVERS :: nat where [const_defs]: "VIDEO_MAX_DRIVERS = 8"

text \<open>A driver is a record of operations on its own state; the initialisation may be missing.\<close>

record 's video_driver =
  drv_name :: cstring
  drv_init :: "('s \<Rightarrow> 's) option"
  drv_putc :: "'s \<Rightarrow> u8 \<Rightarrow> 's option"
  drv_puts :: "'s \<Rightarrow> cstring \<Rightarrow> 's option"
  drv_clear :: "'s \<Rightarrow> 's"
  drv_set_fg_color :: "'s \<Rightarrow> u8 \<Rightarrow> 's"
  drv_set_bg_color :: "'s \<Rightarrow> u8 \<Rightarrow> 's"
  drv_set_cursor :: "'s \<Rightarrow> u16 \<Rightarrow> u16 \<Rightarrow> 's"
  drv_putc_at :: "'s \<Rightarrow> u16 \<Rightarrow> u16 \<Rightarrow> u8 \<Rightarrow> 's option"
  drv_width :: u16
  drv_height :: u16

record 's video_stack =
  drivers :: "'s video_driver option list"
  driver_count :: u8
  active :: u8

definition video_stack_init :: "'s video_stack" where
  "video_stack_init = \<lparr>drivers = replicate VIDEO_MAX_DRIVERS None, driver_count = 0, active = 0\<rparr>"

definition video_stack_register :: "'s video_stack \<Rightarrow> 's \<Rightarrow> 's video_driver \<Rightarrow> bool \<times> 's video_stack \<times> 's" where
  "video_stack_register w s d =
     (if unat (driver_count w) \<ge> VIDEO_MAX_DRIVERS then (False, w, s)
      else case drv_init d of
        None \<Rightarrow> (False, w, s)
      | Some f \<Rightarrow>
          (True, w\<lparr>drivers := (drivers w)[unat (driver_count w) := Some d], driver_count := driver_count w + 1\<rparr>, f s))"

definition active_driver :: "'s video_stack \<Rightarrow> 's video_driver option" where
  "active_driver w = drivers w ! unat (active w)"

definition video_has_driver :: "'s video_stack \<Rightarrow> bool" where
  "video_has_driver w \<longleftrightarrow> driver_count w > 0 \<and> active_driver w \<noteq> None"

definition video_putc :: "'s video_stack \<Rightarrow> 's \<Rightarrow> u8 \<Rightarrow> 's option" where
  "video_putc w s c = (if \<not> video_has_driver w then Some s else drv_putc (the (active_driver w)) s c)"

definition video_puts :: "'s video_stack \<Rightarrow> 's \<Rightarrow> cstring \<Rightarrow> 's option" where
  "video_puts w s text = (if \<not> video_has_driver w then Some s else drv_puts (the (active_driver w)) s text)"

definition video_clear :: "'s video_stack \<Rightarrow> 's \<Rightarrow> 's" where
  "video_clear w s = (if \<not> video_has_driver w then s else drv_clear (the (active_driver w)) s)"

definition video_set_fg_color :: "'s video_stack \<Rightarrow> 's \<Rightarrow> u8 \<Rightarrow> 's" where
  "video_set_fg_color w s color = (if \<not> video_has_driver w then s else drv_set_fg_color (the (active_driver w)) s color)"

definition video_set_bg_color :: "'s video_stack \<Rightarrow> 's \<Rightarrow> u8 \<Rightarrow> 's" where
  "video_set_bg_color w s color = (if \<not> video_has_driver w then s else drv_set_bg_color (the (active_driver w)) s color)"

definition video_set_cursor :: "'s video_stack \<Rightarrow> 's \<Rightarrow> u16 \<Rightarrow> u16 \<Rightarrow> 's" where
  "video_set_cursor w s x y = (if \<not> video_has_driver w then s else drv_set_cursor (the (active_driver w)) s x y)"

definition video_putc_at :: "'s video_stack \<Rightarrow> 's \<Rightarrow> u16 \<Rightarrow> u16 \<Rightarrow> u8 \<Rightarrow> 's option" where
  "video_putc_at w s x y c = (if \<not> video_has_driver w then Some s else drv_putc_at (the (active_driver w)) s x y c)"

definition video_get_width :: "'s video_stack \<Rightarrow> u16" where
  "video_get_width w = (if \<not> video_has_driver w then 0 else drv_width (the (active_driver w)))"

definition video_get_height :: "'s video_stack \<Rightarrow> u16" where
  "video_get_height w = (if \<not> video_has_driver w then 0 else drv_height (the (active_driver w)))"

definition vga_driver :: "vga video_driver" where
  "vga_driver = \<lparr>drv_name = [86, 71, 65, 32, 84, 101, 120, 116, 32, 68, 114, 105, 118, 101, 114],
     drv_init = Some vga_init, drv_putc = vga_putc, drv_puts = vga_puts, drv_clear = vga_clear,
     drv_set_fg_color = vga_set_fg_color, drv_set_bg_color = vga_set_bg_color, drv_set_cursor = vga_set_cursor,
     drv_putc_at = vga_putc_at, drv_width = VGA_COLS, drv_height = VGA_ROWS\<rparr>"

definition vga_register :: "vga video_stack \<Rightarrow> vga \<Rightarrow> bool \<times> vga video_stack \<times> vga" where
  "vga_register w g = video_stack_register w g vga_driver"

section \<open>Serial line and debug output\<close>

record console =
  video :: "vga video_stack"
  vga_dev :: vga
  serial_out :: "u8 list"
  serial_in :: "u8 list"

definition serial_write_char :: "console \<Rightarrow> u8 \<Rightarrow> console" where
  "serial_write_char k c = k\<lparr>serial_out := serial_out k @ [c]\<rparr>"

fun serial_write :: "console \<Rightarrow> cstring \<Rightarrow> console" where
  "serial_write k [] = k"
| "serial_write k (c # cs) =
     serial_write (serial_write_char (if c = 10 then serial_write_char k 13 else k) c) cs"

definition serial_received :: "console \<Rightarrow> bool" where
  "serial_received k \<longleftrightarrow> serial_in k \<noteq> []"

definition serial_read_char :: "console \<Rightarrow> u8 \<times> console" where
  "serial_read_char k = (hd (serial_in k), k\<lparr>serial_in := tl (serial_in k)\<rparr>)"

definition debug_init :: "console \<Rightarrow> console" where
  "debug_init k =
     (case vga_register video_stack_init (vga_dev k) of (_, w, g) \<Rightarrow>
        k\<lparr>video := w, vga_dev := video_clear w g\<rparr>)"

definition debug_putc :: "console \<Rightarrow> u8 \<Rightarrow> console option" where
  "debug_putc k c =
     (let k = serial_write_char k c
      in if video_has_driver (video k) then do {
           g \<leftarrow> video_putc (video k) (vga_dev k) c;
           Some (k\<lparr>vga_dev := g\<rparr>)
         } else Some k)"

fun debug_puts :: "console \<Rightarrow> cstring \<Rightarrow> console option" where
  "debug_puts k [] = Some k"
| "debug_puts k (c # cs) = do { k \<leftarrow> debug_putc k c; debug_puts k cs }"

text \<open>Formatted output. An argument is a number or a string, which may be the null pointer.\<close>

datatype printf_arg = Num u64 | Text "cstring option"

definition hex_digit :: "bool \<Rightarrow> nat \<Rightarrow> u8" where
  "hex_digit upper d = (if d < 10 then 48 + of_nat d else (if upper then 55 else 87) + of_nat d)"

fun digits_of :: "bool \<Rightarrow> nat \<Rightarrow> nat \<Rightarrow> cstring" where
  "digits_of upper base v =
     (if v = 0 \<or> base < 2 then [] else hex_digit upper (v mod base) # digits_of upper base (v div base))"

declare digits_of.simps [simp del]

definition debug_put_u64 :: "console \<Rightarrow> u64 \<Rightarrow> nat \<Rightarrow> bool \<Rightarrow> console option" where
  "debug_put_u64 k v base upper =
     (if v = 0 then debug_putc k 48 else debug_puts k (rev (digits_of upper base (unat v))))"

definition printf_num :: "console \<Rightarrow> printf_arg list \<Rightarrow> (u64 \<Rightarrow> console \<Rightarrow> console option) \<Rightarrow> (console \<times> printf_arg list) option" where
  "printf_num k args f =
     (case args of Num v # args \<Rightarrow> do { k \<leftarrow> f v k; Some (k, args) } | _ \<Rightarrow> None)"

definition int_arg :: "u64 \<Rightarrow> u64" where
  "int_arg v = ucast (ucast v :: u32)"

definition printf_long :: "console \<Rightarrow> u8 \<Rightarrow> printf_arg list \<Rightarrow> (console \<times> printf_arg list) option" where
  "printf_long k c args =
     (if c = 117 then printf_num k args (\<lambda>v k. debug_put_u64 k v 10 False)
      else if c = 120 then printf_num k args (\<lambda>v k. debug_put_u64 k v 16 False)
      else if c = 88 then printf_num k args (\<lambda>v k. debug_put_u64 k v 16 True)
      else do { k \<leftarrow> debug_puts k [37, 108, c]; Some (k, args) })"

definition printf_conv :: "console \<Rightarrow> u8 \<Rightarrow> printf_arg list \<Rightarrow> (console \<times> printf_arg list) option" where
  "printf_conv k c args =
     (if c = 99 then printf_num k args (\<lambda>v k. debug_putc k (ucast v))
      else if c = 115 then
        (case args of
           Text t # args \<Rightarrow> do {
             k \<leftarrow> debug_puts k (case t of Some cs \<Rightarrow> cs | None \<Rightarrow> [40, 110, 117, 108, 108, 41]);
             Some (k, args)
           }
         | _ \<Rightarrow> None)
      else if c = 100 then printf_num k args (\<lambda>v k.
        if sint (ucast v :: u32) < 0 then do { k \<leftarrow> debug_putc k 45; debug_put_u64 k (ucast (- ucast v :: u32)) 10 False }
        else debug_put_u64 k (int_arg v) 10 False)
      else if c = 117 then printf_num k args (\<lambda>v k. debug_put_u64 k (int_arg v) 10 False)
      else if c = 120 then printf_num k args (\<lambda>v k. debug_put_u64 k (int_arg v) 16 False)
      else if c = 88 then printf_num k args (\<lambda>v k. debug_put_u64 k (int_arg v) 16 True)
      else if c = 112 then printf_num k args (\<lambda>v k. do { k \<leftarrow> debug_puts k [48, 120]; debug_put_u64 k v 16 False })
      else do { k \<leftarrow> debug_puts k [37, c]; Some (k, args) })"

text \<open>A length modifier at the end of the format makes the source read behind its terminator: \<open>None\<close>.\<close>

function debug_vprintf :: "console \<Rightarrow> cstring \<Rightarrow> printf_arg list \<Rightarrow> console option" where
  "debug_vprintf k [] args = Some k"
| "debug_vprintf k (c # fmt) args =
     (if c \<noteq> 37 then do { k \<leftarrow> debug_putc k c; debug_vprintf k fmt args }
      else case fmt of
        [] \<Rightarrow> debug_putc k 37
      | d # rest \<Rightarrow>
          if d = 108 \<or> d = 122 then
            case (if d = 108 \<and> rest \<noteq> [] \<and> hd rest = 108 then tl rest else rest) of
              [] \<Rightarrow> None
            | e # fmt \<Rightarrow> do { (k, args) \<leftarrow> printf_long k e args; debug_vprintf k fmt args }
          else do { (k, args) \<leftarrow> printf_conv k d args; debug_vprintf k rest args })"
  by pat_completeness auto
termination
  by (relation "measure (\<lambda>(k, fmt, args). length fmt)") (auto split: if_splits dest: arg_cong [where f = length])

section \<open>The terminal\<close>

definition sgr_to_vga :: "u32 \<Rightarrow> u8" where
  "sgr_to_vga p =
     (if p = 30 then 0 else if p = 31 then 4 else if p = 32 then 2 else if p = 33 then 14
      else if p = 34 then 1 else if p = 35 then 5 else if p = 36 then 3 else if p = 37 then 7
      else if p = 90 then 8 else if p = 91 then 12 else if p = 92 then 10 else if p = 93 then 14
      else if p = 94 then 9 else if p = 95 then 13 else if p = 96 then 11 else if p = 97 then 15
      else 0xFF)"

text \<open>Parameters are 32-bit signed numbers, \<open>-1\<close> when absent.\<close>

definition csi_param :: "u32 list \<Rightarrow> nat \<Rightarrow> nat \<Rightarrow> u32" where
  "csi_param params n i = (if i < n \<and> sint (params ! i) \<ge> 0 then params ! i else 0)"

definition sgr_apply :: "vga \<Rightarrow> u8 \<Rightarrow> u32 \<Rightarrow> vga" where
  "sgr_apply g v p =
     (let p = (if sint p < 0 then 0 else p)
      in if p = 0 then vga_vt_set_bg_color (vga_vt_set_fg_color (vga_vt_set_reverse g v False) v 7) v 0
         else if p = 7 then vga_vt_set_reverse g v True
         else if p = 39 then vga_vt_set_fg_color g v 7
         else let col = sgr_to_vga p in if col \<noteq> 0xFF then vga_vt_set_fg_color g v col else g)"

definition csi_apply :: "vga \<Rightarrow> u8 \<Rightarrow> bool \<Rightarrow> u32 list \<Rightarrow> nat \<Rightarrow> u8 \<Rightarrow> vga option" where
  "csi_apply g v priv params n final =
     (let p0 = csi_param params n 0; p1 = csi_param params n 1; step = (if sint p0 > 0 then p0 else 1)
      in if priv then
           Some (if p0 = 25 \<and> (final = 108 \<or> final = 104) then vga_vt_set_cursor_visible g v (final = 104) else g)
         else if final = 72 \<or> final = 102 then
           let row = (if sint p0 > 0 then ucast (p0 - 1) else 0); col = (if sint p1 > 0 then ucast (p1 - 1) else 0)
           in Some (vga_vt_set_cursor g v col row)
         else if final = 65 then Some (vga_vt_move_cursor g v 0 (ucast (- step)))
         else if final = 66 then Some (vga_vt_move_cursor g v 0 (ucast step))
         else if final = 67 then Some (vga_vt_move_cursor g v (ucast step) 0)
         else if final = 68 then Some (vga_vt_move_cursor g v (ucast (- step)) 0)
         else if final = 74 then (if p0 = 2 then Some (vga_vt_clear g v) else vga_vt_clear_to_escreen g v)
         else if final = 75 then (if p0 = 2 then vga_vt_clear_line g v else vga_vt_clear_to_eol g v)
         else if final = 109 then Some (foldl (\<lambda>g i. sgr_apply g v (params ! i)) g [0..<n])
         else Some g)"

datatype term_state = T_NORM | T_ESC | T_CSI

record term_parser =
  tstate :: term_state
  params :: "u32 list"
  nparams :: nat
  priv :: bool

definition parser_start :: term_parser where
  "parser_start = \<lparr>tstate = T_NORM, params = replicate 4 0, nparams = 0, priv = False\<rparr>"

definition csi_digit :: "term_parser \<Rightarrow> u8 \<Rightarrow> term_parser" where
  "csi_digit p c =
     (if nparams p < 4 then
        let x = (if sint (params p ! nparams p) < 0 then 0 else params p ! nparams p)
        in p\<lparr>params := (params p)[nparams p := x * 10 + (ucast c - 48)]\<rparr>
      else p)"

definition is_letter :: "u8 \<Rightarrow> bool" where
  "is_letter c \<longleftrightarrow> (65 \<le> c \<and> c \<le> 90) \<or> (97 \<le> c \<and> c \<le> 122)"

text \<open>One byte for a registered driver; the flag asks for the byte to be taken again.\<close>

definition term_byte :: "vga \<Rightarrow> u8 \<Rightarrow> term_parser \<Rightarrow> u8 \<Rightarrow> (bool \<times> vga \<times> term_parser) option" where
  "term_byte g v p c =
     (case tstate p of
        T_NORM \<Rightarrow>
          if c = 0x1b then Some (False, g, p\<lparr>tstate := T_ESC\<rparr>)
          else do { g \<leftarrow> vga_vt_putc g v c; Some (False, g, p) }
      | T_ESC \<Rightarrow>
          if c = 91 then Some (False, g, p\<lparr>tstate := T_CSI, nparams := 0, priv := False, params := replicate 4 (- 1)\<rparr>)
          else do {
            g \<leftarrow> vga_vt_putc g v 0x1b;
            g \<leftarrow> vga_vt_putc g v c;
            Some (False, g, p\<lparr>tstate := T_NORM\<rparr>)
          }
      | T_CSI \<Rightarrow>
          if c = 63 then Some (False, g, p\<lparr>priv := True\<rparr>)
          else if 48 \<le> c \<and> c \<le> 57 then Some (False, g, csi_digit p c)
          else if c = 59 then Some (False, g, if nparams p < 3 then p\<lparr>nparams := nparams p + 1\<rparr> else p)
          else if is_letter c then do {
            g \<leftarrow> csi_apply g v (priv p) (params p) (nparams p + 1) c;
            Some (False, g, p\<lparr>tstate := T_NORM\<rparr>)
          }
          else if c = 0x1b then Some (True, g, p\<lparr>tstate := T_NORM\<rparr>)
          else Some (False, g, p))"

lemma term_byte_again: "term_byte g v p c = Some (True, g', p') \<Longrightarrow> tstate p = T_CSI \<and> tstate p' = T_NORM"
  by (auto simp: term_byte_def bind_eq_Some_conv split: term_state.splits if_splits)

function term_loop :: "console \<Rightarrow> u8 \<Rightarrow> term_parser \<Rightarrow> u8 list \<Rightarrow> console option" where
  "term_loop k v p [] = Some k"
| "term_loop k v p (c # cs) =
     (let k = serial_write_char k c
      in if \<not> video_has_driver (video k) then term_loop k v p cs
         else case term_byte (vga_dev k) v p c of
           None \<Rightarrow> None
         | Some (again, g, p') \<Rightarrow> term_loop (k\<lparr>vga_dev := g\<rparr>) v p' (if again then c # cs else cs))"
  by pat_completeness auto
termination
  by (relation "measure (\<lambda>(k, v, p, cs). 2 * length cs + (if tstate p = T_CSI then 1 else 0))")
    (auto dest!: term_byte_again split: if_splits)

definition term_write :: "console \<Rightarrow> u8 \<Rightarrow> u8 list \<Rightarrow> (u64 \<times> console) option" where
  "term_write k v buf = do {
     k \<leftarrow> term_loop k v parser_start buf;
     Some (of_nat (length buf), k)
   }"

section \<open>Properties of the terminal\<close>

lemma term_loop_driver:
  "video_has_driver (video k) \<Longrightarrow> term_byte (vga_dev k) v p c = Some (False, g, p') \<Longrightarrow>
   term_loop k v p (c # cs) = term_loop (k\<lparr>serial_out := serial_out k @ [c], vga_dev := g\<rparr>) v p' cs"
  by (simp add: serial_write_char_def)

lemma digit_byte:
  assumes "d < 10"
  shows "48 \<le> (48 + of_nat d :: u8)" "(48 + of_nat d :: u8) \<le> 57" "(48 + of_nat d :: u8) \<noteq> 63"
    "ucast (48 + of_nat d :: u8) = (48 + of_nat d :: u32)"
proof -
  have "d \<in> {0, 1, 2, 3, 4, 5, 6, 7, 8, 9}" using assms by auto
  then show "48 \<le> (48 + of_nat d :: u8)" "(48 + of_nat d :: u8) \<le> 57" "(48 + of_nat d :: u8) \<noteq> 63"
    "ucast (48 + of_nat d :: u8) = (48 + of_nat d :: u32)" by auto
qed

lemma small_sint: "unat x < 2 ^ 31 \<Longrightarrow> sint x = int (unat x)" for x :: u32
proof -
  assume "unat x < 2 ^ 31"
  then have "int (unat x) < int (2 ^ 31)" by (simp only: of_nat_less_iff)
  then have a: "uint x < 2 ^ 31" by simp
  have "sint x = signed_take_bit 31 (uint x)" by (simp add: sint_uint)
  also have "\<dots> = uint x" using a uint_ge_0 [of x] by (intro signed_take_bit_int_eq_self) linarith+
  finally show ?thesis by simp
qed

text \<open>
  C38: a user program can make the kernel write outside the cells of a terminal. The cursor-position sequence
  is not checked against the size of the screen: after \<open>ESC [ row H\<close> with a two-digit row above 25, the
  next printable character is stored behind the terminal's 2000 cells.
\<close>

theorem escape_sequence_writes_outside:
  assumes "video_has_driver (video k)" "vga_ok (vga_dev k)"
    and "d1 < 10" "d2 < 10" "25 < 10 * d1 + d2" "32 \<le> c" "c \<noteq> 27"
  shows "term_write k v [27, 91, 48 + of_nat d1, 48 + of_nat d2, 72, c] = None"
proof -
  define row :: u32 where "row = of_nat (10 * d1 + d2)"
  let ?g = "vga_dev k"
  let ?p = "\<lambda>st ps. \<lparr>tstate = st, params = ps, nparams = 0, priv = False\<rparr>"
  have r: "unat row = 10 * d1 + d2" unfolding row_def by (subst unat_of_nat) (use assms(3,4) in simp)
  then have s: "sint row = 10 * int d1 + int d2" using assms(3,4) by (simp add: small_sint)
  have "sint (of_nat d1 :: u32) = int d1" using assms(3) by (simp add: small_sint unat_of_nat)
  then have b4: "term_byte ?g v (?p T_CSI [of_nat d1, - 1, - 1, - 1]) (48 + of_nat d2) = Some (False, ?g, ?p T_CSI [row, - 1, - 1, - 1])"
    using digit_byte [OF assms(4)] by (simp add: term_byte_def csi_digit_def row_def ac_simps)
  have b3: "term_byte ?g v (?p T_CSI [- 1, - 1, - 1, - 1]) (48 + of_nat d1) = Some (False, ?g, ?p T_CSI [of_nat d1, - 1, - 1, - 1])"
    using digit_byte [OF assms(3)] by (simp add: term_byte_def csi_digit_def)
  have b2: "term_byte ?g v (parser_start\<lparr>tstate := T_ESC\<rparr>) 91 = Some (False, ?g, ?p T_CSI [- 1, - 1, - 1, - 1])"
    by (simp add: term_byte_def parser_start_def eval_nat_numeral)
  have b1: "term_byte ?g v parser_start 27 = Some (False, ?g, parser_start\<lparr>tstate := T_ESC\<rparr>)"
    by (simp add: term_byte_def parser_start_def)
  have b5: "term_byte ?g v (?p T_CSI [row, - 1, - 1, - 1]) 72 =
      Some (False, vga_vt_set_cursor ?g v 0 (ucast (row - 1)), ?p T_NORM [row, - 1, - 1, - 1])"
    using s assms(5) by (simp add: term_byte_def is_letter_def csi_apply_def csi_param_def)
  have y: "unat (ucast (row - 1) :: u16) = 10 * d1 + d2 - 1"
  proof -
    have "unat (row - 1) = 10 * d1 + d2 - 1" using r assms(5) by (subst unat_sub) (simp_all add: word_le_nat_alt)
    then show ?thesis using assms(3,4) by (simp add: unsigned_ucast_eq take_bit_nat_eq_self)
  qed
  have "vterm_of (vga_vt_set_cursor ?g v 0 (ucast (row - 1))) (valid_vt v) =
      (vterm_of ?g (valid_vt v))\<lparr>vt_x := 0, vt_y := ucast (row - 1)\<rparr>"
    using assms(2) vterm_of_upd [of ?g "valid_vt v"]
    by (simp add: vga_vt_set_cursor_def Let_def)
  then have "draw_char (vterm_of (vga_vt_set_cursor ?g v 0 (ucast (row - 1))) (valid_vt v)) c = None"
    using assms(5,6) y by (auto simp: draw_char_def put_cell_def cell_index_def VGA_CELLS_def)
  then have b6: "term_byte (vga_vt_set_cursor ?g v 0 (ucast (row - 1))) v (?p T_NORM [row, - 1, - 1, - 1]) c = None"
    using assms(7) by (simp add: term_byte_def vga_vt_putc_def vt_putc_impl_def)
  show ?thesis
    unfolding term_write_def using assms(1) b1 b2 b3 b4 b5 b6 by (simp add: term_loop_driver serial_write_char_def)
qed


text \<open>The console after the boot sequence has set it up.\<close>

definition demo_console :: console where
  "demo_console = debug_init \<lparr>video = video_stack_init, vga_dev = demo_vga, serial_out = [], serial_in = []\<rparr>"

lemma demo_console_ok: "video_has_driver (video demo_console)" "vga_ok (vga_dev demo_console)"
proof -
  have i: "vga_ok (vga_init demo_vga) \<and> shown (vga_init demo_vga)" by (rule init_ok) (simp add: demo_vga_def)
  then have "vga_ok (vga_clear (vga_init demo_vga))"
    using clear_ok [of "vga_init demo_vga" "displayed_vt (vga_init demo_vga)"] by (simp add: vga_clear_def vga_ok_def)
  then show "video_has_driver (video demo_console)" "vga_ok (vga_dev demo_console)"
    by (simp_all add: demo_console_def debug_init_def vga_register_def video_stack_register_def video_stack_init_def
        vga_driver_def video_clear_def video_has_driver_def active_driver_def VIDEO_MAX_DRIVERS_def)
qed

theorem escape_sequence_writes_outside_witness:
  "term_write demo_console 1 [27, 91, 50, 54, 72, 65] = None"
  using escape_sequence_writes_outside [OF demo_console_ok, of 2 6 65 1] by simp

end
