(* ===== verification/Keyboard.thy ===== *)
theory Keyboard
  imports Ring Console
begin

text \<open>
  Keyboard and terminal input: the keyboard stack of \<^verbatim>\<open>driver/stacks/input/keyboard_stack.c\<close> and the
  interrupt handler of \<^verbatim>\<open>driver/buildin/input/ps2/ps2_keyboard.c\<close>. Every virtual terminal has a line
  that is edited until it is complete, and a ring of raw bytes. Echo goes to the console; a call that draws
  outside the screen does not return, the result \<open>None\<close>. Characters are signed bytes.
\<close>

section \<open>State\<close>

definition KEYBOARD_MAX_KEYS :: nat where [const_defs]: "KEYBOARD_MAX_KEYS = 512"
definition KEYBOARD_QUE_SIZE :: u32 where [const_defs]: "KEYBOARD_QUE_SIZE = 256"
definition TTY_LINE_MAX :: nat where [const_defs]: "TTY_LINE_MAX = 256"
definition TTY_VT_MAX :: u8 where [const_defs]: "TTY_VT_MAX = 4"
definition TTY_RAW_MAX :: u32 where [const_defs]: "TTY_RAW_MAX = 256"
definition TTY_LFLAG_ISIG :: u32 where [const_defs]: "TTY_LFLAG_ISIG = 1"
definition TTY_LFLAG_ICANON :: u32 where [const_defs]: "TTY_LFLAG_ICANON = 2"
definition TTY_LFLAG_ECHO :: u32 where [const_defs]: "TTY_LFLAG_ECHO = 0x10"

record keyboard_event =
  keycode :: u16
  ascii :: u8
  pressed :: bool

record dynt_termios =
  c_iflag :: u32
  c_oflag :: u32
  c_cflag :: u32
  c_lflag :: u32
  c_line :: u8
  c_cc :: "u8 list"

record vt_tty =
  tline :: "u8 list"
  tlen :: nat
  tready :: bool
  tsigint :: bool
  raw :: "u8 list"
  raw_head :: u32
  raw_tail :: u32
  termios :: dynt_termios

record tty =
  con :: console
  key_state :: "bool list"
  kshift :: bool
  kctrl :: bool
  kalt :: bool
  kqueue :: "keyboard_event list"
  khead :: u32
  ktail :: u32
  vt_ttys :: "vt_tty list"
  active_vt :: u8

definition tty_of :: "tty \<Rightarrow> u8 \<Rightarrow> vt_tty" where
  "tty_of s v = vt_ttys s ! unat v"

definition upd_tty :: "tty \<Rightarrow> u8 \<Rightarrow> (vt_tty \<Rightarrow> vt_tty) \<Rightarrow> tty" where
  "upd_tty s v f = s\<lparr>vt_ttys := (vt_ttys s)[unat v := f (tty_of s v)]\<rparr>"

definition default_termios :: dynt_termios where
  "default_termios = \<lparr>c_iflag = 0, c_oflag = 0, c_cflag = 0,
     c_lflag = TTY_LFLAG_ISIG OR TTY_LFLAG_ICANON OR TTY_LFLAG_ECHO, c_line = 0,
     c_cc = (replicate 32 0)[6 := 1, 5 := 0]\<rparr>"

definition keyboard_stack_init :: "tty \<Rightarrow> tty" where
  "keyboard_stack_init s =
     s\<lparr>key_state := replicate KEYBOARD_MAX_KEYS False, khead := 0, ktail := 0,
       vt_ttys := map (\<lambda>t. t\<lparr>termios := default_termios, tlen := 0, tline := (tline t)[0 := 0], tready := False,
         tsigint := False, raw_head := 0, raw_tail := 0\<rparr>) (vt_ttys s)\<rparr>"

definition keyboard_is_pressed :: "tty \<Rightarrow> u16 \<Rightarrow> bool option" where
  "keyboard_is_pressed s key = (if unat key < KEYBOARD_MAX_KEYS then Some (key_state s ! unat key) else None)"

definition keyboard_shift :: "tty \<Rightarrow> bool" where "keyboard_shift s = kshift s"
definition keyboard_ctrl :: "tty \<Rightarrow> bool" where "keyboard_ctrl s = kctrl s"
definition keyboard_alt :: "tty \<Rightarrow> bool" where "keyboard_alt s = kalt s"

section \<open>Keys and characters\<close>

definition normal_keys :: "u8 list" where
  "normal_keys = [0, 0, 49, 50, 51, 52, 53, 54, 55, 56, 57, 48, 45, 61, 0, 0,
     113, 119, 101, 114, 116, 121, 117, 105, 111, 112, 91, 93, 10, 0,
     97, 115, 100, 102, 103, 104, 106, 107, 108, 59, 39, 96, 0, 92,
     122, 120, 99, 118, 98, 110, 109, 44, 46, 47, 0, 0, 0, 32]"

definition shifted_keys :: "u8 list" where
  "shifted_keys = [0, 0, 33, 64, 35, 36, 37, 94, 38, 42, 40, 41, 95, 43, 0, 0,
     81, 87, 69, 82, 84, 89, 85, 73, 79, 80, 123, 125, 10, 0,
     65, 83, 68, 70, 71, 72, 74, 75, 76, 58, 34, 126, 0, 124,
     90, 88, 67, 86, 66, 78, 77, 60, 62, 63, 0, 0, 0, 32]"

definition hid_key_to_ascii :: "u16 \<Rightarrow> bool \<Rightarrow> u8" where
  "hid_key_to_ascii key sh =
     (if key \<ge> 0x3A then 0 else if sh then shifted_keys ! unat key else normal_keys ! unat key)"

section \<open>Raw input\<close>

definition push_raw :: "u8 \<Rightarrow> vt_tty \<Rightarrow> vt_tty" where
  "push_raw b t =
     (let nx = (raw_head t + 1) mod TTY_RAW_MAX
      in if nx = raw_tail t then t
         else t\<lparr>raw := (raw t)[unat (raw_head t) := b], raw_head := nx\<rparr>)"

definition tty_push_raw :: "tty \<Rightarrow> u8 \<Rightarrow> u8 \<Rightarrow> tty" where
  "tty_push_raw s v b = upd_tty s v (push_raw b)"

text \<open>The bytes of the keys with a sequence of their own.\<close>

definition key_sequence :: "u16 \<Rightarrow> u8 list option" where
  "key_sequence key =
     (if key = 0x148 then Some [0x1b, 91, 65] else if key = 0x150 then Some [0x1b, 91, 66]
      else if key = 0x14D then Some [0x1b, 91, 67] else if key = 0x14B then Some [0x1b, 91, 68]
      else if key = 0x147 then Some [0x1b, 91, 49, 126] else if key = 0x14F then Some [0x1b, 91, 52, 126]
      else if key = 0x149 then Some [0x1b, 91, 53, 126] else if key = 0x151 then Some [0x1b, 91, 54, 126]
      else if key = 0x153 then Some [0x1b, 91, 51, 126]
      else if key = 0x01 then Some [0x1b] else if key = 0x0F then Some [9]
      else if key = 0x1C then Some [10] else if key = 0x0E then Some [0x7F] else None)"

definition raw_bytes :: "u16 \<Rightarrow> bool \<Rightarrow> bool \<Rightarrow> u8 list" where
  "raw_bytes key sh ct =
     (case key_sequence key of
        Some bs \<Rightarrow> bs
      | None \<Rightarrow>
          let c = hid_key_to_ascii key False; a = hid_key_to_ascii key sh
          in if ct \<and> 97 \<le> c \<and> c \<le> 122 then [c AND 0x1F]
             else if sint a \<ge> 0x20 then [a] else [])"

definition keyboard_raw_push :: "tty \<Rightarrow> u8 \<Rightarrow> u16 \<Rightarrow> bool \<Rightarrow> bool \<Rightarrow> tty" where
  "keyboard_raw_push s v key sh ct = foldl (\<lambda>s b. tty_push_raw s v b) s (raw_bytes key sh ct)"

section \<open>The terminals\<close>

definition tty_vt_switch :: "tty \<Rightarrow> u8 \<Rightarrow> tty" where
  "tty_vt_switch s v =
     (if v \<ge> TTY_VT_MAX then s
      else s\<lparr>active_vt := v, con := (con s)\<lparr>vga_dev := vga_vt_switch (vga_dev (con s)) v\<rparr>\<rparr>)"

definition tty_active_vt :: "tty \<Rightarrow> u8" where "tty_active_vt s = active_vt s"

definition tty_set_mode :: "tty \<Rightarrow> u8 \<Rightarrow> dynt_termios \<Rightarrow> tty" where
  "tty_set_mode s v m =
     (if v \<ge> TTY_VT_MAX then s
      else upd_tty s v (\<lambda>t. t\<lparr>termios := m, tlen := 0, tline := (tline t)[0 := 0], tready := False,
             raw_head := 0, raw_tail := 0\<rparr>))"

definition tty_get_mode :: "tty \<Rightarrow> u8 \<Rightarrow> dynt_termios option" where
  "tty_get_mode s v = (if v \<ge> TTY_VT_MAX then None else Some (termios (tty_of s v)))"

definition tty_raw_mode :: "tty \<Rightarrow> u8 \<Rightarrow> bool" where
  "tty_raw_mode s v \<longleftrightarrow> \<not> v \<ge> TTY_VT_MAX \<and> c_lflag (termios (tty_of s v)) AND TTY_LFLAG_ICANON = 0"

definition tty_raw_available :: "tty \<Rightarrow> u8 \<Rightarrow> u32" where
  "tty_raw_available s v =
     (if v \<ge> TTY_VT_MAX then 0 else (raw_head (tty_of s v) - raw_tail (tty_of s v)) mod TTY_RAW_MAX)"

definition pop_raw :: "vt_tty \<Rightarrow> (u8 \<times> vt_tty) option" where
  "pop_raw t =
     (if raw_tail t = raw_head t then None
      else Some (raw t ! unat (raw_tail t), t\<lparr>raw_tail := (raw_tail t + 1) mod TTY_RAW_MAX\<rparr>))"

fun read_raw_loop :: "vt_tty \<Rightarrow> nat \<Rightarrow> u8 list \<times> vt_tty" where
  "read_raw_loop t 0 = ([], t)"
| "read_raw_loop t (Suc n) =
     (case pop_raw t of
        None \<Rightarrow> ([], t)
      | Some (b, t) \<Rightarrow> case read_raw_loop t n of (bs, t) \<Rightarrow> (b # bs, t))"

text \<open>The bytes go to the buffer of the caller; their number is the result.\<close>

definition tty_read_raw :: "tty \<Rightarrow> u8 \<Rightarrow> u32 \<Rightarrow> u8 list \<times> tty" where
  "tty_read_raw s v len =
     (if v \<ge> TTY_VT_MAX then ([], s)
      else case read_raw_loop (tty_of s v) (unat len) of (bs, t) \<Rightarrow> (bs, upd_tty s v (\<lambda>_. t)))"

definition tty_get_vmin :: "tty \<Rightarrow> u8 \<Rightarrow> u8" where
  "tty_get_vmin s v = (if v \<ge> TTY_VT_MAX then 0 else c_cc (termios (tty_of s v)) ! 6)"

definition tty_get_vtime :: "tty \<Rightarrow> u8 \<Rightarrow> u8" where
  "tty_get_vtime s v = (if v \<ge> TTY_VT_MAX then 0 else c_cc (termios (tty_of s v)) ! 5)"

section \<open>Lines\<close>

definition tty_echo :: "tty \<Rightarrow> cstring \<Rightarrow> tty option" where
  "tty_echo s cs = do { k \<leftarrow> debug_puts (con s) cs; Some (s\<lparr>con := k\<rparr>) }"

definition end_line :: "vt_tty \<Rightarrow> vt_tty" where
  "end_line t =
     (let t = (if tlen t < TTY_LINE_MAX - 1 then t\<lparr>tline := (tline t)[tlen t := 10], tlen := tlen t + 1\<rparr> else t)
      in t\<lparr>tline := (tline t)[tlen t := 0], tready := True\<rparr>)"

definition tty_input_char :: "tty \<Rightarrow> u8 \<Rightarrow> tty option" where
  "tty_input_char s c =
     (let v = active_vt s; t = tty_of s v
      in if tready t then Some s
         else if c = 10 then tty_echo (upd_tty s v end_line) [10]
         else if c = 8 \<or> c = 0x7F then
           if tlen t > 0
           then tty_echo (upd_tty s v (\<lambda>t. t\<lparr>tlen := tlen t - 1, tline := (tline t)[tlen t - 1 := 0]\<rparr>)) [8, 32, 8]
           else Some s
         else if sint c \<ge> 1 \<and> tlen t < TTY_LINE_MAX - 1 then
           let s = upd_tty s v (\<lambda>t. t\<lparr>tline := (tline t)[tlen t := c], tlen := tlen t + 1\<rparr>)
           in if sint c \<ge> 0x20 then tty_echo s [c] else Some s
         else Some s)"

definition tty_sigint_trigger :: "tty \<Rightarrow> u8 \<Rightarrow> tty option" where
  "tty_sigint_trigger s v =
     (if v \<ge> TTY_VT_MAX then Some s
      else tty_echo (upd_tty s v (\<lambda>t. t\<lparr>tsigint := True, tlen := 0, tline := (tline t)[0 := 0], tready := False\<rparr>))
             [94, 67, 10])"

definition tty_sigint_consume :: "tty \<Rightarrow> u8 \<Rightarrow> bool \<times> tty" where
  "tty_sigint_consume s v =
     (if v \<ge> TTY_VT_MAX then (False, s)
      else if tsigint (tty_of s v) then (True, upd_tty s v (\<lambda>t. t\<lparr>tsigint := False\<rparr>))
      else (False, s))"

text \<open>
  The bytes stored to the buffer, which a zero follows; their number is the result. A size below 1 makes the
  function store in front of the buffer.
\<close>

definition tty_getline :: "tty \<Rightarrow> u8 \<Rightarrow> int \<Rightarrow> (u8 list option \<times> tty) option" where
  "tty_getline s v sz =
     (if v \<ge> TTY_VT_MAX then Some (None, s)
      else let t = tty_of s v
           in if \<not> tready t then Some (None, s)
              else let n = (if int (tlen t) > sz - 1 then sz - 1 else int (tlen t))
                   in if n < 0 then None
                      else Some (Some (take (nat n) (tline t)), upd_tty s v (\<lambda>t. t\<lparr>tlen := 0, tready := False\<rparr>)))"

definition tty_line_ready :: "tty \<Rightarrow> u8 \<Rightarrow> bool" where
  "tty_line_ready s v \<longleftrightarrow> \<not> v \<ge> TTY_VT_MAX \<and> tready (tty_of s v)"

fun drain_loop :: "tty \<Rightarrow> u8 \<Rightarrow> u8 list \<Rightarrow> tty option" where
  "drain_loop s v [] = Some s"
| "drain_loop s v (c # cs) =
     (let s = s\<lparr>con := snd (serial_read_char (con s))\<rparr>
      in do {
        s \<leftarrow> (if tty_raw_mode s v then Some (tty_push_raw s v c) else tty_input_char s c);
        drain_loop s v cs
      })"

definition tty_drain_serial :: "tty \<Rightarrow> tty option" where
  "tty_drain_serial s = drain_loop s (tty_active_vt s) (serial_in (con s))"

section \<open>Key events\<close>

definition push_event :: "keyboard_event \<Rightarrow> tty \<Rightarrow> tty" where
  "push_event e s =
     (let nx = (khead s + 1) mod KEYBOARD_QUE_SIZE
      in if nx \<noteq> ktail s then s\<lparr>kqueue := (kqueue s)[unat (khead s) := e], khead := nx\<rparr> else s)"

definition keyboard_poll_event :: "tty \<Rightarrow> (keyboard_event \<times> tty) option" where
  "keyboard_poll_event s =
     (if khead s = ktail s then None
      else Some (kqueue s ! unat (ktail s), s\<lparr>ktail := (ktail s + 1) mod KEYBOARD_QUE_SIZE\<rparr>))"

definition keyboard_getchar :: "tty \<Rightarrow> u8 \<times> tty" where
  "keyboard_getchar s = (case keyboard_poll_event s of None \<Rightarrow> (0, s) | Some (e, s) \<Rightarrow> (ascii e, s))"

definition set_modifiers :: "u16 \<Rightarrow> bool \<Rightarrow> tty \<Rightarrow> tty" where
  "set_modifiers key p s =
     (if key = 0x2A \<or> key = 0x36 then s\<lparr>kshift := p\<rparr>
      else if key = 0x1D \<or> key = 0x11D then s\<lparr>kctrl := p\<rparr>
      else if key = 0x38 \<or> key = 0x138 then s\<lparr>kalt := p\<rparr> else s)"

definition echo_raw :: "tty \<Rightarrow> u8 \<Rightarrow> u16 \<Rightarrow> tty option" where
  "echo_raw s v key =
     (let a = hid_key_to_ascii key (kshift s)
      in if c_lflag (termios (tty_of s v)) AND TTY_LFLAG_ECHO \<noteq> 0 \<and>
            key \<notin> {0x148, 0x150, 0x14B, 0x14D, 0x147, 0x14F, 0x149, 0x151, 0x153} \<and> sint a \<ge> 0x20
         then do {
           s \<leftarrow> tty_echo s [a];
           g \<leftarrow> vga_vt_putc (vga_dev (con s)) v a;
           Some (s\<lparr>con := (con s)\<lparr>vga_dev := g\<rparr>\<rparr>)
         } else Some s)"

definition keyboard_report_key :: "tty \<Rightarrow> u16 \<Rightarrow> bool \<Rightarrow> tty option" where
  "keyboard_report_key s key p =
     (if unat key \<ge> KEYBOARD_MAX_KEYS then None
      else let s = set_modifiers key p (s\<lparr>key_state := (key_state s)[unat key := p]\<rparr>);
               a = hid_key_to_ascii key (kshift s);
               s = push_event \<lparr>keycode = key, ascii = a, pressed = p\<rparr> s
           in if kctrl s \<and> kalt s \<and> 0x3B \<le> key \<and> key \<le> 0x40 then Some (tty_vt_switch s (ucast (key - 0x3B)))
              else let v = tty_active_vt s
                   in if tty_raw_mode s v then
                        if \<not> p then Some s
                        else do { s \<leftarrow> echo_raw s v key; Some (keyboard_raw_push s v key (kshift s) (kctrl s)) }
                      else if \<not> p then Some s
                      else if kctrl s \<and> key = 0x2E \<and> c_lflag (termios (tty_of s v)) AND TTY_LFLAG_ISIG \<noteq> 0
                      then tty_sigint_trigger s v
                      else if key = 0x1C then tty_input_char s 10
                      else if key = 0x0E then tty_input_char s 8
                      else if a \<noteq> 0 then tty_input_char s a
                      else Some s)"

section \<open>The PS/2 keyboard\<close>

record ps2_keyboard =
  ps2_extended :: bool
  ps2_released :: bool

definition ps2_keyboard_irq :: "ps2_keyboard \<Rightarrow> tty \<Rightarrow> u8 \<Rightarrow> (ps2_keyboard \<times> tty) option" where
  "ps2_keyboard_irq d s byte =
     (if byte = 0xFA \<or> byte = 0 then Some (d\<lparr>ps2_extended := False, ps2_released := False\<rparr>, s)
      else if byte = 0xE0 then Some (d\<lparr>ps2_extended := True\<rparr>, s)
      else if byte = 0xF0 then Some (d\<lparr>ps2_released := True\<rparr>, s)
      else let d = (if byte AND 0x80 \<noteq> 0 then d\<lparr>ps2_released := True\<rparr> else d);
               byte = (if byte AND 0x80 \<noteq> 0 then byte AND NOT 0x80 else byte);
               key = (if ps2_extended d then ucast byte OR 0x100 else ucast byte)
           in do {
             s \<leftarrow> keyboard_report_key s key (\<not> ps2_released d);
             Some (d\<lparr>ps2_extended := False, ps2_released := False\<rparr>, s)
           })"

section \<open>Well-formed input state\<close>

definition con_ok :: "console \<Rightarrow> bool" where
  "con_ok k \<longleftrightarrow> vga_ok (vga_dev k) \<and> shown (vga_dev k) \<and>
     (video_has_driver (video k) \<longrightarrow> active_driver (video k) = Some vga_driver)"

definition vt_ok :: "vt_tty \<Rightarrow> bool" where
  "vt_ok t \<longleftrightarrow> length (tline t) = TTY_LINE_MAX \<and> tlen t < TTY_LINE_MAX \<and> length (raw t) = unat TTY_RAW_MAX \<and>
     raw_head t < TTY_RAW_MAX \<and> raw_tail t < TTY_RAW_MAX \<and> length (c_cc (termios t)) = 32"

definition events_ok :: "tty \<Rightarrow> bool" where
  "events_ok s \<longleftrightarrow> length (kqueue s) = unat KEYBOARD_QUE_SIZE \<and> khead s < KEYBOARD_QUE_SIZE \<and> ktail s < KEYBOARD_QUE_SIZE"

definition tty_ok :: "tty \<Rightarrow> bool" where
  "tty_ok s \<longleftrightarrow> length (vt_ttys s) = 4 \<and> active_vt s < TTY_VT_MAX \<and> (\<forall>t \<in> set (vt_ttys s). vt_ok t) \<and>
     length (key_state s) = KEYBOARD_MAX_KEYS \<and> events_ok s \<and> con_ok (con s) \<and>
     displayed_vt (vga_dev (con s)) = active_vt s"

definition raw_items :: "vt_tty \<Rightarrow> u8 list" where
  "raw_items t = ring_items (raw t) (unat (raw_head t)) (unat (raw_tail t))"

definition event_items :: "tty \<Rightarrow> keyboard_event list" where
  "event_items s = ring_items (kqueue s) (unat (khead s)) (unat (ktail s))"

lemma push_raw_eq:
  assumes "vt_ok t"
  shows "vt_ok (push_raw b t)"
    "raw_items (push_raw b t) = (if length (raw_items t) < 255 then raw_items t @ [b] else raw_items t)"
proof -
  have h: "raw_head t < 256" "raw_tail t < 256" "length (raw t) = 256" using assms by (auto simp: vt_ok_def const_defs)
  note n = ring_next_word [OF h(1)]
  have u: "unat (raw_head t) < length (raw t)" "unat (raw_tail t) < length (raw t)"
    using h by (simp_all add: word_less_nat_alt)
  have e: "(raw_head t + 1) mod 256 = raw_tail t \<longleftrightarrow> (unat (raw_head t) + 1) mod length (raw t) = unat (raw_tail t)"
    using n(1) h(3) by (simp add: word_unat_eq_iff)
  show "vt_ok (push_raw b t)" using assms n(2) by (auto simp: vt_ok_def push_raw_def const_defs Let_def)
  show "raw_items (push_raw b t) = (if length (raw_items t) < 255 then raw_items t @ [b] else raw_items t)"
    using ring_store [OF u, of b] e n(1) h(3)
    by (auto simp: raw_items_def push_raw_def Let_def TTY_RAW_MAX_def split: if_splits)
qed

interpretation rawq: bounded_queue vt_ok raw_items push_raw pop_raw 255
proof
  fix t :: vt_tty and b x xs
  assume t: "vt_ok t"
  show "vt_ok (push_raw b t)"
    "raw_items (push_raw b t) = (if length (raw_items t) < 255 then raw_items t @ [b] else raw_items t)"
    using push_raw_eq [OF t] by auto
  have h: "raw_head t < 256" "raw_tail t < 256" "length (raw t) = 256" using t by (auto simp: vt_ok_def const_defs)
  have u: "unat (raw_head t) < length (raw t)" "unat (raw_tail t) < length (raw t)"
    using h by (simp_all add: word_less_nat_alt)
  note n = ring_next_word [OF h(2)]
  have ne: "raw_items t = raw t ! unat (raw_tail t) # raw_items (t\<lparr>raw_tail := (raw_tail t + 1) mod TTY_RAW_MAX\<rparr>)"
    if "raw_tail t \<noteq> raw_head t"
    using ring_take [OF u] that n(1) h(3) by (simp add: raw_items_def TTY_RAW_MAX_def word_unat_eq_iff)
  show "pop_raw t = None" if "raw_items t = []" using ne that by (auto simp: pop_raw_def)
  show "\<exists>t'. pop_raw t = Some (x, t') \<and> vt_ok t' \<and> raw_items t' = xs" if "raw_items t = x # xs"
  proof -
    have "raw_tail t \<noteq> raw_head t" using that ring_empty [OF u(1)] by (auto simp: raw_items_def)
    then show ?thesis using ne that t n(2) by (auto simp: pop_raw_def vt_ok_def TTY_RAW_MAX_def)
  qed
qed

lemma push_event_eq:
  assumes "events_ok s"
  shows "events_ok (push_event e s)"
    "event_items (push_event e s) = (if length (event_items s) < 255 then event_items s @ [e] else event_items s)"
proof -
  have h: "khead s < 256" "ktail s < 256" "length (kqueue s) = 256" using assms by (auto simp: events_ok_def const_defs)
  note n = ring_next_word [OF h(1)]
  have u: "unat (khead s) < length (kqueue s)" "unat (ktail s) < length (kqueue s)"
    using h by (simp_all add: word_less_nat_alt)
  have e: "(khead s + 1) mod 256 = ktail s \<longleftrightarrow> (unat (khead s) + 1) mod length (kqueue s) = unat (ktail s)"
    using n(1) h(3) by (simp add: word_unat_eq_iff)
  show "events_ok (push_event e s)" using assms n(2) by (auto simp: events_ok_def push_event_def const_defs Let_def)
  show "event_items (push_event e s) = (if length (event_items s) < 255 then event_items s @ [e] else event_items s)"
    using ring_store [OF u, of e] e n(1) h(3)
    by (auto simp: event_items_def push_event_def Let_def KEYBOARD_QUE_SIZE_def split: if_splits)
qed

interpretation keyq: bounded_queue events_ok event_items push_event keyboard_poll_event 255
proof
  fix s :: tty and e x xs
  assume s: "events_ok s"
  show "events_ok (push_event e s)"
    "event_items (push_event e s) = (if length (event_items s) < 255 then event_items s @ [e] else event_items s)"
    using push_event_eq [OF s] by auto
  have h: "khead s < 256" "ktail s < 256" "length (kqueue s) = 256" using s by (auto simp: events_ok_def const_defs)
  have u: "unat (khead s) < length (kqueue s)" "unat (ktail s) < length (kqueue s)"
    using h by (simp_all add: word_less_nat_alt)
  note n = ring_next_word [OF h(2)]
  have ne: "event_items s = kqueue s ! unat (ktail s) # event_items (s\<lparr>ktail := (ktail s + 1) mod KEYBOARD_QUE_SIZE\<rparr>)"
    if "khead s \<noteq> ktail s"
    using ring_take [OF u] that n(1) h(3) by (simp add: event_items_def KEYBOARD_QUE_SIZE_def word_unat_eq_iff)
  show "keyboard_poll_event s = None" if "event_items s = []" using ne that by (auto simp: keyboard_poll_event_def)
  show "\<exists>s'. keyboard_poll_event s = Some (x, s') \<and> events_ok s' \<and> event_items s' = xs" if "event_items s = x # xs"
  proof -
    have "khead s \<noteq> ktail s" using that ring_empty [OF u(1)] by (auto simp: event_items_def)
    then show ?thesis using ne that s n(2) by (auto simp: keyboard_poll_event_def events_ok_def KEYBOARD_QUE_SIZE_def)
  qed
qed

lemma read_raw_drain: "read_raw_loop t n = drain pop_raw t n"
  by (induction n arbitrary: t) (auto split: option.splits prod.splits)

section \<open>Every operation keeps the state well-formed\<close>

lemma tty_index: "v < TTY_VT_MAX \<Longrightarrow> unat v < 4"
  by (simp add: TTY_VT_MAX_def word_less_nat_alt)

lemma tty_of_upd: "tty_ok s \<Longrightarrow> v < TTY_VT_MAX \<Longrightarrow> tty_of (upd_tty s v f) w = (if w = v then f (tty_of s v) else tty_of s w)"
  using tty_index [of v] by (simp add: tty_of_def upd_tty_def tty_ok_def nth_list_update word_unat_eq_iff)

lemma tty_ok_vt: "tty_ok s \<Longrightarrow> v < TTY_VT_MAX \<Longrightarrow> vt_ok (tty_of s v)"
  using tty_index [of v] by (simp add: tty_ok_def tty_of_def)

lemma upd_tty_ok: "tty_ok s \<Longrightarrow> vt_ok (f (tty_of s v)) \<Longrightarrow> tty_ok (upd_tty s v f)"
  by (auto simp: tty_ok_def events_ok_def upd_tty_def dest!: subsetD [OF set_update_subset_insert])

lemma upd_tty_fields [simp]:
  "con (upd_tty s v f) = con s" "active_vt (upd_tty s v f) = active_vt s" "kshift (upd_tty s v f) = kshift s"
  "kctrl (upd_tty s v f) = kctrl s"
  by (simp_all add: upd_tty_def)

lemma putc_displayed: "vt_putc_impl g v c = Some g' \<Longrightarrow> displayed_vt g' = displayed_vt g"
  by (auto simp: vt_putc_impl_def bind_eq_Some_conv show_vt_def vga_flush_def vga_update_cursor_def Let_def split: if_splits)

lemma debug_putc_ok:
  assumes "con_ok k"
  shows "\<exists>k'. debug_putc k c = Some k' \<and> con_ok k' \<and> serial_in k' = serial_in k \<and>
    displayed_vt (vga_dev k') = displayed_vt (vga_dev k)"
proof (cases "video_has_driver (video k)")
  case True
  then have a: "active_driver (video k) = Some vga_driver" using assms by (simp add: con_ok_def)
  have d: "displayed_vt (vga_dev k) < VGA_VT_MAX" using assms by (simp add: con_ok_def vga_ok_def)
  obtain g where g: "vt_putc_impl (vga_dev k) (displayed_vt (vga_dev k)) c = Some g" "vga_ok g" "shown g"
    using putc_ok [OF _ _ d, where c = c] assms by (auto simp: con_ok_def)
  then show ?thesis using True a putc_displayed [OF g(1)] assms
    by (auto simp: debug_putc_def serial_write_char_def video_putc_def vga_driver_def vga_putc_def con_ok_def)
next
  case False
  then show ?thesis using assms by (simp add: debug_putc_def serial_write_char_def con_ok_def)
qed

lemma debug_puts_ok:
  "con_ok k \<Longrightarrow> \<exists>k'. debug_puts k cs = Some k' \<and> con_ok k' \<and> serial_in k' = serial_in k \<and>
    displayed_vt (vga_dev k') = displayed_vt (vga_dev k)"
proof (induction cs arbitrary: k)
  case (Cons c cs)
  then show ?case using debug_putc_ok [OF Cons.prems, of c] by fastforce
qed simp

lemma tty_ok_con:
  "tty_ok s \<Longrightarrow> con_ok k \<Longrightarrow> displayed_vt (vga_dev k) = displayed_vt (vga_dev (con s)) \<Longrightarrow> tty_ok (s\<lparr>con := k\<rparr>)"
  by (simp add: tty_ok_def events_ok_def)

lemma tty_echo_ok:
  assumes "tty_ok s"
  shows "\<exists>k. tty_echo s cs = Some (s\<lparr>con := k\<rparr>) \<and> tty_ok (s\<lparr>con := k\<rparr>) \<and> serial_in k = serial_in (con s)"
  using debug_puts_ok [of "con s" cs] assms tty_ok_con [of s]
  by (auto simp: tty_echo_def tty_ok_def)

lemmas vt_defs = vt_ok_def const_defs

lemma tty_input_char_ok:
  assumes s: "tty_ok s"
  shows "\<exists>s'. tty_input_char s c = Some s' \<and> tty_ok s' \<and> active_vt s' = active_vt s \<and> serial_in (con s') = serial_in (con s)"
proof -
  let ?v = "active_vt s"
  have v: "?v < TTY_VT_MAX" using s by (simp add: tty_ok_def)
  have t: "vt_ok (tty_of s ?v)" by (rule tty_ok_vt [OF s v])
  have e: "\<exists>s'. tty_echo (upd_tty s ?v f) cs = Some s' \<and> tty_ok s' \<and> active_vt s' = ?v \<and> serial_in (con s') = serial_in (con s)"
    if "vt_ok (f (tty_of s ?v))" for f cs
    using tty_echo_ok [OF upd_tty_ok [OF s, of f ?v], of cs] that by auto
  have "vt_ok (end_line (tty_of s ?v))" using t by (auto simp: end_line_def vt_defs Let_def)
  moreover have "vt_ok ((tty_of s ?v)\<lparr>tlen := tlen (tty_of s ?v) - 1, tline := (tline (tty_of s ?v))[tlen (tty_of s ?v) - 1 := 0]\<rparr>)"
    using t by (auto simp: vt_defs)
  moreover have a: "vt_ok ((tty_of s ?v)\<lparr>tline := (tline (tty_of s ?v))[tlen (tty_of s ?v) := c], tlen := tlen (tty_of s ?v) + 1\<rparr>)"
    if "tlen (tty_of s ?v) < TTY_LINE_MAX - 1"
    using t that by (auto simp: vt_defs)
  moreover note upd_tty_ok [OF s, of _ ?v]
  ultimately show ?thesis
    using s e by (auto simp: tty_input_char_def Let_def)
qed

lemma tty_push_raw_ok:
  assumes "tty_ok s" "v < TTY_VT_MAX"
  shows "tty_ok (tty_push_raw s v b)" "raw_items (tty_of (tty_push_raw s v b) v) = raw_items (push_raw b (tty_of s v))"
  using assms upd_tty_ok [OF assms(1), of "push_raw b" v] rawq.put_ok tty_ok_vt
  by (auto simp: tty_push_raw_def tty_of_upd)

lemma push_all_ok:
  "tty_ok s \<Longrightarrow> v < TTY_VT_MAX \<Longrightarrow>
   tty_ok (foldl (\<lambda>s b. tty_push_raw s v b) s bs) \<and>
   tty_of (foldl (\<lambda>s b. tty_push_raw s v b) s bs) v = fold push_raw bs (tty_of s v) \<and>
   active_vt (foldl (\<lambda>s b. tty_push_raw s v b) s bs) = active_vt s"
proof (induction bs arbitrary: s)
  case (Cons b bs)
  have "tty_of (tty_push_raw s v b) v = push_raw b (tty_of s v)" using Cons.prems by (simp add: tty_push_raw_def tty_of_upd)
  then show ?case using Cons.IH [of "tty_push_raw s v b"] Cons.prems tty_push_raw_ok by (simp add: tty_push_raw_def)
qed simp

lemma echo_raw_ok:
  assumes s: "tty_ok s" and v: "v < TTY_VT_MAX"
  shows "\<exists>s'. echo_raw s v key = Some s' \<and> tty_ok s' \<and> active_vt s' = active_vt s"
proof -
  let ?a = "hid_key_to_ascii key (kshift s)"
  obtain k where k: "tty_echo s [?a] = Some (s\<lparr>con := k\<rparr>)" "tty_ok (s\<lparr>con := k\<rparr>)" using tty_echo_ok [OF s] by blast
  have c: "vga_ok (vga_dev k)" "shown (vga_dev k)" using k(2) by (auto simp: tty_ok_def con_ok_def)
  obtain g where g: "vt_putc_impl (vga_dev k) (valid_vt v) ?a = Some g" "vga_ok g" "shown g"
    using putc_ok [OF c valid_vt_less] by blast
  have "tty_ok (s\<lparr>con := k\<lparr>vga_dev := g\<rparr>\<rparr>)"
    using k(2) g(2,3) putc_displayed [OF g(1)] by (simp add: tty_ok_def con_ok_def events_ok_def)
  then show ?thesis using k(1) g(1) s by (auto simp: echo_raw_def vga_vt_putc_def Let_def)
qed

lemma tty_vt_switch_ok:
  assumes "tty_ok s"
  shows "tty_ok (tty_vt_switch s v)"
proof -
  have "vga_ok (vga_vt_switch (vga_dev (con s)) v) \<and> shown (vga_vt_switch (vga_dev (con s)) v)"
    using assms switch_ok by (simp add: tty_ok_def con_ok_def)
  moreover have "displayed_vt (vga_vt_switch (vga_dev (con s)) v) = v" if "\<not> v \<ge> TTY_VT_MAX"
    using that by (simp add: vga_vt_switch_def vga_update_cursor_def vga_flush_def const_defs Let_def)
  ultimately show ?thesis
    using assms by (simp add: tty_vt_switch_def tty_ok_def con_ok_def events_ok_def not_le)
qed

lemma tty_sigint_ok:
  assumes "tty_ok s" "v < TTY_VT_MAX"
  shows "\<exists>s'. tty_sigint_trigger s v = Some s' \<and> tty_ok s'"
proof -
  have "vt_ok ((tty_of s v)\<lparr>tsigint := True, tlen := 0, tline := (tline (tty_of s v))[0 := 0], tready := False\<rparr>)"
    using tty_ok_vt [OF assms] by (auto simp: vt_defs)
  then show ?thesis
    using tty_echo_ok [OF upd_tty_ok [OF assms(1), of "\<lambda>t. t\<lparr>tsigint := True, tlen := 0, tline := (tline t)[0 := 0], tready := False\<rparr>" v], of "[94, 67, 10]"] assms(2)
    by (auto simp: tty_sigint_trigger_def)
qed

lemma tty_ok_keys:
  "tty_ok s \<Longrightarrow> tty_ok (set_modifiers key p (s\<lparr>key_state := (key_state s)[i := p]\<rparr>))"
  "tty_ok s \<Longrightarrow> tty_ok (push_event e s)"
  using keyq.put_ok [of s e]
  by (auto simp: tty_ok_def set_modifiers_def events_ok_def push_event_def Let_def)

lemma keyboard_report_key_ok:
  assumes s: "tty_ok s" and key: "unat key < KEYBOARD_MAX_KEYS"
  shows "\<exists>s'. keyboard_report_key s key p = Some s' \<and> tty_ok s'"
proof -
  define s1 where "s1 = set_modifiers key p (s\<lparr>key_state := (key_state s)[unat key := p]\<rparr>)"
  define s2 where "s2 = push_event \<lparr>keycode = key, ascii = hid_key_to_ascii key (kshift s1), pressed = p\<rparr> s1"
  have ok: "tty_ok s2" unfolding s2_def s1_def by (intro tty_ok_keys s)
  have v: "active_vt s2 < TTY_VT_MAX" using ok by (simp add: tty_ok_def)
  have "\<exists>s'. (do { s \<leftarrow> echo_raw s2 (active_vt s2) key; Some (keyboard_raw_push s (active_vt s2) key (kshift s) (kctrl s)) }) = Some s' \<and> tty_ok s'"
    using echo_raw_ok [OF ok v, of key] push_all_ok v by (auto simp: keyboard_raw_push_def)
  then show ?thesis
    using key ok tty_vt_switch_ok [OF ok] tty_sigint_ok [OF ok v] tty_input_char_ok [OF ok]
    unfolding keyboard_report_key_def s1_def [symmetric] s2_def [symmetric] Let_def tty_active_vt_def
    by (simp add: not_le) (metis s2_def s1_def)
qed

text \<open>A stream of bytes from the keyboard controller.\<close>

fun ps2_keyboard_irqs :: "ps2_keyboard \<Rightarrow> tty \<Rightarrow> u8 list \<Rightarrow> (ps2_keyboard \<times> tty) option" where
  "ps2_keyboard_irqs d s [] = Some (d, s)"
| "ps2_keyboard_irqs d s (b # bs) = do { (d, s) \<leftarrow> ps2_keyboard_irq d s b; ps2_keyboard_irqs d s bs }"

lemma scancode_bound: "unat (if e then ucast b OR 0x100 else ucast b :: u16) < 512" for b :: u8
proof -
  have "unat (ucast b :: u16) < 256" using unsigned_less [of b, where 'a = nat] by (simp add: unsigned_ucast_eq take_bit_nat_eq_self)
  moreover have "(ucast b OR 0x100 :: u16) = ucast b + 0x100"
  proof (rule disjunctive_add [symmetric])
    fix n
    have "bit (0x100 :: u16) n \<longleftrightarrow> n = 8" using bit_exp_iff [of 8 n, where 'a = u16] by auto
    then show "\<not> bit (ucast b :: u16) n \<or> \<not> bit (0x100 :: u16) n"
      using bit_imp_le_length [of b] by (auto simp: bit_simps)
  qed
  ultimately show ?thesis by (auto simp: unat_word_ariths)
qed

text \<open>
  C39: keyboard input never fails. Whatever bytes the controller delivers, in whatever order, every interrupt
  returns and leaves the input state well-formed: all indices stay inside their arrays, each line has room
  for its terminator, the screen shows the displayed terminal, and the terminal that receives the keys is the
  one that is displayed.
\<close>

theorem keyboard_input_type:
  assumes "tty_ok s"
  shows "\<exists>d' s'. ps2_keyboard_irqs d s bs = Some (d', s') \<and> tty_ok s' \<and> active_vt s' = displayed_vt (vga_dev (con s'))"
proof -
  have "\<exists>d' s'. ps2_keyboard_irqs d s bs = Some (d', s') \<and> tty_ok s'"
    using assms
  proof (induction bs arbitrary: d s)
    case (Cons b bs)
    have "\<exists>s'. keyboard_report_key s (if e then ucast c OR 0x100 else ucast c) p = Some s' \<and> tty_ok s'" for e p and c :: u8
      by (rule keyboard_report_key_ok [OF Cons.prems]) (use scancode_bound [of e c] in \<open>simp add: KEYBOARD_MAX_KEYS_def\<close>)
    from this [of "ps2_extended d" "if b AND 0x80 \<noteq> 0 then b AND NOT 0x80 else b" "\<not> (b AND 0x80 \<noteq> 0 \<or> ps2_released d)"]
    have "\<exists>d' s'. ps2_keyboard_irq d s b = Some (d', s') \<and> tty_ok s'"
      using Cons.prems by (auto simp: ps2_keyboard_irq_def Let_def)
    then show ?case using Cons.IH by fastforce
  qed simp
  then show ?thesis by (auto simp: tty_ok_def)
qed

section \<open>Raw input and lines\<close>

lemma ring_distance: "h < 256 \<Longrightarrow> t < 256 \<Longrightarrow> unat ((h - t) mod 256) = (unat h + 256 - unat t) mod 256" for h t :: u32
proof -
  assume a: "h < 256" "t < 256"
  show ?thesis
  proof (cases "unat t \<le> unat h")
    case True
    then have "unat (h - t) = unat h - unat t" by (simp add: unat_sub word_le_nat_alt)
    then show ?thesis using True a by (simp add: unat_mod word_less_nat_alt ring_count)
  next
    case False
    then have "unat (h - t) = unat h + 2 ^ 32 - unat t" using unat_sub_if' [of h t] by simp
    also have "\<dots> = (unat h + 256 - unat t) + 16777215 * 256" using a by (simp add: word_less_nat_alt)
    finally have "unat ((h - t) mod 256) = ((unat h + 256 - unat t) + 16777215 * 256) mod 256" by (simp add: unat_mod)
    then show ?thesis by (simp only: mod_mult_self1)
  qed
qed

text \<open>
  C40: raw input is a queue of 255 bytes. After further bytes arrive, a read returns the oldest bytes in their
  order, as many as were asked for, and leaves exactly the rest; the count that the terminal reports is the
  number of bytes waiting. Bytes beyond 255 are dropped.
\<close>

theorem raw_input_fifo:
  assumes "tty_ok s" "v < TTY_VT_MAX"
  shows "let s1 = foldl (\<lambda>s b. tty_push_raw s v b) s bs; q = take 255 (raw_items (tty_of s v) @ bs) in
    unat (tty_raw_available s1 v) = length q \<and>
    (\<exists>s2. tty_read_raw s1 v n = (take (unat n) q, s2) \<and> tty_ok s2 \<and> raw_items (tty_of s2 v) = drop (unat n) q)"
proof -
  let ?s1 = "foldl (\<lambda>s b. tty_push_raw s v b) s bs" and ?t = "tty_of s v"
  have t: "vt_ok ?t" by (rule tty_ok_vt [OF assms])
  have "length (raw_items ?t) \<le> 255"
    using t ring_length [of "raw ?t" "unat (raw_head ?t)" "unat (raw_tail ?t)"]
    by (simp add: raw_items_def vt_defs)
  then have q: "vt_ok (fold push_raw bs ?t)" "raw_items (fold push_raw bs ?t) = take 255 (raw_items ?t @ bs)"
    using rawq.puts_items [OF t] by auto
  note p = push_all_ok [OF assms, of bs]
  obtain u where u: "drain pop_raw (tty_of ?s1 v) (unat n) = (take (unat n) (take 255 (raw_items ?t @ bs)), u)"
    "vt_ok u" "raw_items u = drop (unat n) (take 255 (raw_items ?t @ bs))"
    using rawq.drain_items [OF q(1), of "unat n"] q(2) p by auto
  have "unat (tty_raw_available ?s1 v) = length (raw_items (tty_of ?s1 v))"
    using p q(1) assms(2) ring_distance [of "raw_head (tty_of ?s1 v)" "raw_tail (tty_of ?s1 v)"]
    by (simp add: tty_raw_available_def raw_items_def ring_length vt_defs not_le)
  moreover have "tty_read_raw ?s1 v n = (take (unat n) (take 255 (raw_items ?t @ bs)), upd_tty ?s1 v (\<lambda>_. u))"
    unfolding tty_read_raw_def read_raw_drain u(1) if_not_P [OF iffD2 [OF not_le assms(2)]] by simp
  ultimately show ?thesis
    using p q(2) u upd_tty_ok [of ?s1 "\<lambda>_. u" v] assms(2) by (simp add: tty_of_upd Let_def)
qed

text \<open>
  The reference for canonical input: a backspace takes back the last character, a line holds 255 characters,
  and bytes that are not positive as signed characters are ignored.
\<close>

fun edit_line :: "u8 list \<Rightarrow> u8 list \<Rightarrow> u8 list" where
  "edit_line l [] = l"
| "edit_line l (c # cs) =
     edit_line (if c = 8 \<or> c = 0x7F then butlast l else if sint c \<ge> 1 \<and> length l < 255 then l @ [c] else l) cs"

fun tty_input_chars :: "tty \<Rightarrow> u8 list \<Rightarrow> tty option" where
  "tty_input_chars s [] = Some s"
| "tty_input_chars s (c # cs) = do { s \<leftarrow> tty_input_char s c; tty_input_chars s cs }"

text \<open>The line being edited on a terminal.\<close>

definition editing :: "tty \<Rightarrow> u8 \<Rightarrow> u8 list \<Rightarrow> bool" where
  "editing s v l \<longleftrightarrow> tty_ok s \<and> active_vt s = v \<and> \<not> tready (tty_of s v) \<and> tlen (tty_of s v) = length l \<and>
     take (length l) (tline (tty_of s v)) = l"

lemma tty_echo_keeps:
  assumes "tty_ok s"
  shows "\<exists>s'. tty_echo s cs = Some s' \<and> tty_ok s' \<and> active_vt s' = active_vt s \<and> vt_ttys s' = vt_ttys s"
  using tty_echo_ok [OF assms, of cs] by auto

lemma editing_echo:
  assumes "editing s v l" and "vt_ok (f (tty_of s v))" "\<not> tready (f (tty_of s v))" "tlen (f (tty_of s v)) = length m"
    "take (length m) (tline (f (tty_of s v))) = m"
  shows "editing (upd_tty s v f) v m" "\<exists>s'. tty_echo (upd_tty s v f) cs = Some s' \<and> editing s' v m"
proof -
  have s: "tty_ok s" "active_vt s = v" using assms(1) by (auto simp: editing_def)
  have v: "v < TTY_VT_MAX" using s by (auto simp: tty_ok_def)
  have ok: "tty_ok (upd_tty s v f)" by (rule upd_tty_ok [OF s(1)]) (rule assms(2))
  show e: "editing (upd_tty s v f) v m" using ok s assms(3-5) by (simp add: editing_def tty_of_upd v)
  show "\<exists>s'. tty_echo (upd_tty s v f) cs = Some s' \<and> editing s' v m"
    using tty_echo_keeps [OF ok, of cs] e by (auto simp: editing_def tty_of_def)
qed

lemma input_char_edits:
  assumes e: "editing s v l" and c: "c \<noteq> 10"
  shows "\<exists>s'. tty_input_char s c = Some s' \<and> editing s' v (edit_line l [c])"
proof -
  let ?t = "tty_of s v"
  have s: "tty_ok s" "active_vt s = v" "\<not> tready ?t" "tlen ?t = length l" "take (length l) (tline ?t) = l"
    using e by (auto simp: editing_def)
  have v: "v < TTY_VT_MAX" using s by (auto simp: tty_ok_def)
  have t: "vt_ok ?t" by (rule tty_ok_vt [OF s(1) v])
  have len: "length l \<le> 255" "length (tline ?t) = 256" using t s(4) by (auto simp: vt_defs)
  show ?thesis
  proof (cases "c = 8 \<or> c = 0x7F")
    case True
    show ?thesis
    proof (cases "l = []")
      case True
      then show ?thesis using s c e \<open>c = 8 \<or> c = 0x7F\<close> by (auto simp: tty_input_char_def)
    next
      case False
      let ?f = "\<lambda>t. t\<lparr>tlen := tlen t - 1, tline := (tline t)[tlen t - 1 := 0]\<rparr>"
      have "take (length l - Suc 0) (tline ?t) = butlast l" using s(5) by (metis butlast_conv_take diff_le_self length_butlast min_def take_take One_nat_def)
      then have "\<exists>s'. tty_echo (upd_tty s v ?f) [8, 32, 8] = Some s' \<and> editing s' v (butlast l)"
        using False t s by (intro editing_echo(2) [OF e]) (auto simp: vt_defs)
      then show ?thesis using False True s c by (auto simp: tty_input_char_def)
    qed
  next
    case False
    show ?thesis
    proof (cases "sint c \<ge> 1 \<and> length l < 255")
      case True
      let ?f = "\<lambda>t. t\<lparr>tline := (tline t)[tlen t := c], tlen := tlen t + 1\<rparr>"
      have "take (length (l @ [c])) (tline (?f ?t)) = l @ [c]"
        using s(4,5) len True by (simp add: take_Suc_conv_app_nth)
      then have "editing (upd_tty s v ?f) v (l @ [c])" "\<exists>s'. tty_echo (upd_tty s v ?f) [c] = Some s' \<and> editing s' v (l @ [c])"
        using t s True len by (intro editing_echo [OF e]; auto simp: vt_defs)+
      then show ?thesis using True False s c by (auto simp: tty_input_char_def TTY_LINE_MAX_def Let_def)
    next
      case no: False
      then show ?thesis using False s c e len by (auto simp: tty_input_char_def TTY_LINE_MAX_def)
    qed
  qed
qed

lemma input_chars_edit:
  "editing s v l \<Longrightarrow> 10 \<notin> set cs \<Longrightarrow> \<exists>s'. tty_input_chars s cs = Some s' \<and> editing s' v (edit_line l cs)"
proof (induction cs arbitrary: s l)
  case (Cons c cs)
  obtain s1 where "tty_input_char s c = Some s1" "editing s1 v (edit_line l [c])"
    using input_char_edits [OF Cons.prems(1), of c] Cons.prems(2) by auto
  then show ?case using Cons.IH [of s1 "edit_line l [c]"] Cons.prems(2) by simp
qed auto

lemma input_chars_append: "tty_input_chars s (xs @ ys) = do { s \<leftarrow> tty_input_chars s xs; tty_input_chars s ys }"
  by (induction xs arbitrary: s) (auto split: bind_split)

lemma tty_getline_eq:
  "v < TTY_VT_MAX \<Longrightarrow> tready (tty_of s v) \<Longrightarrow> 0 \<le> n \<Longrightarrow>
   n = (if int (tlen (tty_of s v)) > sz - 1 then sz - 1 else int (tlen (tty_of s v))) \<Longrightarrow>
   tty_getline s v sz = Some (Some (take (nat n) (tline (tty_of s v))), upd_tty s v (\<lambda>t. t\<lparr>tlen := 0, tready := False\<rparr>))"
  unfolding tty_getline_def by (simp only: Let_def flip: not_le) simp

lemma nat_cut_le: "nat (if int k > a then a else int k) \<le> k"
  by auto

lemma nat_cut_cases: "nat (if int k > sz - 1 then sz - 1 else int k) = nat sz - 1 \<or>
    k \<le> nat (if int k > sz - 1 then sz - 1 else int k) \<and> k \<le> nat sz - 1"
  by auto

lemma take_cong_len: "n = m \<or> length xs \<le> n \<and> length xs \<le> m \<Longrightarrow> take n xs = take m xs"
  by auto

text \<open>
  C12: starting from an empty line, after any keys and a newline the terminal has a complete line, and
  reading it returns the line as the reference editor \<open>edit_line\<close> edits it followed by the newline
  character, cut to the size of the buffer minus one; the newline is missing only when the edited line
  already has 255 characters. The terminal is then ready for the next line. The header
  \<open>keyboard_stack.h\<close>, line 142, says that the newline is stripped; the code keeps it.
\<close>

theorem line_read_is_line_typed:
  assumes "editing s v []" "10 \<notin> set cs" "1 \<le> sz"
  shows "\<exists>s1 s2. tty_input_chars s (cs @ [10]) = Some s1 \<and> tty_line_ready s1 v \<and>
    (let l = edit_line [] cs; full = (if length l < 255 then l @ [10] else l) in
       tty_getline s1 v sz = Some (Some (take (nat sz - 1) full), s2)) \<and> editing s2 v []"
proof -
  let ?l = "edit_line [] cs"
  obtain s0 where s0: "tty_input_chars s cs = Some s0" "editing s0 v ?l"
    using input_chars_edit [OF assms(1,2)] by auto
  let ?t = "tty_of s0 v"
  have e: "tty_ok s0" "active_vt s0 = v" "\<not> tready ?t" "tlen ?t = length ?l" "take (length ?l) (tline ?t) = ?l"
    using s0(2) by (auto simp: editing_def)
  have v: "v < TTY_VT_MAX" using e by (auto simp: tty_ok_def)
  have t: "vt_ok ?t" by (rule tty_ok_vt [OF e(1) v])
  have len: "length ?l \<le> 255" "length (tline ?t) = 256" using t e(4) by (auto simp: vt_defs)
  let ?full = "if length ?l < 255 then ?l @ [10] else ?l"
  have el: "vt_ok (end_line ?t)" "tready (end_line ?t)" "tlen (end_line ?t) = length ?full"
    using t e(4) by (auto simp: end_line_def vt_defs Let_def)
  have full: "take (length ?full) (tline (end_line ?t)) = ?full"
    using e(4,5) len by (auto simp: end_line_def vt_defs Let_def take_Suc_conv_app_nth)
  have ok: "tty_ok (upd_tty s0 v end_line)" by (rule upd_tty_ok [of s0 end_line v, OF e(1) el(1)])
  obtain s1 where s1: "tty_echo (upd_tty s0 v end_line) [10] = Some s1" "tty_ok s1" "active_vt s1 = v"
    "tty_of s1 v = end_line ?t"
    using tty_echo_keeps [OF ok, of "[10]"] e(2) tty_of_upd [OF e(1) v] by (auto simp: tty_of_def)
  have i: "tty_input_chars s (cs @ [10]) = Some s1"
    using s0(1) s1(1) e(2,3) by (simp add: input_chars_append tty_input_char_def)
  define n where "n = (if int (length ?full) > sz - 1 then sz - 1 else int (length ?full))"
  have tk: "take (nat n) (tline (end_line ?t)) = take (nat sz - 1) ?full"
  proof -
    have le: "nat n \<le> length ?full" unfolding n_def by (rule nat_cut_le)
    have "take (nat n) (tline (end_line ?t)) = take (nat n) (take (length ?full) (tline (end_line ?t)))"
      using le by (simp only: take_take min_absorb1)
    also have "\<dots> = take (nat n) ?full" using full by simp
    also have "\<dots> = take (nat sz - 1) ?full" unfolding n_def by (rule take_cong_len) (rule nat_cut_cases)
    finally show ?thesis .
  qed
  have n0: "0 \<le> n" using assms(3) by (simp add: n_def)
  have r: "n = (if int (tlen (tty_of s1 v)) > sz - 1 then sz - 1 else int (tlen (tty_of s1 v)))"
    unfolding n_def s1(4) el(3) by (rule refl)
  have rd: "tready (tty_of s1 v)" unfolding s1(4) by (rule el(2))
  have g: "tty_getline s1 v sz = Some (Some (take (nat sz - 1) ?full), upd_tty s1 v (\<lambda>t. t\<lparr>tlen := 0, tready := False\<rparr>))"
    using tty_getline_eq [OF v rd n0 r] unfolding s1(4) tk .
  have "editing (upd_tty s1 v (\<lambda>t. t\<lparr>tlen := 0, tready := False\<rparr>)) v []"
    using s1 v el(1) upd_tty_ok [OF s1(2), of "\<lambda>t. t\<lparr>tlen := 0, tready := False\<rparr>" v]
    by (simp add: editing_def tty_of_upd vt_defs)
  then show ?thesis using i g iffD2 [OF not_le v] el(2) s1(4) by (auto simp: tty_line_ready_def Let_def)
qed

section \<open>Examples\<close>

text \<open>The input state after the initialisation.\<close>

definition demo_vt :: vt_tty where
  "demo_vt = \<lparr>tline = replicate 256 0, tlen = 0, tready = False, tsigint = False, raw = replicate 256 0,
     raw_head = 0, raw_tail = 0, termios = default_termios\<rparr>"

definition demo_tty :: tty where
  "demo_tty = keyboard_stack_init \<lparr>con = demo_console, key_state = [], kshift = False, kctrl = False, kalt = False,
     kqueue = replicate 256 \<lparr>keycode = 0, ascii = 0, pressed = False\<rparr>, khead = 0, ktail = 0,
     vt_ttys = replicate 4 demo_vt, active_vt = 0\<rparr>"

lemma demo_vt_ok: "vt_ok demo_vt" "raw_items demo_vt = []"
  by (simp_all add: demo_vt_def vt_defs default_termios_def raw_items_def ring_items_def)

lemma demo_con_ok: "con_ok demo_console" "displayed_vt (vga_dev demo_console) = 0"
proof -
  have l: "length (vterms demo_vga) = 4" by (simp add: demo_vga_def)
  have i: "vga_ok (vga_init demo_vga)" "shown (vga_init demo_vga)" using init_ok [OF l] by auto
  have d: "displayed_vt (vga_init demo_vga) = 0"
    by (simp add: vga_init_def vga_flush_def vt_clear_impl_def show_vt_def vga_update_cursor_def upd_vterm_def Let_def)
  have "vga_ok (vga_clear (vga_init demo_vga)) \<and> shown (vga_clear (vga_init demo_vga))"
    using clear_ok [OF i, of 0] d by (simp add: vga_clear_def VGA_VT_MAX_def)
  moreover have "displayed_vt (vga_clear g) = displayed_vt g" for g
    by (simp add: vga_clear_def vt_clear_impl_def show_vt_def vga_flush_def vga_update_cursor_def Let_def)
  moreover have "vga_dev demo_console = vga_clear (vga_init demo_vga)" "active_driver (video demo_console) = Some vga_driver"
    by (simp_all add: demo_console_def debug_init_def vga_register_def video_stack_register_def video_stack_init_def
        vga_driver_def video_clear_def video_has_driver_def active_driver_def VIDEO_MAX_DRIVERS_def)
  ultimately show "con_ok demo_console" "displayed_vt (vga_dev demo_console) = 0" using d by (simp_all add: con_ok_def)
qed

lemma demo_tty_vt: "vt_ttys demo_tty = replicate 4 demo_vt"
  using list_update_id [of "replicate 256 0" 0] by (simp add: demo_tty_def keyboard_stack_init_def demo_vt_def)

lemma demo_tty_ok: "tty_ok demo_tty"
  unfolding tty_ok_def demo_tty_vt using demo_vt_ok demo_con_ok
  by (simp add: demo_tty_def keyboard_stack_init_def events_ok_def const_defs)

lemma demo_tty_of: "v < TTY_VT_MAX \<Longrightarrow> tty_of demo_tty v = demo_vt"
  using tty_index [of v] by (simp add: tty_of_def demo_tty_vt)

lemma demo_editing: "editing demo_tty 0 []"
  using demo_tty_ok by (simp add: editing_def demo_tty_of TTY_VT_MAX_def) (simp add: demo_tty_def keyboard_stack_init_def demo_vt_def)

theorem keyboard_input_type_witness:
  "\<exists>d s. ps2_keyboard_irqs \<lparr>ps2_extended = False, ps2_released = False\<rparr> demo_tty [0x1E, 0x9E, 0xE0, 0x48, 0x1C] = Some (d, s) \<and>
     tty_ok demo_tty \<and> tty_ok s"
  using keyboard_input_type [OF demo_tty_ok, of "\<lparr>ps2_extended = False, ps2_released = False\<rparr>" "[0x1E, 0x9E, 0xE0, 0x48, 0x1C]"]
    demo_tty_ok by blast

theorem raw_input_fifo_witness:
  "\<exists>s. tty_read_raw (foldl (\<lambda>s b. tty_push_raw s 2 b) demo_tty [104, 105, 33]) 2 2 = ([104, 105], s) \<and>
     raw_items (tty_of s 2) = [33]"
  using raw_input_fifo [OF demo_tty_ok, of 2 "[104, 105, 33]" 2] demo_tty_of [of 2] demo_vt_ok(2)
  by (auto simp: TTY_VT_MAX_def Let_def)

theorem line_read_is_line_typed_witness:
  "\<exists>s1 s2. tty_input_chars demo_tty [104, 111, 8, 105, 10] = Some s1 \<and> tty_getline s1 0 100 = Some (Some [104, 105, 10], s2)"
  using line_read_is_line_typed [OF demo_editing, of "[104, 111, 8, 105]" 100] by (auto simp: Let_def)

end
