(* ===== verification/Syscall.thy ===== *)
theory Syscall
  imports Scheduler Keyboard
begin

text \<open>
  The system calls of \<^verbatim>\<open>arch/x86_64/syscall/syscall_dispatch.c\<close>. The state of the kernel is extended by
  the terminals. A call runs on processor \<open>c\<close>; the kernel reaches user memory through the page tables loaded
  there, and an access to an address that is not mapped is a fault in the kernel, the result \<open>None\<close>. A call
  that waits halts the processor; \<open>hlt\<close> is what happens until the processor continues, the interrupts it takes
  and the steps of other processors. A call ends with its result for the caller, or the calling process ends
  and the processor continues with an outcome of the scheduler.
\<close>

section \<open>State and user memory\<close>

record system = sched +
  tt :: tty

datatype reply = Ret u64 | Gone outcome

definition cur_proc :: "'a sched_scheme \<Rightarrow> nat \<Rightarrow> u64" where
  "cur_proc s c = process_current s (percpu_slot s c)"

definition user_ptr_ok :: "u64 \<Rightarrow> u64 \<Rightarrow> bool" where
  "user_ptr_ok p len \<longleftrightarrow> p \<ge> PAGING_USER_BASE \<and> p < PROCESS_USER_STACK_TOP \<and> len \<le> 0x1000000000 \<and>
     p + len < PROCESS_USER_STACK_TOP"

fun load_user :: "machine \<Rightarrow> u64 \<Rightarrow> u64 \<Rightarrow> nat \<Rightarrow> u8 list option" where
  "load_user m root va 0 = Some []"
| "load_user m root va (Suc n) = do { b \<leftarrow> user_byte m root va; bs \<leftarrow> load_user m root (va + 1) n; Some (b # bs) }"

fun store_user :: "machine \<Rightarrow> u64 \<Rightarrow> u64 \<Rightarrow> u8 list \<Rightarrow> machine option" where
  "store_user m root va [] = Some m"
| "store_user m root va (b # bs) =
     (let phys = paging_translate m root va
      in if phys = 0 then None else store_user (m\<lparr>phys_mem := (phys_mem m)(phys := b)\<rparr>) root (va + 1) bs)"

definition get_user :: "'a sched_scheme \<Rightarrow> nat \<Rightarrow> u64 \<Rightarrow> nat \<Rightarrow> u8 list option" where
  "get_user s c va n = load_user (mach s) (cr3_reg (cores s c)) va n"


definition put_user :: "'a sched_scheme \<Rightarrow> nat \<Rightarrow> u64 \<Rightarrow> u8 list \<Rightarrow> 'a sched_scheme option" where
  "put_user s c va bs = do { m \<leftarrow> store_user (mach s) (cr3_reg (cores s c)) va bs; Some (s\<lparr>mach := m\<rparr>) }"



section \<open>Files\<close>


definition set_blocked :: "'a sched_scheme \<Rightarrow> u64 \<Rightarrow> bool \<Rightarrow> 'a sched_scheme" where
  "set_blocked s cur b = (if cur \<noteq> 0 then upd_proc s cur (\<lambda>p. p\<lparr>blocked := b\<rparr>) else s)"

text \<open>The end of a call of a process that is to terminate.\<close>

definition exit_terminated :: "system \<Rightarrow> nat \<Rightarrow> (reply \<times> system) option" where
  "exit_terminated s c = do {
     (out, s) \<leftarrow> scheduler_exit_current s c (scast (exit_status (procs s (cur_proc s c))));
     Some (Gone out, s)
   }"





text \<open>The flag of the waiting process is cleared when the call returns to it.\<close>

definition unblock :: "u64 \<Rightarrow> reply \<times> system \<Rightarrow> reply \<times> system" where
  "unblock cur r = (case r of (Ret n, s) \<Rightarrow> (Ret n, set_blocked s cur False) | (Gone out, s) \<Rightarrow> (Gone out, s))"









section \<open>Listings\<close>












section \<open>Memory\<close>

partial_function (option) mmap_undo :: "machine \<Rightarrow> u64 \<Rightarrow> u64 \<Rightarrow> u64 \<Rightarrow> machine option" where
  "mmap_undo m root va lim =
     (if va < lim
      then mmap_undo (paging_unmap (free_frame m (paging_translate m root va)) root va) root (va + 0x1000) lim
      else Some m)"

declare mmap_undo.simps [code]

partial_function (option) mmap_loop :: "machine \<Rightarrow> u64 \<Rightarrow> u64 \<Rightarrow> u64 \<Rightarrow> u64 \<Rightarrow> (bool \<times> machine) option" where
  "mmap_loop m root base va lim =
     (if va < lim then
        (case alloc_frame m of (phys, m) \<Rightarrow>
           if phys = 0 then do { m \<leftarrow> mmap_undo m root base va; Some (False, m) }
           else mmap_loop (snd (paging_map (zero_page m phys) root va phys
                  (PAGING_FLAG_PRESENT OR PAGING_FLAG_WRITABLE OR PAGING_FLAG_USER))) root base (va + 0x1000) lim)
      else Some (True, m))"

declare mmap_loop.simps [code]

definition page_round :: "u64 \<Rightarrow> u64" where
  "page_round len = (len + 4095) AND NOT 4095"

definition sys_mmap :: "system \<Rightarrow> nat \<Rightarrow> u64 \<Rightarrow> (reply \<times> system) option" where
  "sys_mmap s c len =
     (let len = page_round (if len = 0 then 4096 else len); cur = cur_proc s c; base = mmap_cursor (procs s cur)
      in if len > 0x40000000 \<or> cur = 0 \<or> base + len > PROCESS_USER_STACK_TOP then Some (Ret (- 1), s)
         else do {
           (ok, m) \<leftarrow> mmap_loop (mach s) (cr3 (procs s cur)) base base (base + len);
           let s = s\<lparr>mach := m\<rparr>;
           Some (if ok then (Ret base, upd_proc s cur (\<lambda>p. p\<lparr>mmap_cursor := base + len\<rparr>)) else (Ret (- 1), s))
         })"

partial_function (option) munmap_loop :: "machine \<Rightarrow> u64 \<Rightarrow> u64 \<Rightarrow> u64 \<Rightarrow> machine option" where
  "munmap_loop m root va lim =
     (if va < lim then
        let phys = paging_translate m root va
        in munmap_loop (paging_unmap (if phys \<noteq> 0 then free_frame m phys else m) root va) root (va + 0x1000) lim
      else Some m)"

declare munmap_loop.simps [code]

definition sys_munmap :: "system \<Rightarrow> nat \<Rightarrow> u64 \<Rightarrow> u64 \<Rightarrow> (reply \<times> system) option" where
  "sys_munmap s c addr len =
     (let len = page_round len; cur = cur_proc s c
      in if len = 0 \<or> addr < PAGING_USER_BASE \<or> addr + len \<ge> PROCESS_USER_STACK_TOP \<or> cur = 0 then Some (Ret (- 1), s)
         else do {
           m \<leftarrow> munmap_loop (mach s) (cr3 (procs s cur)) addr (addr + len);
           Some (Ret 0, s\<lparr>mach := m\<rparr>)
         })"

section \<open>Processes\<close>

partial_function (option) sleep_wait :: "(system \<Rightarrow> system) \<Rightarrow> nat \<Rightarrow> u64 \<Rightarrow> system \<Rightarrow> (reply \<times> system) option" where
  "sleep_wait hlt c deadline s =
     (if scheduler_ticks s < deadline
      then if scheduler_terminate_requested s c then exit_terminated s c
           else sleep_wait hlt c deadline (hlt s)
      else Some (Ret 0, s))"

declare sleep_wait.simps [code]

definition sys_sleep :: "(system \<Rightarrow> system) \<Rightarrow> system \<Rightarrow> nat \<Rightarrow> u64 \<Rightarrow> (reply \<times> system) option" where
  "sys_sleep hlt s c ms =
     (let cur = cur_proc s c
      in map_option (unblock cur) (sleep_wait hlt c (scheduler_ticks s + ms div 10) (set_blocked s cur True)))"





definition le32_bytes :: "u32 \<Rightarrow> u8 list" where
  "le32_bytes x = [ucast x, ucast (drop_bit 8 x), ucast (drop_bit 16 x), ucast (drop_bit 24 x)]"





section \<open>Terminal modes\<close>

text \<open>The bytes of the structure; three bytes of padding at its end are not modelled.\<close>

definition termios_bytes :: "dynt_termios \<Rightarrow> u8 list" where
  "termios_bytes t = le32_bytes (c_iflag t) @ le32_bytes (c_oflag t) @ le32_bytes (c_cflag t) @
     le32_bytes (c_lflag t) @ [c_line t] @ c_cc t"

definition le32_at :: "u8 list \<Rightarrow> nat \<Rightarrow> u32" where
  "le32_at bs i = ucast (bs ! i) OR push_bit 8 (ucast (bs ! (i + 1))) OR push_bit 16 (ucast (bs ! (i + 2))) OR
     push_bit 24 (ucast (bs ! (i + 3)))"

definition bytes_termios :: "u8 list \<Rightarrow> dynt_termios" where
  "bytes_termios bs = \<lparr>c_iflag = le32_at bs 0, c_oflag = le32_at bs 4, c_cflag = le32_at bs 8, c_lflag = le32_at bs 12,
     c_line = bs ! 16, c_cc = take 32 (drop 17 bs)\<rparr>"

definition cur_vt :: "system \<Rightarrow> nat \<Rightarrow> u8" where
  "cur_vt s c = (let cur = cur_proc s c in if cur \<noteq> 0 then vt (procs s cur) else 0)"

definition sys_tcgetattr :: "system \<Rightarrow> nat \<Rightarrow> u64 \<Rightarrow> (reply \<times> system) option" where
  "sys_tcgetattr s c out =
     (if \<not> user_ptr_ok out 52 then Some (Ret (- 1), s)
      else case tty_get_mode (tt s) (cur_vt s c) of
        None \<Rightarrow> Some (Ret 0, s)
      | Some t \<Rightarrow> do { s \<leftarrow> put_user s c out (termios_bytes t); Some (Ret 0, s) })"

definition sys_tcsetattr :: "system \<Rightarrow> nat \<Rightarrow> u64 \<Rightarrow> (reply \<times> system) option" where
  "sys_tcsetattr s c inp =
     (if \<not> user_ptr_ok inp 52 then Some (Ret (- 1), s)
      else if cur_vt s c \<ge> TTY_VT_MAX then Some (Ret 0, s)
      else do {
        bs \<leftarrow> get_user s c inp 49;
        Some (Ret 0, s\<lparr>tt := tty_set_mode (tt s) (cur_vt s c) (bytes_termios bs)\<rparr>)
      })"


section \<open>The dispatcher\<close>





section \<open>The rest of the kernel leaves the scheduler alone\<close>

text \<open>
  The operations on memory, files and processes change no data of the scheduler, except in the processes of
  a set \<open>X\<close>, the newly created ones.
\<close>

definition leaves :: "u64 set \<Rightarrow> 'a kstate_scheme \<Rightarrow> 'a kstate_scheme \<Rightarrow> bool" where
  "leaves X s s' \<longleftrightarrow> kstate.more s' = kstate.more s \<and> percpus s' = percpus s \<and>
     (\<forall>p. p \<notin> X \<longrightarrow> sfields (procs s' p) = sfields (procs s p))"

lemma leaves_refl [simp]: "leaves X s s"
  by (simp add: leaves_def)

lemma leaves_fields [simp]:
  "leaves X s (t\<lparr>mach := m\<rparr>) = leaves X s t" "leaves X s (t\<lparr>kvfs := v\<rparr>) = leaves X s t"
  "leaves X s (t\<lparr>next_pid := n\<rparr>) = leaves X s t" "leaves X s (upd_mem t f) = leaves X s t"
  "leaves X s (put_heap t h) = leaves X s t"
  by (simp_all add: leaves_def upd_mem_def put_heap_def)

lemma leaves_trans: "leaves X s t \<Longrightarrow> leaves X t u \<Longrightarrow> leaves X s u"
  by (simp add: leaves_def)



















lemma reach_fields [simp]:
  "sched_reach s \<Longrightarrow> sched_reach (s\<lparr>mach := m\<rparr>)" "sched_reach s \<Longrightarrow> sched_reach (s\<lparr>kvfs := v\<rparr>)"
  "sched_reach (t :: system) \<Longrightarrow> sched_reach (t\<lparr>tt := x\<rparr>)"
  by (erule sched_reach.other, simp add: outside_step_def)+

lemma reach_upd_proc: "sched_reach s \<Longrightarrow> (\<And>q. sfields (f q) = sfields q) \<Longrightarrow> sched_reach (upd_proc s p f)"
  by (erule sched_reach.other) (simp add: outside_step_def upd_proc_def)

lemma reach_upd_core:
  "sched_reach s \<Longrightarrow> (\<And>k. gs_base (f k) = gs_base k \<and> kernel_gs_base (f k) = kernel_gs_base k) \<Longrightarrow>
   sched_reach (upd_core s c f)"
  by (erule sched_reach.other) (simp add: outside_step_def upd_core_def)

lemma reach_upd_percpu:
  "sched_reach s \<Longrightarrow> (\<And>k. current (f k) = current k \<and> cpu_index (f k) = cpu_index k) \<Longrightarrow>
   sched_reach (upd_percpu s c f)"
  by (erule sched_reach.other) (simp add: outside_step_def upd_percpu_def)

lemma sfields_upds [simp]:
  "sfields (p\<lparr>files := fs\<rparr>) = sfields p" "sfields (p\<lparr>blocked := b\<rparr>) = sfields p" "sfields (p\<lparr>vt := v\<rparr>) = sfields p"
  "sfields (p\<lparr>mmap_cursor := a\<rparr>) = sfields p" "sfields (p\<lparr>fs_base := a\<rparr>) = sfields p"
  by (simp_all add: sfields_def)

lemmas reach_upds [simp] = reach_upd_proc reach_upd_core reach_upd_percpu















section \<open>Starting processes\<close>












section \<open>Buffers\<close>







section \<open>Loops over pages\<close>

lemma page_loop:
  fixes va lim :: u64
  assumes "va < lim" "unat lim + 0x1000 < 2 ^ 64"
  shows "unat lim - unat (va + 0x1000) < unat lim - unat va"
proof -
  have "unat va < unat lim" using assms(1) by (simp add: word_less_nat_alt)
  moreover have "unat (va + 0x1000) = unat va + 0x1000"
    using assms(2) calculation by (subst unat_add_lem [THEN iffD1]) auto
  ultimately show ?thesis by simp
qed

lemma mmap_undo_returns: "unat lim + 0x1000 < 2 ^ 64 \<Longrightarrow> \<exists>m'. mmap_undo m root va lim = Some m'"
proof (induction "unat lim - unat va" arbitrary: m va rule: less_induct)
  case less
  then show ?case by (subst mmap_undo.simps) (simp add: page_loop)
qed

lemma mmap_loop_returns: "unat lim + 0x1000 < 2 ^ 64 \<Longrightarrow> \<exists>x. mmap_loop m root base va lim = Some x"
proof (induction "unat lim - unat va" arbitrary: m va rule: less_induct)
  case less
  obtain phys m' where a: "alloc_frame m = (phys, m')" by fastforce
  show ?case
  proof (cases "va < lim")
    case True
    then have "\<exists>m''. mmap_undo m' root base va = Some m''"
      using less.prems by (intro mmap_undo_returns) (simp add: word_less_nat_alt)
    moreover have "\<exists>x. mmap_loop m'' root base (va + 0x1000) lim = Some x" for m''
      using less.hyps [of "va + 0x1000" m''] page_loop [OF True less.prems] less.prems by blast
    ultimately show ?thesis using True a by (subst mmap_loop.simps) auto
  qed (subst mmap_loop.simps, auto)
qed

lemma munmap_loop_returns: "unat lim + 0x1000 < 2 ^ 64 \<Longrightarrow> \<exists>m'. munmap_loop m root va lim = Some m'"
proof (induction "unat lim - unat va" arbitrary: m va rule: less_induct)
  case less
  then show ?case by (subst munmap_loop.simps) (simp add: page_loop Let_def)
qed

section \<open>Terminal modes\<close>

lemma le32_bytes_at: "i + 3 < length bs \<Longrightarrow> le32_bytes (le32_at bs i) = [bs ! i, bs ! (i + 1), bs ! (i + 2), bs ! (i + 3)]"
  by (auto simp: le32_bytes_def le32_at_def intro!: bit_word_eqI) (auto simp: bit_simps dest: bit_imp_le_length)

lemma list_four: "i + 3 < length bs \<Longrightarrow> [bs ! i, bs ! (i + 1), bs ! (i + 2), bs ! (i + 3)] = take 4 (drop i bs)"
  by (simp add: Cons_nth_drop_Suc [symmetric] eval_nat_numeral)

lemma termios_bytes_inverse: "length bs = 49 \<Longrightarrow> termios_bytes (bytes_termios bs) = bs"
proof -
  assume l: "length bs = 49"
  have "bs = take 4 bs @ take 4 (drop 4 bs) @ take 4 (drop 8 bs) @ take 4 (drop 12 bs) @ [bs ! 16] @ take 32 (drop 17 bs)"
    using l by (intro nth_equalityI) (auto simp: nth_append nth_Cons' not_less intro!: arg_cong [of _ _ "nth bs"])
  then show ?thesis
    using l le32_bytes_at [of _ bs] list_four [of 0 bs] list_four [of 4 bs] list_four [of 8 bs] list_four [of 12 bs]
    by (simp add: termios_bytes_def bytes_termios_def)
qed

lemma load_user_length: "load_user m root va n = Some bs \<Longrightarrow> length bs = n"
  by (induction m root va n arbitrary: bs rule: load_user.induct) (auto simp: bind_eq_Some_conv)

section \<open>Waiting\<close>

lemma sleep_steps:
  assumes "\<And>s. scheduler_ticks (hlt s) = scheduler_ticks s + 1"
    "\<And>s. scheduler_terminate_requested (hlt s) c = scheduler_terminate_requested s c"
    "\<not> scheduler_terminate_requested s c" "unat (scheduler_ticks s) + n < 2 ^ 64"
  shows "sleep_wait hlt c (scheduler_ticks s + of_nat n) s = Some (Ret 0, (hlt ^^ n) s)"
  using assms(3,4)
proof (induction n arbitrary: s)
  case 0
  then show ?case by (subst sleep_wait.simps) simp
next
  case (Suc n)
  have n: "unat (of_nat (Suc n) :: u64) = Suc n" using Suc.prems by (simp add: unat_of_nat del: of_nat_Suc)
  then have "unat (scheduler_ticks s + of_nat (Suc n)) = unat (scheduler_ticks s) + Suc n"
    using Suc.prems by (subst unat_add_lem [THEN iffD1]) auto
  then have l: "scheduler_ticks s < scheduler_ticks s + of_nat (Suc n)" by (simp add: word_less_nat_alt)
  have t: "unat (scheduler_ticks s + 1) = unat (scheduler_ticks s) + 1"
    using Suc.prems by (subst unat_add_lem [THEN iffD1]) auto
  show ?case
    using Suc.IH [of "hlt s"] Suc.prems assms(1,2) l t
    by (subst sleep_wait.simps) (simp add: funpow_swap1 ac_simps)
qed

section \<open>Properties of the system calls\<close>




text \<open>
  C29: mapping and unmapping memory always return, for every address and length a process may pass: the loops
  over the pages end because the bounds keep the end of the range away from the end of the address space.
\<close>

theorem mmap_munmap_return:
  "(\<exists>x s'. sys_mmap s c len = Some (x, s')) \<and> (\<exists>x s'. sys_munmap s c addr len = Some (x, s'))"
proof -
  have t: "x \<le> PROCESS_USER_STACK_TOP \<Longrightarrow> unat x + 0x1000 < 2 ^ 64" for x
    by (simp add: PROCESS_USER_STACK_TOP_def word_le_nat_alt)
  have a: "\<exists>y. mmap_loop m root base base x = Some y" if "\<not> x > PROCESS_USER_STACK_TOP" for m root base x
    using mmap_loop_returns [OF t, of x m root base base] that by simp
  have b: "\<exists>y. munmap_loop m root addr x = Some y" if "\<not> x \<ge> PROCESS_USER_STACK_TOP" for m root x
    using munmap_loop_returns [OF t, of x m root addr] that by simp
  let ?base = "mmap_cursor (procs s (cur_proc s c))"
  let ?root = "cr3 (procs s (cur_proc s c))"
  show ?thesis
    using a [of "?base + page_round (if len = 0 then 4096 else len)" "mach s" ?root ?base]
      b [of "addr + page_round len" "mach s" ?root]
    by (auto simp: sys_mmap_def sys_munmap_def Let_def split: if_splits)
qed

text \<open>
  C30: a sleeping process wakes up. When the timer ticks once in every halt and the process is not killed, the call
  returns after as many halts as whole ticks of ten milliseconds fit in the given time, and the process is no
  longer marked as blocked. A time of less than ten milliseconds is no wait at all.
\<close>

theorem sleep_waits_whole_ticks:
  assumes "\<forall>s. scheduler_ticks (hlt s) = scheduler_ticks s + 1 \<and>
      scheduler_terminate_requested (hlt s) c = scheduler_terminate_requested s c"
    "\<not> scheduler_terminate_requested s c" "unat (scheduler_ticks s) + unat ms div 10 < 2 ^ 64"
  shows "sys_sleep hlt s c ms =
    Some (Ret 0, set_blocked ((hlt ^^ (unat ms div 10)) (set_blocked s (cur_proc s c) True)) (cur_proc s c) False)"
proof -
  let ?s = "set_blocked s (cur_proc s c) True"
  have f: "scheduler_ticks ?s = scheduler_ticks s" "scheduler_terminate_requested ?s c = scheduler_terminate_requested s c"
    by (simp_all add: set_blocked_def scheduler_ticks_def scheduler_terminate_requested_def upd_proc_def process_current_def
        percpu_slot_def percpu_current_def percpu_addr_def gs_base_is_percpu_def Let_def)
  have "ms div 10 = of_nat (unat ms div 10)" using unsigned_less [of ms, where 'a = nat]
    by (simp add: word_unat_eq_iff unat_div unat_of_nat)
  then show ?thesis
    using sleep_steps [of hlt c ?s "unat ms div 10"] assms unfolding f
    by (simp add: sys_sleep_def Let_def unblock_def f)
qed

text \<open>
  The mode a process sets for its terminal is the mode it reads back: the bytes that tcgetattr stores are the
  bytes that tcsetattr read.
\<close>

theorem termios_set_get:
  assumes "user_ptr_ok inp 52" "user_ptr_ok out 52" "cur_vt s c < TTY_VT_MAX" "length (vt_ttys (tt s)) = 4"
    "get_user s c inp 49 = Some bs"
  shows "\<exists>s'. sys_tcsetattr s c inp = Some (Ret 0, s') \<and> mach s' = mach s \<and>
    sys_tcgetattr s' c out = map_option (\<lambda>t. (Ret 0, t)) (put_user s' c out bs)"
proof -
  let ?s = "s\<lparr>tt := tty_set_mode (tt s) (cur_vt s c) (bytes_termios bs)\<rparr>"
  have v: "cur_vt ?s c = cur_vt s c"
    by (simp add: cur_vt_def cur_proc_def process_current_def percpu_slot_def percpu_current_def percpu_addr_def
        gs_base_is_percpu_def Let_def)
  have l: "unat (cur_vt s c) < 4" using assms(3) by (simp add: TTY_VT_MAX_def word_less_nat_alt)
  have "length bs = 49" using assms(5) load_user_length by (auto simp: get_user_def)
  then have "tty_get_mode (tt ?s) (cur_vt s c) = Some (bytes_termios bs)" "termios_bytes (bytes_termios bs) = bs"
    using assms(3,4) l termios_bytes_inverse by (auto simp: tty_get_mode_def tty_set_mode_def upd_tty_def tty_of_def not_le)
  then have "sys_tcgetattr ?s c out = map_option (\<lambda>t. (Ret 0, t)) (put_user ?s c out bs)"
    using assms(2) v by (cases "put_user ?s c out bs") (simp_all add: sys_tcgetattr_def)
  then show ?thesis using assms(1,3,5) by (intro exI [of _ ?s]) (simp add: sys_tcsetattr_def not_le)
qed


section \<open>Instances\<close>

text \<open>Sixteen processors without a process; each halt lasts one tick.\<close>

definition demo_system :: system where
  "demo_system = sched.extend demo_sched \<lparr>tt = demo_tty\<rparr>"

definition one_tick :: "system \<Rightarrow> system" where
  "one_tick s = s\<lparr>uptime_ticks := uptime_ticks s + 1\<rparr>"

lemma demo_system_fields:
  "uptime_ticks demo_system = 0" "percpus demo_system = demo_percpu" "cores demo_system = cores demo_sched"
  "g_percpu demo_system = g_percpu demo_sched" "procs demo_system = three_procs" "tt demo_system = demo_tty"
  by (simp_all add: demo_system_def demo_sched_def sched.extend_def kstate.extend_def)

lemma demo_system_gs: "gs_ok demo_system c" if "c < 16"
  using demo_gs [OF that] by (simp add: gs_ok_def demo_system_fields Let_def percpu_addr_def demo_sched_def kstate.extend_def)


lemma demo_current: "cur_proc (scheduler_init demo_system) 0 = 0"
proof -
  have "gs_ok (scheduler_init demo_system) 0"
    using gs_ok_cong [of demo_system 0 "scheduler_init demo_system"] demo_system_gs [of 0] by (simp add: init_fields)
  then show ?thesis using gs_ok_slot(1) [of "scheduler_init demo_system" 0]
    by (simp add: cur_proc_def process_current_def init_fields demo_system_fields demo_percpu_def)
qed

lemma one_tick_steps: "(one_tick ^^ n) s = s\<lparr>uptime_ticks := uptime_ticks s + of_nat n\<rparr>"
  by (induction n arbitrary: s) (simp_all add: one_tick_def ac_simps)

lemma one_tick_fields:
  "scheduler_ticks (one_tick s) = scheduler_ticks s + 1"
  "scheduler_terminate_requested (one_tick s) c = scheduler_terminate_requested s c"
  by (simp_all add: one_tick_def scheduler_ticks_def scheduler_terminate_requested_def process_current_def
      percpu_slot_def percpu_current_def percpu_addr_def gs_base_is_percpu_def Let_def)

lemma demo_not_killed: "\<not> scheduler_terminate_requested (scheduler_init demo_system) 0"
  using demo_current by (simp add: scheduler_terminate_requested_def cur_proc_def)

theorem sleep_waits_whole_ticks_witness:
  "sys_sleep one_tick (scheduler_init demo_system) 0 25 = Some (Ret 0, (scheduler_init demo_system)\<lparr>uptime_ticks := 2\<rparr>)"
  using sleep_waits_whole_ticks [of one_tick 0 "scheduler_init demo_system" 25] demo_not_killed
  by (simp add: one_tick_fields demo_current set_blocked_def one_tick_steps)
    (simp add: init_fields scheduler_ticks_def)




text \<open>Memory in which every word is an entry of a page table that maps a large page.\<close>

definition mapped_system :: system where
  "mapped_system = demo_system\<lparr>mach := machine0\<lparr>phys_mem := \<lambda>_. 0x87\<rparr>\<rparr>"

lemma mapped_load: "load_user (machine0\<lparr>phys_mem := \<lambda>_. 0x87\<rparr>) root va n = Some (replicate n 0x87)"
proof (induction n arbitrary: va)
  case (Suc n)
  have e: "tbl_get (machine0\<lparr>phys_mem := \<lambda>_. 0x87\<rparr>) a i = 0x8787878787878787" for a i
    by (simp add: tbl_get_def rd64_def)
  have "(0x8787878787878787 AND NOT 0x1FFFFF) + (va AND (PAGING_HUGE - 1)) \<noteq> (0 :: u64)"
  proof
    assume "(0x8787878787878787 AND NOT 0x1FFFFF) + (va AND (PAGING_HUGE - 1)) = (0 :: u64)"
    then have "va AND (PAGING_HUGE - 1) = - (0x8787878787878787 AND NOT 0x1FFFFF)" by (simp add: eq_neg_iff_add_eq_0 add.commute)
    then have "va AND 0x1FFFFF = 0x7878787878800000" by (simp add: PAGING_HUGE_def)
    moreover have "va AND 0x1FFFFF \<le> 0x1FFFFF" by (rule word_and_le1)
    ultimately show False by (simp add: word_le_nat_alt)
  qed
  then show ?case using Suc by (simp add: user_byte_def paging_translate_def e Let_def PAGING_FLAG_LARGE_def)
qed simp

theorem termios_set_get_witness:
  "\<exists>s'. sys_tcsetattr mapped_system 0 0x40000000 = Some (Ret 0, s') \<and>
     sys_tcgetattr s' 0 0x40001000 = map_option (\<lambda>t. (Ret 0, t)) (put_user s' 0 0x40001000 (replicate 49 0x87))"
proof -
  have "gs_ok mapped_system 0"
    using gs_ok_cong [of demo_system 0 mapped_system] demo_system_gs [of 0] by (simp add: mapped_system_def)
  then have "cur_proc mapped_system 0 = 0"
    using gs_ok_slot(1) [of mapped_system 0]
    by (simp add: cur_proc_def process_current_def mapped_system_def demo_system_fields demo_percpu_def)
  then have "cur_vt mapped_system 0 < TTY_VT_MAX" by (simp add: cur_vt_def TTY_VT_MAX_def)
  moreover have "length (vt_ttys (tt mapped_system)) = 4"
    using demo_tty_ok by (simp add: tty_ok_def mapped_system_def demo_system_fields)
  moreover have "get_user mapped_system 0 0x40000000 49 = Some (replicate 49 0x87)"
    by (simp add: get_user_def mapped_system_def mapped_load)
  ultimately show ?thesis
    using termios_set_get [of "0x40000000" "0x40001000" mapped_system 0 "replicate 49 0x87"]
    by (auto simp: user_ptr_ok_def PAGING_USER_BASE_def PROCESS_USER_STACK_TOP_def word_le_nat_alt word_less_nat_alt)
qed

end
