(* ===== verification/Mouse.thy ===== *)
theory Mouse
  imports Ring
begin

text \<open>
  The mouse stack of \<^verbatim>\<open>driver/stacks/input/mouse_stack.c\<close> and the interrupt handler of
  \<^verbatim>\<open>driver/buildin/input/ps2/ps2_mouse.c\<close>. Positions and distances are 32-bit signed numbers.
\<close>

section \<open>The mouse stack\<close>

definition MOUSE_MAX_BUTTONS :: nat where [const_defs]: "MOUSE_MAX_BUTTONS = 8"
definition MOUSE_QUEUE_SIZE :: u32 where [const_defs]: "MOUSE_QUEUE_SIZE = 256"

record mouse_event =
  ev_x :: u32
  ev_y :: u32
  ev_dx :: u32
  ev_dy :: u32
  ev_wheel :: u8
  ev_buttons :: u8

record mouse =
  button_state :: "bool list"
  mouse_x :: u32
  mouse_y :: u32
  delta_x :: u32
  delta_y :: u32
  mqueue :: "mouse_event list"
  mhead :: u32
  mtail :: u32

definition mouse_stack_init :: "mouse \<Rightarrow> mouse" where
  "mouse_stack_init m = m\<lparr>button_state := replicate MOUSE_MAX_BUTTONS False, mouse_x := 0, mouse_y := 0,
     delta_x := 0, delta_y := 0, mhead := 0, mtail := 0\<rparr>"

definition button_mask :: "mouse \<Rightarrow> u8" where
  "button_mask m = foldl (\<lambda>b i. if button_state m ! i then b OR push_bit i 1 else b) 0 [0..<MOUSE_MAX_BUTTONS]"

definition push_mouse :: "mouse_event \<Rightarrow> mouse \<Rightarrow> mouse" where
  "push_mouse e m =
     (let nx = (mhead m + 1) mod MOUSE_QUEUE_SIZE
      in if nx \<noteq> mtail m then m\<lparr>mqueue := (mqueue m)[unat (mhead m) := e], mhead := nx\<rparr> else m)"

definition mouse_report_motion :: "mouse \<Rightarrow> u32 \<Rightarrow> u32 \<Rightarrow> mouse" where
  "mouse_report_motion m dx dy =
     (let m = m\<lparr>mouse_x := mouse_x m + dx, mouse_y := mouse_y m + dy, delta_x := dx, delta_y := dy\<rparr>
      in push_mouse \<lparr>ev_x = mouse_x m, ev_y = mouse_y m, ev_dx = dx, ev_dy = dy, ev_wheel = 0, ev_buttons = button_mask m\<rparr> m)"

definition mouse_report_button :: "mouse \<Rightarrow> u8 \<Rightarrow> bool \<Rightarrow> mouse" where
  "mouse_report_button m button p =
     (if unat button \<ge> MOUSE_MAX_BUTTONS then m
      else let m = m\<lparr>button_state := (button_state m)[unat button := p]\<rparr>
           in push_mouse \<lparr>ev_x = mouse_x m, ev_y = mouse_y m, ev_dx = 0, ev_dy = 0, ev_wheel = 0, ev_buttons = button_mask m\<rparr> m)"

definition mouse_report_wheel :: "mouse \<Rightarrow> u8 \<Rightarrow> mouse" where
  "mouse_report_wheel m wheel =
     push_mouse \<lparr>ev_x = mouse_x m, ev_y = mouse_y m, ev_dx = 0, ev_dy = 0, ev_wheel = wheel, ev_buttons = button_mask m\<rparr> m"

definition mouse_is_pressed :: "mouse \<Rightarrow> u8 \<Rightarrow> bool" where
  "mouse_is_pressed m button \<longleftrightarrow> \<not> unat button \<ge> MOUSE_MAX_BUTTONS \<and> button_state m ! unat button"

definition mouse_set_position :: "mouse \<Rightarrow> u32 \<Rightarrow> u32 \<Rightarrow> mouse" where
  "mouse_set_position m x y = m\<lparr>mouse_x := x, mouse_y := y\<rparr>"

definition mouse_poll_event :: "mouse \<Rightarrow> (mouse_event \<times> mouse) option" where
  "mouse_poll_event m =
     (if mhead m = mtail m then None
      else Some (mqueue m ! unat (mtail m), m\<lparr>mtail := (mtail m + 1) mod MOUSE_QUEUE_SIZE\<rparr>))"

section \<open>The PS/2 mouse\<close>

record ps2_mouse =
  packet :: "u8 list"
  cycle :: u8
  prev_buttons :: u8

definition report_change :: "u8 \<Rightarrow> u8 \<Rightarrow> mouse \<Rightarrow> nat \<Rightarrow> mouse" where
  "report_change old new m b =
     (if bit new b \<noteq> bit old b then mouse_report_button m (of_nat b) (bit new b) else m)"

definition ps2_mouse_irq :: "ps2_mouse \<Rightarrow> mouse \<Rightarrow> u8 \<Rightarrow> ps2_mouse \<times> mouse" where
  "ps2_mouse_irq d m byte =
     (let d = d\<lparr>packet := (packet d)[unat (cycle d) := byte], cycle := (cycle d + 1) mod 3\<rparr>
      in if cycle d \<noteq> 0 then (d, m)
         else if packet d ! 0 AND 0x08 = 0
         then (d\<lparr>packet := [packet d ! 1, packet d ! 2, packet d ! 2], cycle := 2\<rparr>, m)
         else let buttons = packet d ! 0 AND 0x07;
                  m = mouse_report_motion m (scast (packet d ! 1)) (- scast (packet d ! 2));
                  m = foldl (report_change (prev_buttons d) buttons) m [0, 1, 2]
              in (d\<lparr>prev_buttons := buttons\<rparr>, m))"

section \<open>The event queue\<close>

definition mouse_ok :: "mouse \<Rightarrow> bool" where
  "mouse_ok m \<longleftrightarrow> length (mqueue m) = unat MOUSE_QUEUE_SIZE \<and> mhead m < MOUSE_QUEUE_SIZE \<and> mtail m < MOUSE_QUEUE_SIZE \<and>
     length (button_state m) = MOUSE_MAX_BUTTONS"

definition mouse_items :: "mouse \<Rightarrow> mouse_event list" where
  "mouse_items m = ring_items (mqueue m) (unat (mhead m)) (unat (mtail m))"

interpretation mouseq: bounded_queue mouse_ok mouse_items push_mouse mouse_poll_event 255
proof
  fix m :: mouse and e x xs
  assume m: "mouse_ok m"
  have h: "mhead m < 256" "mtail m < 256" "length (mqueue m) = 256" using m by (auto simp: mouse_ok_def const_defs)
  have u: "unat (mhead m) < length (mqueue m)" "unat (mtail m) < length (mqueue m)"
    using h by (simp_all add: word_less_nat_alt)
  note n = ring_next_word [OF h(1)] and k = ring_next_word [OF h(2)]
  have e: "(mhead m + 1) mod 256 = mtail m \<longleftrightarrow> (unat (mhead m) + 1) mod length (mqueue m) = unat (mtail m)"
    using n(1) h(3) by (simp add: word_unat_eq_iff)
  show "mouse_ok (push_mouse e m)" using m n(2) by (auto simp: mouse_ok_def push_mouse_def const_defs Let_def)
  show "mouse_items (push_mouse e m) = (if length (mouse_items m) < 255 then mouse_items m @ [e] else mouse_items m)"
    using ring_store [OF u, of e] e n(1) h(3)
    by (auto simp: mouse_items_def push_mouse_def Let_def MOUSE_QUEUE_SIZE_def split: if_splits)
  have ne: "mouse_items m = mqueue m ! unat (mtail m) # mouse_items (m\<lparr>mtail := (mtail m + 1) mod MOUSE_QUEUE_SIZE\<rparr>)"
    if "mhead m \<noteq> mtail m"
    using ring_take [OF u] that k(1) h(3) by (simp add: mouse_items_def MOUSE_QUEUE_SIZE_def word_unat_eq_iff)
  show "mouse_poll_event m = None" if "mouse_items m = []" using ne that by (auto simp: mouse_poll_event_def)
  show "\<exists>m'. mouse_poll_event m = Some (x, m') \<and> mouse_ok m' \<and> mouse_items m' = xs" if "mouse_items m = x # xs"
  proof -
    have "mhead m \<noteq> mtail m" using that ring_empty [OF u(1)] by (auto simp: mouse_items_def)
    then show ?thesis using ne that m k(2) by (auto simp: mouse_poll_event_def mouse_ok_def MOUSE_QUEUE_SIZE_def)
  qed
qed

text \<open>Three bytes that start with a byte that can be a first one move the pointer and set the buttons.\<close>

lemma bit_and_7: "b < 3 \<Longrightarrow> bit (x AND 7) b = bit x b" for x :: u8
proof -
  assume "b < 3"
  then have "bit (x AND mask 3) b = bit x b" by (auto simp: bit_and_iff bit_mask_iff)
  then show ?thesis by (simp add: mask_eq_exp_minus_1)
qed

lemma report_change_state:
  "length (button_state m) = 8 \<Longrightarrow> b < 3 \<Longrightarrow>
   button_state (report_change old new m b) = (if bit new b \<noteq> bit old b then (button_state m)[b := bit new b] else button_state m) \<and>
   mouse_x (report_change old new m b) = mouse_x m \<and> mouse_y (report_change old new m b) = mouse_y m"
  by (auto simp: report_change_def mouse_report_button_def push_mouse_def MOUSE_MAX_BUTTONS_def unat_of_nat Let_def)

lemma mouse_packet:
  assumes "mouse_ok m" "length (packet d) = 3" "cycle d = 0" "b0 AND 0x08 \<noteq> 0"
    and prev: "\<And>i. i < 3 \<Longrightarrow> button_state m ! i = bit (prev_buttons d) i"
    and run: "ps2_mouse_irq d m b0 = (d1, m1)" "ps2_mouse_irq d1 m1 b1 = (d2, m2)" "ps2_mouse_irq d2 m2 b2 = (d3, m3)"
  shows "mouse_x m3 = mouse_x m + scast b1" "mouse_y m3 = mouse_y m - scast b2" "cycle d3 = 0"
    "i < 3 \<Longrightarrow> mouse_is_pressed m3 (of_nat i) = bit b0 i \<and> bit (prev_buttons d3) i = bit b0 i"
proof -
  obtain p q r where p: "packet d = [p, q, r]" using assms(2) by (auto simp: numeral_eq_Suc length_Suc_conv)
  define n where "n = mouse_report_motion m (scast b1) (- scast b2)"
  have nf: "mouse_x n = mouse_x m + scast b1" "mouse_y n = mouse_y m - scast b2" "button_state n = button_state m"
    by (simp_all add: n_def mouse_report_motion_def push_mouse_def Let_def)
  have l: "length (button_state n) = 8" using assms(1) nf by (simp add: mouse_ok_def MOUSE_MAX_BUTTONS_def)
  have r: "m3 = foldl (report_change (prev_buttons d) (b0 AND 7)) n [0, 1, 2]" "prev_buttons d3 = b0 AND 7" "cycle d3 = 0"
    using run p assms(3,4) by (auto simp: ps2_mouse_irq_def Let_def n_def)
  show "cycle d3 = 0" by (rule r)
  let ?c = "report_change (prev_buttons d) (b0 AND 7)"
  note s0 = report_change_state [OF l, of 0] 
  have l1: "length (button_state (?c n 0)) = 8" using s0 l by simp
  note s1 = report_change_state [OF l1, of 1]
  have l2: "length (button_state (?c (?c n 0) 1)) = 8" using s1 l1 by simp
  note s2 = report_change_state [OF l2, of 2]
  show "mouse_x m3 = mouse_x m + scast b1" "mouse_y m3 = mouse_y m - scast b2"
    using s0 s1 s2 nf r(1) by simp_all
  show "mouse_is_pressed m3 (of_nat i) = bit b0 i \<and> bit (prev_buttons d3) i = bit b0 i" if i: "i < 3"
  proof -
    have "i \<in> {0, 1, 2}" using i by auto
    then have "button_state m3 ! i = bit b0 i"
      using s0 s1 s2 nf(3) l l1 l2 r(1) prev [of 0] prev [of 1] prev [of 2] bit_and_7 [of _ b0]
      by (auto simp: nth_list_update)
    then show ?thesis using i r(2) bit_and_7 [OF i, of b0] by (simp add: mouse_is_pressed_def MOUSE_MAX_BUTTONS_def unat_of_nat)
  qed
qed

end
