(* ===== verification/Smp.thy ===== *)
theory Smp
  imports Mem_Lib
begin

text \<open>
  The discovery of the processors in \<^verbatim>\<open>arch/x86_64/smp/smp.c\<close>: the search for the tables of the firmware in low
  memory, the ACPI table of interrupt controllers (MADT), the older multiprocessor table, and the list of
  processors that \<^verbatim>\<open>smp_init\<close> builds from them. Memory is read at physical addresses, which the boot page
  tables map to themselves.
\<close>

section \<open>State\<close>

record smp_cpu =
  processor_id :: u8
  smp_lapic_id :: u8
  enabled :: bool
  bootstrap :: bool

record smp =
  cpus :: "smp_cpu list"
  smp_count :: u32
  lapic_base :: u64
  apic_msr :: u64

definition SMP_MAX_BOOT_CPUS :: u32 where "SMP_MAX_BOOT_CPUS = 256"

definition mem_at :: "mem \<Rightarrow> u64 \<Rightarrow> ptr" where
  "mem_at m a = (\<lambda>i. m (a + of_nat i))"



definition add_cpu :: "smp \<Rightarrow> u8 \<Rightarrow> u8 \<Rightarrow> bool \<Rightarrow> bool \<Rightarrow> smp" where
  "add_cpu s pr la en boot =
     (if smp_count s \<ge> SMP_MAX_BOOT_CPUS then s
      else s\<lparr>cpus := (cpus s)[unat (smp_count s) :=
               \<lparr>processor_id = pr, smp_lapic_id = la, enabled = en, bootstrap = boot\<rparr>],
             smp_count := smp_count s + 1\<rparr>)"

section \<open>The multiprocessor table\<close>






section \<open>The ACPI tables\<close>









text \<open>One structure of the table; a processor is one of type 0.\<close>

definition add_lapic :: "mem \<Rightarrow> u64 \<Rightarrow> smp \<Rightarrow> smp" where
  "add_lapic m p s =
     (if m p = 0 \<and> m (p + 1) \<ge> 8
      then let en = (k_le32 (mem_at m (p + 4)) AND 1 \<noteq> 0)
           in add_cpu s (m (p + 2)) (m (p + 3)) en (en \<and> smp_count s = 0)
      else s)"

partial_function (option) madt_loop :: "mem \<Rightarrow> u64 \<Rightarrow> u64 \<Rightarrow> smp \<Rightarrow> smp option" where
  "madt_loop m p lim s =
     (if p + 2 \<le> lim then
        let len = ucast (m (p + 1))
        in if len < 2 \<or> p + len > lim then Some s
           else madt_loop m (p + len) lim (add_lapic m p s)
      else Some s)"

declare madt_loop.simps [code]

definition parse_madt :: "mem \<Rightarrow> u64 \<Rightarrow> smp \<Rightarrow> smp option" where
  "parse_madt m madt s =
     (if madt = 0 then Some s
      else madt_loop m (madt + 44) (madt + ucast (k_le32 (mem_at m (madt + 4))))
             (s\<lparr>lapic_base := ucast (k_le32 (mem_at m (madt + 36)))\<rparr>))"

section \<open>Initialisation\<close>

definition no_cpu :: smp_cpu where
  "no_cpu = \<lparr>processor_id = 0, smp_lapic_id = 0, enabled = False, bootstrap = False\<rparr>"


definition smp_cpu_count :: "smp \<Rightarrow> u32" where
  "smp_cpu_count s = smp_count s"

definition smp_cpu_at :: "smp \<Rightarrow> u32 \<Rightarrow> smp_cpu option" where
  "smp_cpu_at s i = (if i < smp_count s then Some (cpus s ! unat i) else None)"

definition smp_lapic_base :: "smp \<Rightarrow> u64" where
  "smp_lapic_base s = lapic_base s"

section \<open>The loops end\<close>








section \<open>The list of processors\<close>

definition smp_ok :: "smp \<Rightarrow> bool" where
  "smp_ok s \<longleftrightarrow> length (cpus s) = 256 \<and> unat (smp_count s) \<le> 256"

definition found :: "smp \<Rightarrow> smp_cpu list" where
  "found s = take (unat (smp_count s)) (cpus s)"

lemma add_cpu_ok: "smp_ok s \<Longrightarrow> smp_ok (add_cpu s p l e b)"
proof -
  assume s: "smp_ok s"
  have "unat (smp_count s + 1) = unat (smp_count s) + 1" using s by (subst unat_add_lem [THEN iffD1]) (auto simp: smp_ok_def)
  then show ?thesis using s by (auto simp: add_cpu_def smp_ok_def SMP_MAX_BOOT_CPUS_def word_le_nat_alt)
qed

lemma add_cpu_found:
  "smp_ok s \<Longrightarrow> found (add_cpu s p l e b) =
     take 256 (found s @ [\<lparr>processor_id = p, smp_lapic_id = l, enabled = e, bootstrap = b\<rparr>])"
proof -
  assume s: "smp_ok s"
  have u: "unat (smp_count s + 1) = unat (smp_count s) + 1" using s by (subst unat_add_lem [THEN iffD1]) (auto simp: smp_ok_def)
  show ?thesis
  proof (cases "smp_count s \<ge> SMP_MAX_BOOT_CPUS")
    case True
    then have "length (found s) = 256" using s by (auto simp: found_def smp_ok_def SMP_MAX_BOOT_CPUS_def word_le_nat_alt)
    then show ?thesis using True by (simp add: add_cpu_def)
  next
    case False
    then have n: "unat (smp_count s) < 256" by (simp add: SMP_MAX_BOOT_CPUS_def word_le_nat_alt)
    then show ?thesis using False s u by (simp add: add_cpu_def found_def smp_ok_def take_Suc_conv_app_nth)
  qed
qed

lemma add_lapic_ok: "smp_ok s \<Longrightarrow> smp_ok (add_lapic m p s)"
  by (simp add: add_lapic_def add_cpu_ok Let_def)





section \<open>The MADT as a list\<close>

text \<open>The addresses of the structures that lie one behind the other from \<open>p\<close> to the end of the table.\<close>

inductive madt_walk :: "mem \<Rightarrow> u64 \<Rightarrow> u64 \<Rightarrow> u64 list \<Rightarrow> bool" for m lim where
  stop: "\<not> p + 2 \<le> lim \<Longrightarrow> madt_walk m lim p []"
| short: "p + 2 \<le> lim \<Longrightarrow> ucast (m (p + 1)) < (2 :: u64) \<or> p + ucast (m (p + 1)) > lim \<Longrightarrow> madt_walk m lim p []"
| struct: "p + 2 \<le> lim \<Longrightarrow> \<not> ucast (m (p + 1)) < (2 :: u64) \<Longrightarrow> \<not> p + ucast (m (p + 1)) > lim \<Longrightarrow>
    madt_walk m lim (p + ucast (m (p + 1))) ps \<Longrightarrow> madt_walk m lim p (p # ps)"

inductive_simps madt_walk_simps: "madt_walk m lim p []" "madt_walk m lim p (q # ps)"

definition is_lapic :: "mem \<Rightarrow> u64 \<Rightarrow> bool" where
  "is_lapic m p \<longleftrightarrow> m p = 0 \<and> m (p + 1) \<ge> 8"

definition lapic_cpu :: "mem \<Rightarrow> bool \<Rightarrow> u64 \<Rightarrow> smp_cpu" where
  "lapic_cpu m first p =
     (let en = (k_le32 (mem_at m (p + 4)) AND 1 \<noteq> 0)
      in \<lparr>processor_id = m (p + 2), smp_lapic_id = m (p + 3), enabled = en, bootstrap = en \<and> first\<rparr>)"

text \<open>The processors of the table; only the first one can be the one that runs.\<close>

fun lapic_cpus :: "mem \<Rightarrow> bool \<Rightarrow> u64 list \<Rightarrow> smp_cpu list" where
  "lapic_cpus m first [] = []"
| "lapic_cpus m first (p # ps) =
     (if is_lapic m p then lapic_cpu m first p # lapic_cpus m False ps else lapic_cpus m first ps)"

lemma madt_walk_loop:
  "madt_walk m lim p ps \<Longrightarrow> madt_loop m p lim s = Some (foldl (\<lambda>s p. add_lapic m p s) s ps)"
  by (induction p ps arbitrary: s rule: madt_walk.induct) (subst madt_loop.simps, simp add: Let_def)+

lemma found_empty: "smp_ok s \<Longrightarrow> (found s = []) = (smp_count s = 0)"
  by (auto simp: found_def smp_ok_def word_unat_eq_iff)

lemma take_append_take: "take n (take n xs @ ys) = take n (xs @ ys)"
  by (simp add: min_def)

lemma fold_lapics:
  "smp_ok s \<Longrightarrow> found (foldl (\<lambda>s p. add_lapic m p s) s ps) = take 256 (found s @ lapic_cpus m (smp_count s = 0) ps)"
proof (induction ps arbitrary: s)
  case Nil
  then show ?case by (simp add: found_def smp_ok_def)
next
  case (Cons p ps)
  show ?case
  proof (cases "is_lapic m p")
    case True
    let ?t = "add_lapic m p s"
    have t: "smp_ok ?t" by (rule add_lapic_ok [OF Cons.prems])
    have f: "found ?t = take 256 (found s @ [lapic_cpu m (smp_count s = 0) p])"
      using add_cpu_found [OF Cons.prems] True by (simp add: add_lapic_def is_lapic_def lapic_cpu_def Let_def)
    then have "smp_count ?t \<noteq> 0" using found_empty [OF t] by auto
    then show ?thesis using Cons.IH [OF t] f True take_append_take [of 256 "found s @ [_]"] by simp
  next
    case False
    then have "add_lapic m p s = s" by (auto simp: add_lapic_def is_lapic_def)
    then show ?thesis using Cons False by simp
  qed
qed

section \<open>Properties\<close>


text \<open>
  C33: from a table of interrupt controllers the processors are exactly the first 256 processor structures in their
  order, and a processor is marked as the one that runs only if it is the first of them and is enabled. A table
  whose first processor is disabled thus marks none, although the comment in the code says that the first enabled
  processor is marked; the running processor is then started again as if it were another one.
\<close>

theorem parse_madt_processors:
  assumes "madt \<noteq> 0" "length (cpus s) = 256" "smp_count s = 0"
    "madt_walk m (madt + ucast (k_le32 (mem_at m (madt + 4)))) (madt + 44) ps"
  shows "\<exists>s'. parse_madt m madt s = Some s' \<and>
    take (unat (smp_cpu_count s')) (cpus s') = take 256 (lapic_cpus m True ps)"
proof -
  let ?s = "s\<lparr>lapic_base := ucast (k_le32 (mem_at m (madt + 36)))\<rparr>"
  have s: "smp_ok ?s" "found ?s = []" using assms(2,3) by (simp_all add: smp_ok_def found_def)
  then show ?thesis
    using madt_walk_loop [OF assms(4), of ?s] fold_lapics [OF s(1), of m ps] assms(1,3)
    by (simp add: parse_madt_def found_def smp_cpu_count_def)
qed

text \<open>A table with a disabled processor, another interrupt controller and an enabled processor.\<close>

definition demo_madt :: "u8 list" where
  "demo_madt = str ''APIC'' @ [72, 0, 0, 0] @ replicate 36 0 @ [0, 8, 0, 0, 0, 0, 0, 0] @
     [1, 12, 0, 0, 0, 0, 0, 0, 0, 0, 0, 0] @ [0, 8, 1, 1, 1, 0, 0, 0]"

definition demo_firmware :: mem where
  "demo_firmware a = (if unat (a - 0x1000) < 72 then demo_madt ! unat (a - 0x1000) else 0)"

definition no_smp :: smp where
  "no_smp = \<lparr>cpus = replicate 256 no_cpu, smp_count = 0, lapic_base = 0, apic_msr = 0xFEE00900\<rparr>"


theorem parse_madt_processors_witness:
  "\<exists>s'. parse_madt demo_firmware 0x1000 no_smp = Some s' \<and>
     take (unat (smp_cpu_count s')) (cpus s') =
       [\<lparr>processor_id = 0, smp_lapic_id = 0, enabled = False, bootstrap = False\<rparr>,
        \<lparr>processor_id = 1, smp_lapic_id = 1, enabled = True, bootstrap = False\<rparr>]"
proof -
  have b: "demo_firmware 0x102D = 8" "demo_firmware 0x1035 = 12" "demo_firmware 0x1041 = 8" by code_simp+
  have l: "k_le32 (mem_at demo_firmware 0x1004) = 72" by code_simp
  have w: "madt_walk demo_firmware 0x1048 0x102C [0x102C, 0x1034, 0x1040]"
    by (simp add: madt_walk_simps b word_le_nat_alt word_less_nat_alt)
  have c: "lapic_cpus demo_firmware True [0x102C, 0x1034, 0x1040] =
       [\<lparr>processor_id = 0, smp_lapic_id = 0, enabled = False, bootstrap = False\<rparr>,
        \<lparr>processor_id = 1, smp_lapic_id = 1, enabled = True, bootstrap = False\<rparr>]"
    by code_simp
  show ?thesis
    using parse_madt_processors [of "0x1000" no_smp demo_firmware "[0x102C, 0x1034, 0x1040]"] w l
    unfolding c by (simp add: no_smp_def)
qed

end
