(* ===== verification/Boot_Tables.thy ===== *)
theory Boot_Tables
  imports Smp Pmm
begin

text \<open>
  What the kernel reads and sets up before its first process: the information of the boot loader
  (\<^verbatim>\<open>arch/x86_64/boot/multiboot2.c\<close>), which the physical memory manager starts from, and the descriptor tables
  of segments and interrupts (\<^verbatim>\<open>arch/x86_64/inter/gdt.c\<close>, \<^verbatim>\<open>arch/x86_64/inter/idt.c\<close>). The addresses of the
  interrupt stubs, which are assembly, are arguments.
\<close>

section \<open>Boot information\<close>

record krbootinfo = bootinfo +
  framebuffer_width :: u32
  framebuffer_bpp :: u16

text \<open>The entries of the memory map as \<^verbatim>\<open>pmm_init\<close> reads them, 24 bytes each.\<close>

definition mmap_entries :: "mem \<Rightarrow> u64 \<Rightarrow> nat \<Rightarrow> pmm_mmap_entry list" where
  "mmap_entries m a n =
     map (\<lambda>i. let e = a + of_nat i * 24
              in \<lparr>mm_addr = k_le64 (mem_at m e), mm_length = k_le64 (mem_at m (e + 8)), mm_type = k_le32 (mem_at m (e + 16)),
                  mm_reserved = k_le32 (mem_at m (e + 20))\<rparr>) [0..<n]"

text \<open>A division by an entry size of zero is a fault.\<close>

definition read_tag :: "mem \<Rightarrow> u64 \<Rightarrow> krbootinfo \<Rightarrow> krbootinfo option" where
  "read_tag m tag bi =
     (let type = k_le32 (mem_at m tag); sz = k_le32 (mem_at m (tag + 4))
      in if type = 6 then
           let entry_size = k_le32 (mem_at m (tag + 8))
           in if entry_size = 0 then None
              else Some (bi\<lparr>memory_map := mmap_entries m (tag + 16) (unat ((ucast sz - 16 :: u64) div ucast entry_size))\<rparr>)
         else if type = 8 then
           Some (bi\<lparr>framebuffer := k_le64 (mem_at m (tag + 8)), framebuffer_pitch := k_le32 (mem_at m (tag + 16)),
                    framebuffer_width := k_le32 (mem_at m (tag + 20)), framebuffer_height := k_le32 (mem_at m (tag + 24)),
                    framebuffer_bpp := ucast (m (tag + 28))\<rparr>)
         else Some bi)"

definition next_tag :: "mem \<Rightarrow> u64 \<Rightarrow> u64" where
  "next_tag m tag = tag + ucast ((k_le32 (mem_at m (tag + 4)) + 7) AND NOT 7)"

partial_function (option) read_tags :: "mem \<Rightarrow> u64 \<Rightarrow> krbootinfo \<Rightarrow> krbootinfo option" where
  "read_tags m tag bi =
     (if k_le32 (mem_at m tag) \<noteq> 0 then do { bi \<leftarrow> read_tag m tag bi; read_tags m (next_tag m tag) bi } else Some bi)"

declare read_tags.simps [code]

text \<open>The boot information with which the kernel starts, or it halts.\<close>

definition kernel_entry :: "mem \<Rightarrow> u32 \<Rightarrow> u32 \<Rightarrow> krbootinfo \<Rightarrow> krbootinfo option" where
  "kernel_entry m magic info_addr bi =
     (if magic \<noteq> 0x36D76289 \<or> info_addr = 0 then None else read_tags m (ucast (info_addr + 8)) bi)"

section \<open>Segments\<close>

record gdt_entry =
  limit_low :: u16
  base_low :: u16
  base_mid :: u8
  access :: u8
  granularity :: u8
  base_high :: u8

definition gdt_set_entry :: "gdt_entry list \<Rightarrow> nat \<Rightarrow> u32 \<Rightarrow> u32 \<Rightarrow> u8 \<Rightarrow> u8 \<Rightarrow> gdt_entry list" where
  "gdt_set_entry gdt i base limit acc gran =
     gdt[i := \<lparr>limit_low = ucast (limit AND 0xFFFF), base_low = ucast (ucast (base AND 0xFFFF) :: u8),
       base_mid = ucast (drop_bit 16 base AND 0xFF), access = acc,
       granularity = ucast (drop_bit 16 limit AND 0x0F) OR gran AND 0xF0,
       base_high = ucast (drop_bit 24 base AND 0xFF)\<rparr>]"

text \<open>The descriptor of the task state has 16 bytes and takes two elements.\<close>

definition gdt_set_tss :: "gdt_entry list \<Rightarrow> nat \<Rightarrow> u64 \<Rightarrow> u32 \<Rightarrow> gdt_entry list" where
  "gdt_set_tss gdt i base limit =
     (let base_upper = ucast (drop_bit 32 base) :: u32
      in gdt[i := \<lparr>limit_low = ucast (limit AND 0xFFFF), base_low = ucast (base AND 0xFFFF),
           base_mid = ucast (drop_bit 16 base AND 0xFF), access = 0x89,
           granularity = ucast (drop_bit 16 limit AND 0x0F), base_high = ucast (drop_bit 24 base AND 0xFF)\<rparr>,
         Suc i := \<lparr>limit_low = ucast base_upper, base_low = ucast (drop_bit 16 base_upper), base_mid = 0, access = 0,
           granularity = 0, base_high = 0\<rparr>])"

record tss =
  rsp0 :: u64
  iomap_base :: u16

definition tss_set_kernel_stack :: "tss \<Rightarrow> u64 \<Rightarrow> tss" where
  "tss_set_kernel_stack t a = t\<lparr>rsp0 := a\<rparr>"

definition segments :: "gdt_entry list \<Rightarrow> gdt_entry list" where
  "segments g =
     (let g = gdt_set_entry g 0 0 0 0 0; g = gdt_set_entry g 1 0 0xFFFFF 0x9A 0xA0;
          g = gdt_set_entry g 2 0 0xFFFFF 0x92 0xC0; g = gdt_set_entry g 3 0 0xFFFFF 0xF2 0xC0
      in gdt_set_entry g 4 0 0xFFFFF 0xFA 0xA0)"

text \<open>The tables of the first processor with its task state at \<open>tss_addr\<close>, and of the others.\<close>

definition gdt_init :: "gdt_entry list \<Rightarrow> u64 \<Rightarrow> gdt_entry list \<times> tss" where
  "gdt_init g tss_addr = (gdt_set_tss (segments g) 5 tss_addr (104 - 1), \<lparr>rsp0 = 0, iomap_base = 104\<rparr>)"

definition gdt_build_ap :: "gdt_entry list \<Rightarrow> u64 \<Rightarrow> u64 \<Rightarrow> gdt_entry list \<times> tss" where
  "gdt_build_ap g tss_addr stk = (gdt_set_tss (segments g) 5 tss_addr (104 - 1), \<lparr>rsp0 = stk, iomap_base = 104\<rparr>)"

section \<open>Interrupts\<close>

record idt_entry =
  offset_low :: u16
  selector :: u16
  ist :: u8
  type_attr :: u8
  offset_mid :: u16
  offset_high :: u32

definition idt_set_gate :: "idt_entry list \<Rightarrow> u8 \<Rightarrow> u64 \<Rightarrow> u16 \<Rightarrow> u8 \<Rightarrow> u8 \<Rightarrow> idt_entry list" where
  "idt_set_gate idt v handler sel i attr =
     idt[unat v := \<lparr>offset_low = ucast (handler AND 0xFFFF), selector = sel, ist = i AND 7, type_attr = attr,
       offset_mid = ucast (drop_bit 16 handler AND 0xFFFF), offset_high = ucast (drop_bit 32 handler)\<rparr>]"

text \<open>The stub of a vector: the exceptions, the interrupts of the controllers, and the local timer.\<close>

definition stub_of :: "(nat \<Rightarrow> u64) \<Rightarrow> (nat \<Rightarrow> u64) \<Rightarrow> u64 \<Rightarrow> nat \<Rightarrow> u64" where
  "stub_of isr irq timer v = (if v < 32 then isr v else if v < 48 then irq (v - 32) else timer)"

definition idt_init :: "(nat \<Rightarrow> u64) \<Rightarrow> (nat \<Rightarrow> u64) \<Rightarrow> u64 \<Rightarrow> idt_entry list \<Rightarrow> idt_entry list" where
  "idt_init isr irq timer idt =
     (let idt = foldl (\<lambda>idt i. idt_set_gate idt (of_nat i) 0 0 0 0) idt [0..<256]
      in foldl (\<lambda>idt v. idt_set_gate idt (of_nat v) (stub_of isr irq timer v) 0x08 0 0x8E) idt [0..<49])"

section \<open>What the processor reads\<close>

definition gate_offset :: "idt_entry \<Rightarrow> u64" where
  "gate_offset e = ucast (offset_low e) OR push_bit 16 (ucast (offset_mid e)) OR push_bit 32 (ucast (offset_high e))"

definition tss_base :: "gdt_entry \<Rightarrow> gdt_entry \<Rightarrow> u64" where
  "tss_base e u = ucast (base_low e) OR push_bit 16 (ucast (base_mid e)) OR push_bit 24 (ucast (base_high e)) OR
     push_bit 32 (ucast (limit_low u)) OR push_bit 48 (ucast (base_low u))"

definition segment_base :: "gdt_entry \<Rightarrow> u32" where
  "segment_base e = ucast (base_low e) OR push_bit 16 (ucast (base_mid e)) OR push_bit 24 (ucast (base_high e))"

lemma gates_set:
  assumes "length idt = 256" "n \<le> 256" "v < 256"
  shows "foldl (\<lambda>idt i. idt_set_gate idt (of_nat i) (h i) sel k attr) idt [0..<n] ! v =
    (if v < n then \<lparr>offset_low = ucast (h v AND 0xFFFF), selector = sel, ist = k AND 7, type_attr = attr,
       offset_mid = ucast (drop_bit 16 (h v) AND 0xFFFF), offset_high = ucast (drop_bit 32 (h v))\<rparr> else idt ! v) \<and>
    length (foldl (\<lambda>idt i. idt_set_gate idt (of_nat i) (h i) sel k attr) idt [0..<n]) = 256"
  using assms(2)
proof (induction n)
  case (Suc n)
  then have "unat (of_nat n :: u8) = n" by (simp add: unat_of_nat)
  then show ?case using Suc assms by (auto simp: idt_set_gate_def nth_list_update less_Suc_eq)
qed (use assms in simp)

lemma low_bits: "x AND 0xFFFF = take_bit 16 x" "x AND 0xFF = take_bit 8 x" for x :: "'a :: len word"
  by (simp_all add: take_bit_eq_mask mask_eq_exp_minus_1)

text \<open>A word is put together again from its parts.\<close>

lemma word_parts:
  fixes h :: u64
  shows "ucast (ucast h :: u16) OR push_bit 16 (ucast (ucast (drop_bit 16 h) :: u16)) OR
      push_bit 32 (ucast (ucast (drop_bit 32 h) :: u32)) = h"
    "ucast (ucast h :: u16) OR push_bit 16 (ucast (ucast (drop_bit 16 h) :: u8)) OR
      push_bit 24 (ucast (ucast (drop_bit 24 h) :: u8)) OR push_bit 32 (ucast (ucast (drop_bit 32 h) :: u16)) OR
      push_bit 48 (ucast (ucast (drop_bit 48 h) :: u16)) = h"
proof (rule bit_word_eqI)
  fix n assume "n < LENGTH(64)"
  consider "n < 16" | "16 \<le> n" "n < 32" | "32 \<le> n" by linarith
  then show "bit (ucast (ucast h :: u16) OR push_bit 16 (ucast (ucast (drop_bit 16 h) :: u16)) OR
      push_bit 32 (ucast (ucast (drop_bit 32 h) :: u32)) :: u64) n = bit h n"
    using \<open>n < LENGTH(64)\<close> by cases (auto simp: bit_simps)
next
  show "ucast (ucast h :: u16) OR push_bit 16 (ucast (ucast (drop_bit 16 h) :: u8)) OR
      push_bit 24 (ucast (ucast (drop_bit 24 h) :: u8)) OR push_bit 32 (ucast (ucast (drop_bit 32 h) :: u16)) OR
      push_bit 48 (ucast (ucast (drop_bit 48 h) :: u16)) = h"
  proof (rule bit_word_eqI)
    fix n assume "n < LENGTH(64)"
    consider "n < 16" | "16 \<le> n" "n < 24" | "24 \<le> n" "n < 32" | "32 \<le> n" "n < 48" | "48 \<le> n" by linarith
    then show "bit (ucast (ucast h :: u16) OR push_bit 16 (ucast (ucast (drop_bit 16 h) :: u8)) OR
      push_bit 24 (ucast (ucast (drop_bit 24 h) :: u8)) OR push_bit 32 (ucast (ucast (drop_bit 32 h) :: u16)) OR
      push_bit 48 (ucast (ucast (drop_bit 48 h) :: u16)) :: u64) n = bit h n"
      using \<open>n < LENGTH(64)\<close> by cases (auto simp: bit_simps)
  qed
qed

lemma ucast_low: "ucast (take_bit 16 x) = (ucast x :: u16)" "ucast (take_bit 8 x) = (ucast x :: u8)" for x :: u64
  by (rule bit_word_eqI, auto simp: bit_simps)+

lemma gate_offset_split:
  "gate_offset \<lparr>offset_low = ucast (h AND 0xFFFF), selector = sel, ist = k, type_attr = attr,
     offset_mid = ucast (drop_bit 16 h AND 0xFFFF), offset_high = ucast (drop_bit 32 h)\<rparr> = h"
  by (simp add: gate_offset_def low_bits ucast_low word_parts(1))

text \<open>
  C34: after the initialisation of the interrupt table the processor finds the right stub for every vector: a gate of
  the first 49 vectors is present, is an interrupt gate of the kernel code segment that user code may not call, and
  its three parts give the address of the stub of that vector; all other gates are absent.
\<close>

theorem idt_gates_lead_to_stubs:
  assumes "length idt = 256" "v < 256"
  shows "let e = idt_init isr irq timer idt ! v
    in if v < 49 then gate_offset e = stub_of isr irq timer v \<and> selector e = 0x08 \<and> type_attr e = 0x8E \<and> ist e = 0
       else type_attr e = 0"
proof -
  let ?i = "foldl (\<lambda>idt i. idt_set_gate idt (of_nat i) 0 0 0 0) idt [0..<256]"
  have i: "type_attr (?i ! v) = 0" "length ?i = 256"
    using gates_set [OF assms(1) _ assms(2), of 256 "\<lambda>_. 0" 0 0 0] assms(2) by auto
  show ?thesis
    using gates_set [OF i(2) _ assms(2), of 49 "stub_of isr irq timer" "0x08" 0 "0x8E"] i(1) gate_offset_split
    by (auto simp: idt_init_def Let_def)
qed

theorem idt_gates_lead_to_stubs_witness:
  "gate_offset (idt_init (\<lambda>v. 0xFFFF800012340000 + of_nat v * 16) (\<lambda>v. 0x2000 + of_nat v) 0x3000
     (replicate 256 \<lparr>offset_low = 0, selector = 0, ist = 0, type_attr = 0, offset_mid = 0, offset_high = 0\<rparr>) ! 14) =
   0xFFFF8000123400E0"
  using idt_gates_lead_to_stubs [of "replicate 256 \<lparr>offset_low = 0, selector = 0, ist = 0, type_attr = 0, offset_mid = 0, offset_high = 0\<rparr>"
      14 "\<lambda>v. 0xFFFF800012340000 + of_nat v * 16" "\<lambda>v. 0x2000 + of_nat v" "0x3000"]
  by (simp add: Let_def stub_of_def)

text \<open>
  The task state is found at its address; the base of a segment is stored with only eight of its sixteen low bits,
  which is right for the base 0 that all segments have, but a base such as 0x1234 would become 0x34.
\<close>

lemma upper_halves:
  fixes a :: u64
  shows "ucast (ucast (drop_bit 32 a) :: u32) = (ucast (drop_bit 32 a) :: u16)"
    "ucast (drop_bit 16 (ucast (drop_bit 32 a) :: u32)) = (ucast (drop_bit 48 a) :: u16)"
  by (rule bit_word_eqI, auto simp: bit_simps)+

lemma gdt_tss_base: "length g = 7 \<Longrightarrow> tss_base (fst (gdt_init g a) ! 5) (fst (gdt_init g a) ! 6) = a"
  by (simp add: gdt_init_def gdt_set_tss_def Let_def segments_def gdt_set_entry_def tss_base_def low_bits ucast_low
      upper_halves word_parts(2))

lemma segment_base_truncated:
  "i < length g \<Longrightarrow> segment_base (gdt_set_entry g i 0x1234 l acc gr ! i) = 0x34"
  by (simp add: segment_base_def gdt_set_entry_def)

text \<open>The order of the user segments that the return from a system call relies on, and their privilege.\<close>

lemma user_segments:
  "length g = 7 \<Longrightarrow> access (fst (gdt_init g a) ! 3) = 0xF2 \<and> access (fst (gdt_init g a) ! 4) = 0xFA \<and>
     granularity (fst (gdt_init g a) ! 4) = 0xAF"
  by (simp add: gdt_init_def gdt_set_tss_def Let_def segments_def gdt_set_entry_def)

section \<open>Lists of tags\<close>

text \<open>The addresses of the tags that follow each other from \<open>a\<close> to the end tag.\<close>

inductive tag_chain :: "mem \<Rightarrow> u64 \<Rightarrow> u64 list \<Rightarrow> bool" for m where
  end_tag: "k_le32 (mem_at m a) = 0 \<Longrightarrow> tag_chain m a []"
| tag: "k_le32 (mem_at m a) \<noteq> 0 \<Longrightarrow> tag_chain m (next_tag m a) as \<Longrightarrow> tag_chain m a (a # as)"

definition mmap_tag :: "mem \<Rightarrow> u64 \<Rightarrow> bool" where
  "mmap_tag m a \<longleftrightarrow> k_le32 (mem_at m a) = 6"

definition tag_map :: "mem \<Rightarrow> u64 \<Rightarrow> pmm_mmap_entry list" where
  "tag_map m a = mmap_entries m (a + 16)
     (unat ((ucast (k_le32 (mem_at m (a + 4))) - 16 :: u64) div ucast (k_le32 (mem_at m (a + 8)))))"

lemma read_tags_map:
  "tag_chain m a as \<Longrightarrow> \<forall>t \<in> set as. mmap_tag m t \<longrightarrow> k_le32 (mem_at m (t + 8)) \<noteq> 0 \<Longrightarrow>
   \<exists>bi'. read_tags m a bi = Some bi' \<and>
     memory_map bi' = (if filter (mmap_tag m) as = [] then memory_map bi else tag_map m (last (filter (mmap_tag m) as)))"
proof (induction a as arbitrary: bi rule: tag_chain.induct)
  case (end_tag a)
  then show ?case by (subst read_tags.simps) simp
next
  case (tag a as)
  obtain b where b: "read_tag m a bi = Some b" "memory_map b = (if mmap_tag m a then tag_map m a else memory_map bi)"
  proof (cases "mmap_tag m a")
    case True
    then have "k_le32 (mem_at m (a + 8)) \<noteq> 0" using tag.prems by simp
    then show ?thesis using True that by (simp add: read_tag_def mmap_tag_def tag_map_def Let_def)
  next
    case False
    then show ?thesis using that by (cases "k_le32 (mem_at m a) = 8") (simp_all add: read_tag_def mmap_tag_def Let_def)
  qed
  then show ?case using tag.IH [of b] tag.hyps(1) tag.prems by (subst read_tags.simps) auto
qed

text \<open>
  When the tags form a list and the memory maps among them have entries of some size, the kernel starts with the
  entries of the last memory map, which are those the physical memory manager is initialised from.
\<close>

lemma kernel_entry_memory_map:
  assumes "magic = 0x36D76289" "info_addr \<noteq> 0" "tag_chain m (ucast (info_addr + 8)) as" "filter (mmap_tag m) as \<noteq> []"
    "\<forall>t \<in> set as. mmap_tag m t \<longrightarrow> k_le32 (mem_at m (t + 8)) \<noteq> 0"
  shows "\<exists>bi'. kernel_entry m magic info_addr bi = Some bi' \<and> memory_map bi' = tag_map m (last (filter (mmap_tag m) as))"
  using read_tags_map [OF assms(3,5), of bi] assms(1,2,4) by (simp add: kernel_entry_def)

end
