(* ===== verification/Kilo.thy ===== *)
theory Kilo
  imports Mem_Lib
begin

text \<open>
  The text of the editor among the user programs, \<^verbatim>\<open>userspace/kilo/main.c\<close>: rows and their highlighting, the editing
  operations at the cursor, cursor movement, and the way of a file into the editor and back. Counts and positions
  are integers, as they stay far below the limits of the C type; this includes the length of the whole text, which
  the program keeps in an \<^verbatim>\<open>int\<close>. A result \<open>None\<close> is the exit on a row that is too long, or an access outside a row,
  its drawing, its highlighting or the array of rows.
\<close>

section \<open>Highlighting\<close>

record editor_syntax =
  filematch :: "cstring list"
  hl_words :: "cstring list"
  singleline_comment_start :: cstring
  multiline_comment_start :: cstring
  multiline_comment_end :: cstring

record erow =
  idx :: int
  chars :: "u8 list"
  render :: "u8 list"
  hl :: "u8 list"
  hl_oc :: bool

definition HL_NORMAL :: u8 where "HL_NORMAL = 0"
definition HL_NONPRINT :: u8 where "HL_NONPRINT = 1"
definition HL_COMMENT :: u8 where "HL_COMMENT = 2"
definition HL_MLCOMMENT :: u8 where "HL_MLCOMMENT = 3"
definition HL_KEYWORD1 :: u8 where "HL_KEYWORD1 = 4"
definition HL_KEYWORD2 :: u8 where "HL_KEYWORD2 = 5"
definition HL_STRING :: u8 where "HL_STRING = 6"
definition HL_NUMBER :: u8 where "HL_NUMBER = 7"

definition C_HL_KEYWORDS :: "cstring list" where
  "C_HL_KEYWORDS = map str [''auto'', ''break'', ''case'', ''continue'', ''default'', ''do'', ''else'', ''enum'',
     ''extern'', ''for'', ''goto'', ''if'', ''register'', ''return'', ''sizeof'', ''static'',
     ''struct'', ''switch'', ''typedef'', ''union'', ''volatile'', ''while'', ''NULL'',
     ''alignas'', ''alignof'', ''and'', ''and_eq'', ''asm'', ''bitand'', ''bitor'', ''class'',
     ''compl'', ''constexpr'', ''const_cast'', ''deltype'', ''delete'', ''dynamic_cast'',
     ''explicit'', ''export'', ''false'', ''friend'', ''inline'', ''mutable'', ''namespace'',
     ''new'', ''noexcept'', ''not'', ''not_eq'', ''nullptr'', ''operator'', ''or'', ''or_eq'',
     ''private'', ''protected'', ''public'', ''reinterpret_cast'', ''static_assert'',
     ''static_cast'', ''template'', ''this'', ''thread_local'', ''throw'', ''true'', ''try'',
     ''typeid'', ''typename'', ''virtual'', ''xor'', ''xor_eq'',
     ''int|'', ''long|'', ''double|'', ''float|'', ''char|'', ''unsigned|'', ''signed|'',
     ''void|'', ''short|'', ''auto|'', ''const|'', ''bool|'']"

definition HLDB :: "editor_syntax list" where
  "HLDB = [\<lparr>filematch = map str [''.c'', ''.h'', ''.cpp'', ''.hpp'', ''.cc''], hl_words = C_HL_KEYWORDS,
     singleline_comment_start = str ''//'', multiline_comment_start = str ''/*'', multiline_comment_end = str ''*/''\<rparr>]"

text \<open>Characters as the C library classifies them; a byte above 127 is a negative character.\<close>

definition isspace :: "u8 \<Rightarrow> bool" where
  "isspace c \<longleftrightarrow> 9 \<le> c \<and> c \<le> 13 \<or> c = 32"

definition isprint :: "u8 \<Rightarrow> bool" where
  "isprint c \<longleftrightarrow> 32 \<le> c \<and> c \<le> 126"

definition is_separator :: "u8 \<Rightarrow> bool" where
  "is_separator c \<longleftrightarrow> c = 0 \<or> isspace c \<or> c \<in> set (str '',.()+-/*=~%[];'')"

definition editorRowHasOpenComment :: "erow \<Rightarrow> bool" where
  "editorRowHasOpenComment r \<longleftrightarrow>
     (let rsize = length (render r)
      in hl r \<noteq> [] \<and> rsize \<noteq> 0 \<and> hl r ! (rsize - 1) = HL_MLCOMMENT \<and>
         (rsize < 2 \<or> render r ! (rsize - 2) \<noteq> 42 \<or> render r ! (rsize - 1) \<noteq> 47))"

text \<open>Reading the drawing with its final zero byte, and writing the highlighting, inside their bounds.\<close>

definition render_at :: "u8 list \<Rightarrow> nat \<Rightarrow> u8 option" where
  "render_at rd i = (if i < length rd then Some (rd ! i) else if i = length rd then Some 0 else None)"

definition set_hl :: "u8 list \<Rightarrow> nat \<Rightarrow> nat \<Rightarrow> u8 \<Rightarrow> u8 list option" where
  "set_hl h i n v = (if i + n \<le> length h then Some (take i h @ replicate n v @ drop (i + n) h) else None)"

definition starts_with :: "u8 list \<Rightarrow> nat \<Rightarrow> cstring \<Rightarrow> bool option" where
  "starts_with rd i m = do {
     a \<leftarrow> render_at rd i;
     if a = m ! 0 then do { b \<leftarrow> render_at rd (i + 1); Some (b = m ! 1) } else Some False
   }"

definition word_len :: "cstring \<Rightarrow> nat" where
  "word_len w = (if last w = 124 then length w - 1 else length w)"

definition word_at :: "u8 list \<Rightarrow> nat \<Rightarrow> cstring list \<Rightarrow> cstring option" where
  "word_at rd i ws = find (\<lambda>w. take (word_len w) (drop i rd) = take (word_len w) w \<and>
     is_separator ((rd @ [0]) ! (i + word_len w))) ws"

definition in_number :: "u8 list \<Rightarrow> nat \<Rightarrow> bool" where
  "in_number h i \<longleftrightarrow> 0 < i \<and> i \<le> length h \<and> h ! (i - 1) = HL_NUMBER"

text \<open>
  One turn of the loop over the characters of a row, at offset \<open>i\<close> of the drawing: the result of the function, or the
  state of the next turn. The flag of the result is false when the function returns at a comment that extends to the
  end of the row.
\<close>

type_synonym hl_state = "nat \<times> bool \<times> u8 \<times> bool \<times> u8 list"

definition next_hl ::
  "nat \<Rightarrow> nat \<Rightarrow> u8 \<Rightarrow> bool \<Rightarrow> u8 \<Rightarrow> bool \<Rightarrow> u8 list \<Rightarrow> (bool \<times> u8 list + hl_state) option" where
  "next_hl i n v prev_sep in_string in_comment h =
     map_option (\<lambda>h. Inr (i + n, prev_sep, in_string, in_comment, h)) (set_hl h i n v)"

definition hl_turn :: "editor_syntax \<Rightarrow> nat \<Rightarrow> u8 list \<Rightarrow> hl_state \<Rightarrow> (bool \<times> u8 list + hl_state) option" where
  "hl_turn sy sz rd t = (case t of (i, prev_sep, in_string, in_comment, h) \<Rightarrow> do {
     c \<leftarrow> render_at rd i;
     if c = 0 then Some (Inl (True, h))
     else do {
       single \<leftarrow> (if prev_sep then starts_with rd i (singleline_comment_start sy) else Some False);
       start \<leftarrow> starts_with rd i (multiline_comment_start sy);
       fin \<leftarrow> starts_with rd i (multiline_comment_end sy);
       if single then
         if sz < i then None else do { h \<leftarrow> set_hl h i (sz - i) HL_COMMENT; Some (Inl (False, h)) }
       else if in_comment then
         if fin then next_hl i 2 HL_MLCOMMENT True in_string False h else next_hl i 1 HL_MLCOMMENT False in_string True h
       else if start then next_hl i 2 HL_MLCOMMENT False in_string True h
       else if in_string \<noteq> 0 then
         if c = 92 then next_hl i 2 HL_STRING False in_string False h
         else next_hl i 1 HL_STRING prev_sep (if c = in_string then 0 else in_string) False h
       else if c = 34 \<or> c = 39 then next_hl i 1 HL_STRING False c False h
       else if \<not> isprint c then next_hl i 1 HL_NONPRINT False 0 False h
       else if 48 \<le> c \<and> c \<le> 57 \<and> (prev_sep \<or> in_number h i) \<or> c = 46 \<and> in_number h i
       then next_hl i 1 HL_NUMBER False 0 False h
       else case (if prev_sep then word_at rd i (hl_words sy) else None) of
         Some w \<Rightarrow> next_hl i (word_len w) (if last w = 124 then HL_KEYWORD2 else HL_KEYWORD1) False 0 False h
       | None \<Rightarrow> Some (Inr (i + 1, is_separator c, 0, False, h))
     }
   })"

partial_function (option) hl_loop :: "editor_syntax \<Rightarrow> nat \<Rightarrow> u8 list \<Rightarrow> hl_state \<Rightarrow> (bool \<times> u8 list) option" where
  "hl_loop sy sz rd t =
     (case hl_turn sy sz rd t of
        None \<Rightarrow> None | Some (Inl res) \<Rightarrow> Some res | Some (Inr t) \<Rightarrow> hl_loop sy sz rd t)"

declare hl_loop.simps [code]

text \<open>
  Highlighting the row at position \<open>j\<close> of the array, with \<open>n\<close> the number of rows the program has counted. The
  rows before and after it are found by its number, which need not be its position.
\<close>

partial_function (option) editorUpdateSyntax ::
  "editor_syntax option \<Rightarrow> int \<Rightarrow> erow list \<Rightarrow> nat \<Rightarrow> erow list option" where
  "editorUpdateSyntax syn n rs j =
     (if j \<ge> length rs then None
      else let r = rs ! j; h = replicate (length (render r)) HL_NORMAL; rs = rs[j := r\<lparr>hl := h\<rparr>]
      in case syn of
        None \<Rightarrow> Some rs
      | Some sy \<Rightarrow>
          if idx r > int (length rs) then None
          else let open_before = idx r > 0 \<and> editorRowHasOpenComment (rs ! nat (idx r - 1))
          in case hl_loop sy (length (chars r)) (render r)
                    (length (takeWhile isspace (render r)), True, 0, open_before, h) of
               None \<Rightarrow> None
             | Some (propagate, h) \<Rightarrow>
                 let r = r\<lparr>hl := h\<rparr>; rs = rs[j := r]; oc = editorRowHasOpenComment r
                 in if \<not> propagate then Some rs
                    else if hl_oc r \<noteq> oc \<and> idx r + 1 < n
                    then if idx r + 1 < 0 then None
                         else do {
                           rs \<leftarrow> editorUpdateSyntax syn n rs (nat (idx r + 1));
                           Some (rs[j := (rs ! j)\<lparr>hl_oc := oc\<rparr>])
                         }
                    else Some (rs[j := r\<lparr>hl_oc := oc\<rparr>]))"

declare editorUpdateSyntax.simps [code]

section \<open>Rows\<close>

record editor =
  cx :: int
  cy :: int
  rowoff :: int
  coloff :: int
  screenrows :: int
  screencols :: int
  row :: "erow list"
  dirty :: int
  esyntax :: "editor_syntax option"

definition numrows :: "editor \<Rightarrow> int" where
  "numrows e = int (length (row e))"

text \<open>The first place where a string occurs in another.\<close>

fun strstr :: "cstring \<Rightarrow> cstring \<Rightarrow> nat option" where
  "strstr [] p = (if p = [] then Some 0 else None)"
| "strstr (c # s) p = (if take (length p) (c # s) = p then Some 0 else map_option Suc (strstr s p))"

definition pattern_matches :: "cstring \<Rightarrow> cstring \<Rightarrow> bool" where
  "pattern_matches filename p \<longleftrightarrow>
     (case strstr filename p of None \<Rightarrow> False | Some k \<Rightarrow> hd p \<noteq> 46 \<or> k + length p = length filename)"

definition editorSelectSyntaxHighlight :: "editor \<Rightarrow> cstring \<Rightarrow> editor" where
  "editorSelectSyntaxHighlight e filename =
     (case find (\<lambda>s. list_ex (pattern_matches filename) (filematch s)) HLDB of
        None \<Rightarrow> e | Some s \<Rightarrow> e\<lparr>esyntax := Some s\<rparr>)"

text \<open>A tab becomes spaces up to a column one before a multiple of eight.\<close>

definition render_tab :: "u8 list \<Rightarrow> u8 list" where
  "render_tab acc = (let acc = acc @ [32] in acc @ replicate (7 - length acc mod 8) 32)"

fun render_loop :: "u8 list \<Rightarrow> u8 list \<Rightarrow> u8 list" where
  "render_loop acc [] = acc"
| "render_loop acc (c # cs) = render_loop (if c = 9 then render_tab acc else acc @ [c]) cs"

definition tabs :: "u8 list \<Rightarrow> nat" where
  "tabs cs = length (filter ((=) 9) cs)"

definition allocsize :: "u8 list \<Rightarrow> u64" where
  "allocsize cs = of_nat (length cs) + ucast (of_nat (tabs cs) * 8 :: u32) + 1"

definition editorUpdateRow :: "editor_syntax option \<Rightarrow> int \<Rightarrow> erow list \<Rightarrow> nat \<Rightarrow> erow list option" where
  "editorUpdateRow syn n rs j =
     (let r = rs ! j
      in if allocsize (chars r) > 0xFFFFFFFF then None
         else editorUpdateSyntax syn n (rs[j := r\<lparr>render := render_loop [] (chars r)\<rparr>]) j)"

definition shift_idx :: "nat \<Rightarrow> erow list \<Rightarrow> erow list" where
  "shift_idx k rs = take k rs @ map (\<lambda>r. r\<lparr>idx := idx r + 1\<rparr>) (drop k rs)"

definition editorInsertRow :: "editor \<Rightarrow> nat \<Rightarrow> u8 list \<Rightarrow> editor option" where
  "editorInsertRow e i s =
     (if int i > numrows e then Some e
      else do {
        let new = \<lparr>idx = int i, chars = s, render = [], hl = [], hl_oc = False\<rparr>;
        rs \<leftarrow> editorUpdateRow (esyntax e) (numrows e) (take i (row e) @ new # drop i (shift_idx i (row e))) i;
        Some (e\<lparr>row := rs, dirty := dirty e + 1\<rparr>)
      })"

definition editorDelRow :: "editor \<Rightarrow> nat \<Rightarrow> editor" where
  "editorDelRow e i =
     (if int i \<ge> numrows e then e
      else e\<lparr>row := shift_idx i (take i (row e) @ drop (Suc i) (row e)), dirty := dirty e + 1\<rparr>)"

definition editorRowsToString :: "editor \<Rightarrow> u8 list" where
  "editorRowsToString e = concat (map (\<lambda>r. chars r @ [10]) (row e))"

text \<open>The characters of the row at position \<open>j\<close> are replaced and the row is drawn again.\<close>

definition set_chars :: "erow list \<Rightarrow> nat \<Rightarrow> u8 list \<Rightarrow> erow list" where
  "set_chars rs j cs = rs[j := (rs ! j)\<lparr>chars := cs\<rparr>]"

definition redraw_row :: "editor \<Rightarrow> nat \<Rightarrow> u8 list \<Rightarrow> editor option" where
  "redraw_row e j cs = do {
     rs \<leftarrow> editorUpdateRow (esyntax e) (numrows e) (set_chars (row e) j cs) j;
     Some (e\<lparr>row := rs\<rparr>)
   }"

definition editorRowInsertChar :: "editor \<Rightarrow> nat \<Rightarrow> nat \<Rightarrow> u8 \<Rightarrow> editor option" where
  "editorRowInsertChar e j i c =
     (let cs = chars (row e ! j)
      in do {
        e \<leftarrow> redraw_row e j (if i > length cs then cs @ replicate (i - length cs) 32 @ [c] else take i cs @ c # drop i cs);
        Some (e\<lparr>dirty := dirty e + 1\<rparr>)
      })"

definition editorRowAppendString :: "editor \<Rightarrow> nat \<Rightarrow> u8 list \<Rightarrow> editor option" where
  "editorRowAppendString e j s = do {
     e \<leftarrow> redraw_row e j (chars (row e ! j) @ s);
     Some (e\<lparr>dirty := dirty e + 1\<rparr>)
   }"

text \<open>The row is drawn before its size is reduced, so the drawing still has the final zero byte as a character.\<close>

definition editorRowDelChar :: "editor \<Rightarrow> nat \<Rightarrow> nat \<Rightarrow> editor option" where
  "editorRowDelChar e j i =
     (let cs = chars (row e ! j)
      in if length cs \<le> i then Some e
         else do {
           e \<leftarrow> redraw_row e j (take i cs @ drop (Suc i) cs @ [0]);
           Some (e\<lparr>row := set_chars (row e) j (take i cs @ drop (Suc i) cs), dirty := dirty e + 1\<rparr>)
         })"

section \<open>Editing at the cursor\<close>

fun add_rows :: "nat \<Rightarrow> editor \<Rightarrow> editor option" where
  "add_rows 0 e = Some e"
| "add_rows (Suc n) e = do { e \<leftarrow> editorInsertRow e (length (row e)) []; add_rows n e }"

definition editorInsertChar :: "editor \<Rightarrow> u8 \<Rightarrow> editor option" where
  "editorInsertChar e c =
     (let filerow = rowoff e + cy e; filecol = coloff e + cx e
      in if filerow < 0 \<or> filecol < 0 then None
         else do {
           e \<leftarrow> add_rows (nat (filerow + 1 - numrows e)) e;
           e \<leftarrow> editorRowInsertChar e (nat filerow) (nat filecol) c;
           let e = (if cx e = screencols e - 1 then e\<lparr>coloff := coloff e + 1\<rparr> else e\<lparr>cx := cx e + 1\<rparr>);
           Some (e\<lparr>dirty := dirty e + 1\<rparr>)
         })"

definition newline_cursor :: "editor \<Rightarrow> editor" where
  "newline_cursor e =
     (if cy e = screenrows e - 1 then e\<lparr>rowoff := rowoff e + 1\<rparr> else e\<lparr>cy := cy e + 1\<rparr>)\<lparr>cx := 0, coloff := 0\<rparr>"

definition editorInsertNewline :: "editor \<Rightarrow> editor option" where
  "editorInsertNewline e =
     (let filerow = rowoff e + cy e; filecol = coloff e + cx e
      in if filerow \<ge> numrows e then
           if filerow = numrows e then do { e \<leftarrow> editorInsertRow e (nat filerow) []; Some (newline_cursor e) } else Some e
         else if filerow < 0 \<or> filecol < 0 then None
         else let cs = chars (row e ! nat filerow); k = min (nat filecol) (length cs)
              in if k = 0 then do { e \<leftarrow> editorInsertRow e (nat filerow) []; Some (newline_cursor e) }
                 else do {
                   e \<leftarrow> editorInsertRow e (nat filerow + 1) (drop k cs);
                   e \<leftarrow> redraw_row e (nat filerow) (take k cs);
                   Some (newline_cursor e)
                 })"

definition editorDelChar :: "editor \<Rightarrow> editor option" where
  "editorDelChar e =
     (let filerow = rowoff e + cy e; filecol = coloff e + cx e
      in if filerow \<ge> numrows e \<or> filecol = 0 \<and> filerow = 0 then Some e
         else if filerow < 0 \<or> filecol < 0 then None
         else let f = nat filerow
              in if filecol = 0 then
                   let col = int (length (chars (row e ! (f - 1))))
                   in do {
                     e \<leftarrow> editorRowAppendString e (f - 1) (chars (row e ! f));
                     let e = editorDelRow e f;
                     let e = (if cy e = 0 then e\<lparr>rowoff := rowoff e - 1\<rparr> else e\<lparr>cy := cy e - 1\<rparr>);
                     let e = e\<lparr>cx := col\<rparr>;
                     let e = (if cx e \<ge> screencols e
                              then let shift = screencols e - cx e + 1 in e\<lparr>cx := cx e - shift, coloff := coloff e + shift\<rparr>
                              else e);
                     Some (e\<lparr>dirty := dirty e + 1\<rparr>)
                   }
                 else do {
                   e \<leftarrow> editorRowDelChar e f (nat filecol - 1);
                   let e = (if cx e = 0 \<and> coloff e \<noteq> 0 then e\<lparr>coloff := coloff e - 1\<rparr> else e\<lparr>cx := cx e - 1\<rparr>);
                   e \<leftarrow> redraw_row e f (chars (row e ! f));
                   Some (e\<lparr>dirty := dirty e + 1\<rparr>)
                 })"

section \<open>Files\<close>

text \<open>The lines that successive calls of \<^verbatim>\<open>getline\<close> return, each with its newline.\<close>

fun getlines :: "u8 list \<Rightarrow> u8 list list" where
  "getlines [] = []"
| "getlines (b # bs) =
     (if b = 10 then [10] # getlines bs
      else case getlines bs of [] \<Rightarrow> [[b]] | l # ls \<Rightarrow> (b # l) # ls)"

definition strip_line :: "u8 list \<Rightarrow> u8 list" where
  "strip_line l = (if l \<noteq> [] \<and> (last l = 10 \<or> last l = 13) then butlast l else l)"

fun open_lines :: "editor \<Rightarrow> u8 list list \<Rightarrow> editor option" where
  "open_lines e [] = Some e"
| "open_lines e (l # ls) = do { e \<leftarrow> editorInsertRow e (length (row e)) (strip_line l); open_lines e ls }"

text \<open>The content of the file, or \<open>None\<close> when there is no such file.\<close>

definition editorOpen :: "editor \<Rightarrow> u8 list option \<Rightarrow> (int \<times> editor) option" where
  "editorOpen e f =
     (let e = e\<lparr>dirty := 0\<rparr>
      in case f of
           None \<Rightarrow> Some (1, e)
         | Some content \<Rightarrow> do { e \<leftarrow> open_lines e (getlines content); Some (0, e\<lparr>dirty := 0\<rparr>) })"

definition initEditor :: "int \<Rightarrow> int \<Rightarrow> editor" where
  "initEditor rows cols = \<lparr>cx = 0, cy = 0, rowoff = 0, coloff = 0, screenrows = rows - 2, screencols = cols, row = [], dirty = 0, esyntax = None\<rparr>"

section \<open>Cursor movement\<close>

datatype arrow = ARROW_LEFT | ARROW_RIGHT | ARROW_UP | ARROW_DOWN

definition row_size :: "editor \<Rightarrow> int \<Rightarrow> int option" where
  "row_size e i = (if i < 0 then None else if i \<ge> numrows e then Some 0 else Some (int (length (chars (row e ! nat i)))))"

definition arrow_left :: "editor \<Rightarrow> editor option" where
  "arrow_left e =
     (let filerow = rowoff e + cy e
      in if cx e = 0 then
           if coloff e \<noteq> 0 then Some (e\<lparr>coloff := coloff e - 1\<rparr>)
           else if filerow > 0 then do {
             n \<leftarrow> (if filerow - 1 \<ge> numrows e then None else row_size e (filerow - 1));
             let e = e\<lparr>cy := cy e - 1, cx := n\<rparr>;
             Some (if cx e > screencols e - 1
                   then e\<lparr>coloff := cx e - screencols e + 1, cx := screencols e - 1\<rparr> else e)
           }
           else Some e
         else Some (e\<lparr>cx := cx e - 1\<rparr>))"

definition row_down :: "editor \<Rightarrow> editor" where
  "row_down e = (if cy e = screenrows e - 1 then e\<lparr>rowoff := rowoff e + 1\<rparr> else e\<lparr>cy := cy e + 1\<rparr>)"

definition arrow_right :: "editor \<Rightarrow> editor option" where
  "arrow_right e =
     (let filerow = rowoff e + cy e; filecol = coloff e + cx e
      in if filerow \<ge> numrows e then Some e
         else do {
           n \<leftarrow> row_size e filerow;
           Some (if filecol < n then if cx e = screencols e - 1 then e\<lparr>coloff := coloff e + 1\<rparr> else e\<lparr>cx := cx e + 1\<rparr>
                 else if filecol = n then row_down (e\<lparr>cx := 0, coloff := 0\<rparr>)
                 else e)
         })"

definition fix_cx :: "editor \<Rightarrow> editor option" where
  "fix_cx e = do {
     rowlen \<leftarrow> row_size e (rowoff e + cy e);
     let filecol = coloff e + cx e;
     if filecol > rowlen then
       let e = e\<lparr>cx := cx e - (filecol - rowlen)\<rparr>
       in Some (if cx e < 0 then e\<lparr>coloff := coloff e + cx e, cx := 0\<rparr> else e)
     else Some e
   }"

definition editorMoveCursor :: "editor \<Rightarrow> arrow \<Rightarrow> editor option" where
  "editorMoveCursor e key = do {
     e \<leftarrow> (case key of
            ARROW_LEFT \<Rightarrow> arrow_left e
          | ARROW_RIGHT \<Rightarrow> arrow_right e
          | ARROW_UP \<Rightarrow> Some (if cy e = 0 then if rowoff e \<noteq> 0 then e\<lparr>rowoff := rowoff e - 1\<rparr> else e
                             else e\<lparr>cy := cy e - 1\<rparr>)
          | ARROW_DOWN \<Rightarrow> Some (if rowoff e + cy e < numrows e then row_down e else e));
     fix_cx e
   }"

section \<open>The text of the editor\<close>

definition text_lines :: "editor \<Rightarrow> u8 list list" where
  "text_lines e = map chars (row e)"

text \<open>Rows short enough that drawing them never exits, also after two of them are joined.\<close>

definition short_rows :: "editor \<Rightarrow> bool" where
  "short_rows e \<longleftrightarrow> (\<forall>l \<in> set (text_lines e). length l < 2 ^ 27)"

text \<open>Inserting a character, splitting a line and deleting a character, on a list of lines.\<close>

definition text_insert :: "u8 list list \<Rightarrow> nat \<Rightarrow> nat \<Rightarrow> u8 \<Rightarrow> u8 list list" where
  "text_insert ls r k c =
     (let ls = ls @ replicate (Suc r - length ls) []; l = ls ! r
      in ls[r := take k l @ replicate (k - length l) 32 @ c # drop k l])"

definition text_newline :: "u8 list list \<Rightarrow> nat \<Rightarrow> nat \<Rightarrow> u8 list list" where
  "text_newline ls r k =
     (if r > length ls then ls else if r = length ls then ls @ [[]]
      else take r ls @ [take k (ls ! r), drop k (ls ! r)] @ drop (Suc r) ls)"

definition text_delete :: "u8 list list \<Rightarrow> nat \<Rightarrow> nat \<Rightarrow> u8 list list" where
  "text_delete ls r k =
     (if r \<ge> length ls \<or> r = 0 \<and> k = 0 then ls
      else if k = 0 then take (r - 1) ls @ [ls ! (r - 1) @ ls ! r] @ drop (Suc r) ls
      else ls[r := take (k - 1) (ls ! r) @ drop k (ls ! r)])"

text \<open>Without highlighting only the row itself changes, and not in its characters.\<close>

lemma update_syntax_plain:
  "j < length rs \<Longrightarrow> editorUpdateSyntax None n rs j =
     Some (rs[j := (rs ! j)\<lparr>hl := replicate (length (render (rs ! j))) HL_NORMAL\<rparr>])"
  by (subst editorUpdateSyntax.simps) (simp add: Let_def)

lemma map_chars_update: "chars q = chars (rs ! j) \<Longrightarrow> map chars (rs[j := q]) = map chars rs"
  by (metis list_update_id map_update)

lemma same_chars [simp]: "(map chars rs)[j := chars (rs ! j)] = map chars rs"
  by (metis list_update_id map_update)

lemma tabs_le: "tabs cs \<le> length cs"
  by (simp add: tabs_def)

lemma allocsize_nat:
  assumes "length cs \<le> 2 ^ 28"
  shows "unat (allocsize cs) = length cs + tabs cs * 8 + 1"
proof -
  have "unat (of_nat (tabs cs * 8) :: u32) = tabs cs * 8" using tabs_le [of cs] assms by (intro unat_of_nat_small) simp
  moreover have "unat (ucast x :: u64) = unat x" for x :: u32
    using unsigned_less [of x, where 'a = nat] by (simp add: unsigned_ucast_eq take_bit_nat_eq_self)
  ultimately have "unat (ucast (of_nat (tabs cs) * 8 :: u32) :: u64) = tabs cs * 8" by simp
  then have t: "(ucast (of_nat (tabs cs) * 8 :: u32) :: u64) = of_nat (tabs cs * 8)"
    by (metis of_nat_unat ucast_id)
  have "allocsize cs = of_nat (length cs + tabs cs * 8 + 1)" by (simp add: allocsize_def t)
  also have "unat \<dots> = length cs + tabs cs * 8 + 1" using tabs_le [of cs] assms by (intro unat_of_nat_small) simp
  finally show ?thesis .
qed

lemma update_row:
  assumes "j < length rs" "length (chars (rs ! j)) \<le> 2 ^ 28"
  shows "\<exists>rs'. editorUpdateRow None n rs j = Some rs' \<and> map chars rs' = map chars rs"
proof -
  have "\<not> allocsize (chars (rs ! j)) > 0xFFFFFFFF"
    using allocsize_nat [OF assms(2)] tabs_le [of "chars (rs ! j)"] assms(2) by (simp add: word_less_nat_alt)
  then show ?thesis
    using assms(1) by (simp add: editorUpdateRow_def Let_def update_syntax_plain map_chars_update)
qed

lemma set_chars_text [simp]: "map chars (set_chars rs j cs) = (map chars rs)[j := cs]" "length (set_chars rs j cs) = length rs"
  "j < length rs \<Longrightarrow> chars (set_chars rs j cs ! j) = cs"
  by (simp_all add: set_chars_def map_update)

lemma redraw_text:
  assumes "esyntax e = None" "j < length (row e)" "length cs \<le> 2 ^ 28"
  shows "\<exists>rs. redraw_row e j cs = Some (e\<lparr>row := rs\<rparr>) \<and> map chars rs = (text_lines e)[j := cs]"
  using update_row [of j "set_chars (row e) j cs" "numrows e"] assms by (auto simp: redraw_row_def text_lines_def)

lemma shift_idx_chars [simp]: "map chars (shift_idx k rs) = map chars rs" "length (shift_idx k rs) = length rs"
proof -
  have "map chars (shift_idx k rs) = map chars (take k rs @ drop k rs)"
    unfolding shift_idx_def map_append by simp
  then show "map chars (shift_idx k rs) = map chars rs" by simp
  show "length (shift_idx k rs) = length rs" by (simp add: shift_idx_def)
qed

lemma insert_row:
  assumes "esyntax e = None" "i \<le> length (row e)" "length s \<le> 2 ^ 28"
  shows "\<exists>rs. editorInsertRow e i s = Some (e\<lparr>row := rs, dirty := dirty e + 1\<rparr>) \<and>
    map chars rs = take i (text_lines e) @ s # drop i (text_lines e)"
proof -
  let ?new = "\<lparr>idx = int i, chars = s, render = [], hl = [], hl_oc = False\<rparr>"
  let ?rs = "take i (row e) @ ?new # drop i (shift_idx i (row e))"
  have "?rs ! i = ?new" using assms(2) by (simp add: nth_append)
  then obtain rs where rs: "editorUpdateRow None (numrows e) ?rs i = Some rs" "map chars rs = map chars ?rs"
    using update_row [of i ?rs "numrows e"] assms(2,3) by auto
  have "map chars (drop i (shift_idx i (row e))) = drop i (map chars (row e))"
    using shift_idx_chars(1) [of i "row e"] by (metis drop_map)
  then show ?thesis
    using assms(1,2) rs by (auto simp: editorInsertRow_def numrows_def text_lines_def take_map)
qed

lemma add_rows_text:
  "esyntax e = None \<Longrightarrow> \<exists>rs d. add_rows n e = Some (e\<lparr>row := rs, dirty := d\<rparr>) \<and> map chars rs = text_lines e @ replicate n []"
proof (induction n arbitrary: e)
  case 0
  show ?case by (intro exI [of _ "row e"] exI [of _ "dirty e"]) (simp add: text_lines_def)
next
  case (Suc n)
  obtain rs where r: "editorInsertRow e (length (row e)) [] = Some (e\<lparr>row := rs, dirty := dirty e + 1\<rparr>)"
    "map chars rs = text_lines e @ [[]]"
    using insert_row [of e "length (row e)" "[]"] Suc.prems by (auto simp: text_lines_def)
  then show ?case using Suc.IH [of "e\<lparr>row := rs, dirty := dirty e + 1\<rparr>"] Suc.prems by (auto simp: text_lines_def)
qed

lemma length_text: "length (text_lines e) = length (row e)" "i < length (row e) \<Longrightarrow> text_lines e ! i = chars (row e ! i)"
  by (simp_all add: text_lines_def)

lemma short_row: "short_rows e \<Longrightarrow> i < length (row e) \<Longrightarrow> length (chars (row e ! i)) < 2 ^ 27"
  by (simp add: short_rows_def text_lines_def)

lemma row_insert_text:
  assumes "esyntax e = None" "j < length (row e)" "length (chars (row e ! j)) < 2 ^ 27" "k < 2 ^ 27"
  shows "\<exists>rs. editorRowInsertChar e j k c = Some (e\<lparr>row := rs, dirty := dirty e + 1\<rparr>) \<and>
    map chars rs = (let l = chars (row e ! j) in (text_lines e)[j := take k l @ replicate (k - length l) 32 @ c # drop k l])"
proof -
  let ?l = "chars (row e ! j)"
  let ?cs = "if k > length ?l then ?l @ replicate (k - length ?l) 32 @ [c] else take k ?l @ c # drop k ?l"
  have "length ?cs \<le> 2 ^ 28" using assms(3,4) by auto
  from redraw_text [OF assms(1,2) this] obtain rs where
    "redraw_row e j ?cs = Some (e\<lparr>row := rs\<rparr>)" "map chars rs = (text_lines e)[j := ?cs]" by blast
  then show ?thesis by (auto simp: editorRowInsertChar_def Let_def)
qed

lemma insert_char_text:
  assumes "esyntax e = None" "short_rows e" "rowoff e + cy e = int r" "coloff e + cx e = int k" "k < 2 ^ 27"
  shows "\<exists>e'. editorInsertChar e c = Some e' \<and> text_lines e' = text_insert (text_lines e) r k c"
proof -
  obtain rs d where a: "add_rows (nat (int r + 1 - numrows e)) e = Some (e\<lparr>row := rs, dirty := d\<rparr>)"
    "map chars rs = text_lines e @ replicate (nat (int r + 1 - numrows e)) []"
    using add_rows_text [OF assms(1)] by blast
  let ?e = "e\<lparr>row := rs, dirty := d\<rparr>"
  have n: "nat (int r + 1 - numrows e) = Suc r - length (text_lines e)" by (simp add: numrows_def length_text nat_diff_distrib')
  have l: "length rs = length (text_lines e) + (Suc r - length (text_lines e))" using a(2) n by (metis length_append length_map length_replicate)
  then have r: "r < length rs" by simp
  then have cr: "chars (rs ! r) = (text_lines e @ replicate (Suc r - length (text_lines e)) []) ! r"
    using a(2) n by (metis nth_map)
  have "length (chars (rs ! r)) < 2 ^ 27"
  proof (cases "r < length (row e)")
    case True
    then show ?thesis using short_row [OF assms(2)] by (simp add: cr nth_append length_text)
  next
    case False
    then show ?thesis using l r by (simp add: cr nth_append length_text)
  qed
  with row_insert_text [of ?e r k c] r assms(1,5) obtain qs where
    q: "editorRowInsertChar ?e r k c = Some (?e\<lparr>row := qs, dirty := d + 1\<rparr>)"
      "map chars qs = (let l = chars (rs ! r) in (map chars rs)[r := take k l @ replicate (k - length l) 32 @ c # drop k l])"
    by (auto simp: text_lines_def)
  have "map chars qs = text_insert (text_lines e) r k c"
    using q(2) unfolding a(2) n cr by (simp add: text_insert_def Let_def)
  then show ?thesis using a(1) q(1) assms(3,4) by (simp add: editorInsertChar_def Let_def text_lines_def)
qed

lemma newline_text [simp]: "text_lines (newline_cursor e) = text_lines e"
  by (simp add: newline_cursor_def text_lines_def)

lemma newline_rows [simp]: "row (newline_cursor e) = row e"
  by (simp add: newline_cursor_def)

lemma insert_newline_text:
  assumes "esyntax e = None" "short_rows e" "rowoff e + cy e = int r" "coloff e + cx e = int k"
  shows "\<exists>e'. editorInsertNewline e = Some e' \<and> text_lines e' = text_newline (text_lines e) r k"
proof (cases "r < length (row e)")
  case False
  show ?thesis
  proof (cases "r = length (row e)")
    case True
    then show ?thesis using insert_row [of e r "[]"] assms(1,3,4)
      by (auto simp: editorInsertNewline_def Let_def numrows_def text_newline_def length_text text_lines_def)
  next
    case F: False
    then show ?thesis using False assms(3,4)
      by (simp add: editorInsertNewline_def Let_def numrows_def text_newline_def length_text)
  qed
next
  case True
  let ?l = "chars (row e ! r)"
  have l: "length ?l < 2 ^ 27" using short_row [OF assms(2) True] .
  let ?k = "min k (length ?l)"
  show ?thesis
  proof (cases "?k = 0")
    case z: True
    obtain rs where rs: "editorInsertRow e r [] = Some (e\<lparr>row := rs, dirty := dirty e + 1\<rparr>)"
      "map chars rs = take r (text_lines e) @ [] # drop r (text_lines e)"
      using insert_row [of e r "[]"] assms(1) True by auto
    have "drop r (text_lines e) = ?l # drop (Suc r) (text_lines e)" "take k ?l = []" "drop k ?l = ?l"
      using True z by (auto simp: Cons_nth_drop_Suc [symmetric] length_text min_def split: if_splits)
    then show ?thesis using True z rs assms(3,4)
      by (auto simp: editorInsertNewline_def Let_def numrows_def text_newline_def length_text text_lines_def [of "_\<lparr>row := _, dirty := _\<rparr>"])
  next
    case nz: False
    have d: "length (drop ?k ?l) \<le> 2 ^ 28" by (rule le_trans [of _ "length ?l"]) (use l in auto)
    obtain rs where rs: "editorInsertRow e (r + 1) (drop ?k ?l) = Some (e\<lparr>row := rs, dirty := dirty e + 1\<rparr>)"
      "map chars rs = take (r + 1) (text_lines e) @ drop ?k ?l # drop (r + 1) (text_lines e)"
      using insert_row [of e "r + 1" "drop ?k ?l"] assms(1) True d by auto
    let ?e = "e\<lparr>row := rs, dirty := dirty e + 1\<rparr>"
    have "length rs = Suc (length (row e))" using rs(2) True by (metis length_text(1) length_map length_append length_take length_drop length_Cons add_Suc_right Suc_leI le_add_diff_inverse min.absorb2 Suc_eq_plus1)
    then obtain qs where qs: "redraw_row ?e r (take ?k ?l) = Some (?e\<lparr>row := qs\<rparr>)" "map chars qs = (map chars rs)[r := take ?k ?l]"
    proof -
      have "length (take ?k ?l) \<le> 2 ^ 28" using l by (auto simp: min_def)
      then show ?thesis
        using that redraw_text [of ?e r "take ?k ?l"] assms(1) True \<open>length rs = _\<close> by (auto simp: text_lines_def)
    qed
    have "map chars qs = take r (text_lines e) @ [take k ?l, drop k ?l] @ drop (Suc r) (text_lines e)"
      unfolding qs(2) rs(2) using True
      by (cases "k \<le> length ?l") (simp_all add: list_update_append take_Suc_conv_app_nth length_text min_def)
    then have "text_lines (?e\<lparr>row := qs\<rparr>) = text_newline (text_lines e) r k"
      using True by (simp add: text_newline_def length_text text_lines_def [of "e\<lparr>dirty := dirty e + 1, row := qs\<rparr>"])
    then show ?thesis using True rs(1) qs(1) nz assms(3,4)
      by (auto simp: editorInsertNewline_def Let_def numrows_def min_def split: if_splits)
  qed
qed

lemma del_row_text: "r < length (row e) \<Longrightarrow> text_lines (editorDelRow e r) = take r (text_lines e) @ drop (Suc r) (text_lines e)"
  by (simp add: editorDelRow_def numrows_def text_lines_def take_map drop_map)

lemma row_delete_text:
  assumes "esyntax e = None" "j < length (row e)" "length (chars (row e ! j)) < 2 ^ 27" "0 < k"
  shows "\<exists>rs d. editorRowDelChar e j (k - 1) = Some (e\<lparr>row := rs, dirty := d\<rparr>) \<and>
    map chars rs = (let l = chars (row e ! j) in (text_lines e)[j := take (k - 1) l @ drop k l])"
proof (cases "length (chars (row e ! j)) \<le> k - 1")
  case True
  then have "editorRowDelChar e j (k - 1) = Some (e\<lparr>row := row e, dirty := dirty e\<rparr>)" by (simp add: editorRowDelChar_def)
  then show ?thesis using True assms(2)
    by (intro exI [of _ "row e"] exI [of _ "dirty e"]) (simp add: Let_def text_lines_def)
next
  case False
  let ?l = "chars (row e ! j)"
  let ?c = "take (k - 1) ?l @ drop k ?l"
  obtain rs where rs: "redraw_row e j (?c @ [0]) = Some (e\<lparr>row := rs\<rparr>)" "map chars rs = (text_lines e)[j := ?c @ [0]]"
  proof -
    have "length (?c @ [0]) \<le> 2 ^ 28" using assms(3,4) by (auto simp: min_def)
    from redraw_text [OF assms(1,2) this] show ?thesis using that by blast
  qed
  have "map chars (set_chars rs j ?c) = (text_lines e)[j := ?c]" unfolding set_chars_text(1) rs(2) by simp
  then show ?thesis using rs(1) False assms(4)
    by (intro exI [of _ "set_chars rs j ?c"] exI [of _ "dirty e + 1"]) (simp add: editorRowDelChar_def Let_def)
qed

lemma delete_char_text:
  assumes "esyntax e = None" "short_rows e" "rowoff e + cy e = int r" "coloff e + cx e = int k"
  shows "\<exists>e'. editorDelChar e = Some e' \<and> text_lines e' = text_delete (text_lines e) r k"
proof (cases "r < length (row e) \<and> \<not> (r = 0 \<and> k = 0)")
  case False
  then show ?thesis using assms(3,4) by (auto simp: editorDelChar_def Let_def numrows_def text_delete_def length_text)
next
  case True
  let ?l = "chars (row e ! r)"
  have l: "length ?l < 2 ^ 27" using short_row [OF assms(2)] True by simp
  show ?thesis
  proof (cases "k = 0")
    case z: True
    let ?p = "chars (row e ! (r - 1))"
    have p: "length ?p < 2 ^ 27" "r - 1 < length (row e)" using short_row [OF assms(2), of "r - 1"] True by force+
    obtain rs where q: "redraw_row e (r - 1) (?p @ ?l) = Some (e\<lparr>row := rs\<rparr>)" "map chars rs = (text_lines e)[r - 1 := ?p @ ?l]"
      using redraw_text [OF assms(1) p(2), of "?p @ ?l"] l p by auto
    let ?e = "e\<lparr>row := rs, dirty := dirty e + 1\<rparr>"
    have a: "editorRowAppendString e (r - 1) ?l = Some ?e" using q(1) by (simp add: editorRowAppendString_def)
    have n: "length rs = length (row e)" using q(2) by (metis length_list_update length_map length_text(1))
    have "text_lines ?e = (text_lines e)[r - 1 := ?p @ ?l]" by (simp add: text_lines_def [of ?e] q(2))
    then have t: "text_lines (editorDelRow ?e r) = take (r - 1) (text_lines e) @ [?p @ ?l] @ drop (Suc r) (text_lines e)"
      using del_row_text [of r ?e] True z n
      by (cases r) (simp_all add: upd_conv_take_nth_drop length_text min_def)
    then show ?thesis using True z a assms(3,4)
      by (auto simp: editorDelChar_def Let_def numrows_def text_delete_def length_text text_lines_def)
  next
    case nz: False
    then obtain rs d where q: "editorRowDelChar e r (k - 1) = Some (e\<lparr>row := rs, dirty := d\<rparr>)"
      "map chars rs = (text_lines e)[r := take (k - 1) ?l @ drop k ?l]"
      using row_delete_text [OF assms(1) _ l, of k] True by (auto simp: Let_def)
    have n: "r < length rs" using q(2) True by (metis length_list_update length_map length_text(1))
    then have cr: "chars (rs ! r) = take (k - 1) ?l @ drop k ?l"
      using q(2) True by (metis length_list_update length_map length_text(1) nth_list_update_eq nth_map)
    then have "length (chars (rs ! r)) \<le> 2 ^ 28" using l by simp
    then have "\<exists>qs. redraw_row f r (chars (rs ! r)) = Some (f\<lparr>row := qs\<rparr>) \<and> map chars qs = map chars rs"
      if "row f = rs" "esyntax f = None" for f
      using redraw_text [of f r "chars (rs ! r)"] that n by (auto simp: text_lines_def)
    from this [of "e\<lparr>row := rs, dirty := d, coloff := coloff e - 1\<rparr>"] this [of "e\<lparr>row := rs, dirty := d, cx := cx e - 1\<rparr>"]
    show ?thesis
      using True nz q assms(1,3,4)
      by (auto simp: editorDelChar_def Let_def numrows_def text_delete_def length_text text_lines_def)
  qed
qed

section \<open>Files\<close>

lemma concat_getlines: "concat (getlines bs) = bs"
  by (induction bs) (auto split: list.splits)

lemma getlines_nonempty: "bs \<noteq> [] \<Longrightarrow> getlines bs \<noteq> []" "l \<in> set (getlines bs) \<Longrightarrow> l \<noteq> []"
  by (induction bs arbitrary: l) (auto split: list.splits if_splits)

lemma getlines_butlast: "l \<in> set (butlast (getlines bs)) \<Longrightarrow> last l = 10"
proof (induction bs arbitrary: l)
  case (Cons b bs)
  show ?case
  proof (cases "getlines bs")
    case Nil
    then show ?thesis using Cons by (auto split: if_splits)
  next
    case (Cons k ks)
    have "k \<noteq> []" using getlines_nonempty(2) [of k bs] Cons by simp
    then show ?thesis using Cons.IH [of l] Cons.IH [of k] Cons.prems Cons by (auto split: if_splits)
  qed
qed simp

text \<open>A line read from a file and written back.\<close>

definition saved_line :: "u8 list \<Rightarrow> u8 list" where
  "saved_line l = strip_line l @ [10]"

lemma saved_newline: "l \<noteq> [] \<Longrightarrow> last l = 10 \<Longrightarrow> saved_line l = l"
  by (metis append_butlast_last_id strip_line_def saved_line_def)

lemma strip_length: "length (strip_line l) \<le> length l"
  by (simp add: strip_line_def)

lemma open_lines_text:
  "esyntax e = None \<Longrightarrow> \<forall>l \<in> set ls. length l \<le> 2 ^ 28 \<Longrightarrow>
   \<exists>rs d. open_lines e ls = Some (e\<lparr>row := rs, dirty := d\<rparr>) \<and> map chars rs = text_lines e @ map strip_line ls"
proof (induction ls arbitrary: e)
  case Nil
  show ?case by (intro exI [of _ "row e"] exI [of _ "dirty e"]) (simp add: text_lines_def)
next
  case (Cons l ls)
  obtain rs where r: "editorInsertRow e (length (row e)) (strip_line l) = Some (e\<lparr>row := rs, dirty := dirty e + 1\<rparr>)"
    "map chars rs = text_lines e @ [strip_line l]"
    using insert_row [of e "length (row e)" "strip_line l"] Cons.prems strip_length [of l] by (auto simp: text_lines_def)
  then show ?case using Cons.IH [of "e\<lparr>row := rs, dirty := dirty e + 1\<rparr>"] Cons.prems by (auto simp: text_lines_def)
qed

lemma rows_string: "editorRowsToString e = concat (map (\<lambda>l. l @ [10]) (text_lines e))"
  by (simp add: editorRowsToString_def text_lines_def comp_def)

lemma concat_saved:
  "ls \<noteq> [] \<Longrightarrow> \<forall>l \<in> set (butlast ls). saved_line l = l \<Longrightarrow> concat (map saved_line ls) = concat (butlast ls) @ saved_line (last ls)"
  by (induction ls) (auto split: if_splits)

section \<open>Drawing\<close>

lemma render_tab_length: "length (render_tab acc) \<le> length acc + 8"
  by (simp add: render_tab_def Let_def)

lemma render_loop_length: "length (render_loop acc cs) \<le> length acc + length cs + tabs cs * 7"
proof (induction cs arbitrary: acc)
  case (Cons c cs)
  show ?case
  proof (cases "c = 9")
    case True
    then have "tabs (c # cs) = Suc (tabs cs)" by (simp add: tabs_def)
    then show ?thesis using Cons.IH [of "render_tab acc"] render_tab_length [of acc] True
      by (simp only: render_loop.simps refl if_True length_Cons mult_Suc)
  next
    case False
    then show ?thesis using Cons.IH [of "acc @ [c]"] by (simp add: tabs_def)
  qed
qed (simp add: tabs_def)

text \<open>The drawing of a row and its final zero byte fit in the memory that is allocated for them.\<close>

lemma render_fits: "length cs \<le> 2 ^ 28 \<Longrightarrow> length (render_loop [] cs) + 1 \<le> unat (allocsize cs)"
  using render_loop_length [of "[]" cs] by (simp add: allocsize_nat)

section \<open>Flaws of the cursor and of the row numbers\<close>

text \<open>In a scrolled window, the left arrow at the start of the first line shown moves the cursor above the window.\<close>

lemma left_leaves_window:
  assumes "cx e = 0" "coloff e = 0" "cy e = 0" "0 < rowoff e" "rowoff e \<le> numrows e" "0 < screencols e"
  shows "\<exists>e'. editorMoveCursor e ARROW_LEFT = Some e' \<and> cy e' = - 1"
  using assms
  by (auto simp: editorMoveCursor_def arrow_left_def fix_cx_def row_size_def numrows_def Let_def bind_eq_Some_conv)

text \<open>When a row is removed the numbers of the rows behind it grow by one instead of becoming smaller.\<close>

lemma del_row_idx:
  assumes "\<forall>j < length (row e). idx (row e ! j) = int j" "i < length (row e)" "i \<le> j" "j < length (row e) - 1"
  shows "idx (row (editorDelRow e i) ! j) = int j + 2"
  using assms by (simp add: editorDelRow_def numrows_def shift_idx_def nth_append)

section \<open>Flaws of the highlighting\<close>

text \<open>
  A comment behind tabs: the highlighting of the rest of the row is given the size of the row minus an offset in its
  drawing, which is negative.
\<close>

lemma comment_behind_tabs_fails:
  "editorInsertRow (editorSelectSyntaxHighlight (initEditor 25 80) (str ''main.c'')) 0 [9, 9, 47, 47, 120] = None"
  by code_simp

text \<open>
  A string whose last character is a backslash: the highlighting is written behind its end.
\<close>

lemma backslash_at_end_fails:
  "editorInsertRow (editorSelectSyntaxHighlight (initEditor 25 80) (str ''main.c'')) 0 [34, 92] = None"
  by code_simp

text \<open>
  The wrong row numbers after a deletion: of three rows the first is joined with the second, and then drawing the last
  one looks for the row before it outside the array.
\<close>

lemma stale_number_fails:
  "(do { (r, e) \<leftarrow> editorOpen (editorSelectSyntaxHighlight (initEditor 25 80) (str ''main.c'')) (Some [97, 10, 98, 10, 99, 10]);
        e \<leftarrow> editorDelChar (e\<lparr>cy := 1\<rparr>);
        editorInsertChar (e\<lparr>cy := 1\<rparr>) 100 }) = None"
  "(do { (r, e) \<leftarrow> editorOpen (initEditor 25 80) (Some [97, 10, 98, 10, 99, 10]);
        e \<leftarrow> editorDelChar (e\<lparr>cy := 1\<rparr>);
        e \<leftarrow> editorInsertChar (e\<lparr>cy := 1\<rparr>) 100;
        Some (text_lines e) }) = Some [[97, 98], [99, 100]]"
  by code_simp+

text \<open>The highlighting of a small row: a type, a number, a keyword and a comment.\<close>

lemma highlight_example:
  "map_option (\<lambda>e. hl (row e ! 0))
     (editorInsertRow (editorSelectSyntaxHighlight (initEditor 25 80) (str ''main.c'')) 0 (str ''int x=1; if /*a*/ y //b'')) =
   Some [5, 5, 5, 0, 0, 0, 7, 0, 0, 4, 4, 0, 3, 3, 3, 3, 3, 0, 0, 0, 2, 2, 2]"
  by code_simp

section \<open>Properties of the editor\<close>

text \<open>
  C35: the editing keys edit the text of a file whose name selects no syntax. At a cursor position inside or behind the
  text, inserting a character, splitting a line and deleting a character change the lines of the editor as these
  operations change a list of lines at that row and column, lines and columns that do not exist yet being filled up;
  none of them fails while the lines are shorter than 2^27 characters. With highlighting they can fail, as the lemmas
  above show.
\<close>

theorem editor_edits_text:
  assumes "esyntax e = None" "short_rows e" "rowoff e + cy e = int r" "coloff e + cx e = int k" "k < 2 ^ 27"
  shows "(\<exists>e'. editorInsertChar e c = Some e' \<and> text_lines e' = text_insert (text_lines e) r k c) \<and>
    (\<exists>e'. editorInsertNewline e = Some e' \<and> text_lines e' = text_newline (text_lines e) r k) \<and>
    (\<exists>e'. editorDelChar e = Some e' \<and> text_lines e' = text_delete (text_lines e) r k)"
  using insert_char_text [OF assms] insert_newline_text [OF assms(1-4)] delete_char_text [OF assms(1-4)] by blast

text \<open>
  C36: a file whose name selects no syntax, with lines of at most 2^28 bytes, that is opened and written back unchanged
  is the same file, when it is empty or ends with a newline. A file without a final newline gets one, which replaces a
  final carriage return.
\<close>

theorem open_save_roundtrip:
  assumes "\<forall>l \<in> set (getlines content). length l \<le> 2 ^ 28"
  shows "\<exists>e. editorOpen (initEditor rows cols) (Some content) = Some (0, e) \<and> dirty e = 0 \<and>
    editorRowsToString e =
      (if content = [] \<or> last content = 10 then content
       else if last content = 13 then butlast content @ [10] else content @ [10])"
proof -
  let ?ls = "getlines content"
  obtain rs d where o: "open_lines (initEditor rows cols) ?ls = Some ((initEditor rows cols)\<lparr>row := rs, dirty := d\<rparr>)"
    "map chars rs = map strip_line ?ls"
    using open_lines_text [OF _ assms, of "initEditor rows cols"] by (auto simp: initEditor_def text_lines_def)
  let ?e = "(initEditor rows cols)\<lparr>row := rs, dirty := 0\<rparr>"
  have s: "editorRowsToString ?e = concat (map saved_line ?ls)"
    by (simp add: rows_string text_lines_def o(2) saved_line_def [abs_def] comp_def)
  have "concat (map saved_line ?ls) =
      (if content = [] \<or> last content = 10 then content
       else if last content = 13 then butlast content @ [10] else content @ [10])"
  proof (cases "content = []")
    case False
    let ?l = "last ?ls"
    have n: "?ls \<noteq> []" "?l \<noteq> []" using getlines_nonempty(1) [OF False] getlines_nonempty(2) [of "last (getlines content)" content] by auto
    have "content = concat (butlast ?ls @ [?l])" using concat_getlines [of content] n by simp
    then have c: "content = concat (butlast ?ls) @ ?l" by simp
    have "saved_line l = l" if "l \<in> set (butlast ?ls)" for l
      using saved_newline [of l] getlines_butlast [OF that] getlines_nonempty(2) [of l content] in_set_butlastD [OF that] by blast
    then have w: "concat (map saved_line ?ls) = concat (butlast ?ls) @ saved_line ?l" using concat_saved [OF n(1)] by blast
    have "last content = last ?l" "butlast content = concat (butlast ?ls) @ butlast ?l"
      using n(2) by (subst c, simp add: butlast_append)+
    moreover have "saved_line ?l = (if last ?l = 10 then ?l else if last ?l = 13 then butlast ?l @ [10] else ?l @ [10])"
      using saved_newline [OF n(2)] n(2) by (simp add: saved_line_def strip_line_def)
    ultimately show ?thesis using False w c by simp
  qed simp
  then show ?thesis using o(1) s by (simp add: editorOpen_def initEditor_def)
qed

theorem editor_edits_text_witness:
  "\<exists>e'. editorInsertChar (editorSelectSyntaxHighlight (initEditor 25 80) (str ''notes.txt'')) 65 = Some e' \<and> text_lines e' = [[65]]"
proof -
  have "find (\<lambda>s. list_ex (pattern_matches (str ''notes.txt'')) (filematch s)) HLDB = None" by code_simp
  then have "editorSelectSyntaxHighlight (initEditor 25 80) (str ''notes.txt'') = initEditor 25 80"
    by (simp add: editorSelectSyntaxHighlight_def)
  then show ?thesis
    using editor_edits_text [of "initEditor 25 80" 0 0 65]
    by (simp add: short_rows_def text_lines_def initEditor_def text_insert_def Let_def)
qed

theorem open_save_roundtrip_witness:
  "\<exists>e. editorOpen (initEditor 25 80) (Some [104, 105, 13, 10, 10, 120]) = Some (0, e) \<and>
     editorRowsToString e = [104, 105, 13, 10, 10, 120, 10]"
  using open_save_roundtrip [of "[104, 105, 13, 10, 10, 120]" 25 80] by auto

end
