(* ===== verification/Spec2Isabelle.thy ===== *)
theory Spec2Isabelle
  imports Partition Fat32_Volume Syscall Mouse Boot_Tables Kilo
begin

text \<open>
  A verification development of the Dynt kernel, an x86_64 kernel in C with paging, a heap, a FAT32 file system,
  processes, a preemptive multiprocessor scheduler, four virtual terminals and a table of system calls.

  \<^bold>\<open>How the parts work together.\<close> A program runs in user mode until a timer interrupt, an input interrupt or a
  system call enters the kernel. The timer interrupt calls the scheduler (\<^verbatim>\<open>scheduler/scheduler.c\<close>), which may
  replace the registers of the interrupted process by those of another one. The keyboard and mouse interrupts
  feed the input stacks. A system call goes to the dispatcher
  (\<^verbatim>\<open>arch/x86_64/syscall/syscall_dispatch.c\<close>), which uses the terminals, the file system, the process
  management and the scheduler. Process management loads ELF files from the file system into address spaces
  made by paging; the page tables and the pages come from the physical memory manager, the structures of the
  kernel from the heap. The file system reads and writes sectors of block devices, which are disks or
  partitions.

  \<^bold>\<open>The model.\<close> C structures are records, enumerations are datatypes, integers are words of their width, and
  pointers are addresses. Memory is a function from 64-bit addresses to bytes: page tables, heap blocks and user
  pages are data in this one memory, read and written as little-endian words. Process structures, terminals and
  mounts are typed stores. A function of the C source is a HOL function that takes the state it reads and
  returns the state it leaves. Failure the code reports is part of the result. The result \<open>None\<close> of a function
  of option type means that the C function does not return normally: it loops forever, leaves an array, or the
  kernel faults. Loops whose end depends on data are \<open>partial_function (option)\<close>, so that not returning is this
  value; for the others the recursion carries its bound.

  \<^bold>\<open>The theories.\<close>

  \<^item> \<open>Dynt_Prelude\<close>: the word types, the collections of simplification rules, and the lemmas on words, lists and
    options that the components share. \<open>Links\<close>: singly linked lists through a map, with the locale \<open>kernel_list\<close>
    that the children of a process and the run queues interpret. \<open>Ring\<close>: ring buffers with the locale
    \<open>bounded_queue\<close>, which the raw input of a terminal, the key events and the mouse events interpret.
  \<^item> \<open>Mem_Lib\<close> (\<^verbatim>\<open>mem/lib/memory.c\<close>): the byte loops over memory and strings and the little-endian loads;
    bounded copies stay inside their destination.
  \<^item> \<open>Pmm\<close> (\<^verbatim>\<open>mem/mm/pmm.c\<close>): the bitmap of frames. Initialisation leaves exactly the usable frames free, and
    successive allocations give different frames.
  \<^item> \<open>Paging\<close> (\<^verbatim>\<open>mem/mm/paging.c\<close>): four-level page tables in memory. \<open>paging_map\<close> and \<open>paging_unmap\<close> refine the
    update of a partial function from pages to frames, and no sequence of calls gives user mode access to kernel
    memory.
  \<^item> \<open>Kheap\<close> (\<^verbatim>\<open>mem/mm/kheap.c\<close>): the block list in memory, with its invariant, allocation, splitting, growth,
    freeing and merging.
  \<^item> \<open>Block\<close>, \<open>Partition\<close> (\<^verbatim>\<open>driver/stacks/storage/block.c\<close>, \<^verbatim>\<open>driver/stacks/storage/partition.c\<close>): devices,
    partition tables, and that an access to a partition stays inside it.
  \<^item> \<open>Fat32_Names\<close>, \<open>Fat32\<close>, \<open>Fat32_Volume\<close> (\<^verbatim>\<open>fs/fat32.c\<close>): names and paths, the operations on the volume, and
    the properties of chains, file contents and directories.
  \<^item> \<open>Vfs\<close> (\<^verbatim>\<open>fs/vfs.c\<close>, \<^verbatim>\<open>fs/ext2.c\<close>): mounts, path operations and file descriptors.
  \<^item> \<open>Elf\<close> (\<^verbatim>\<open>exec/elf.c\<close>): the parser, with every load inside the file, and its equivalence with a declarative
    reading of the program headers.
  \<^item> \<open>Process\<close> (\<^verbatim>\<open>process/process.c\<close>): creation, loading, relocation, exec, fork, and waiting for children.
  \<^item> \<open>Scheduler\<close> (\<^verbatim>\<open>scheduler/scheduler.c\<close>, \<^verbatim>\<open>arch/x86_64/cpu/percpu.c\<close>): the run queues of sixteen
    processors. The inductive predicate \<open>sched_reach\<close> holds of the states that ticks, enqueues, exits and kills
    reach in any order on any processor; in all of them the queues are consistent.
  \<^item> \<open>Vga\<close>, \<open>Console\<close> (\<^verbatim>\<open>driver/buildin/video/vga/vga.c\<close>, \<^verbatim>\<open>driver/stacks/video/video_stack.c\<close>,
    \<^verbatim>\<open>arch/x86_64/io/serial.c\<close>, \<^verbatim>\<open>init/debug.c\<close>, and the escape sequences of the dispatcher): the terminals
    and the screen, which shows the displayed terminal, and formatted output.
  \<^item> \<open>Keyboard\<close>, \<open>Mouse\<close> (\<^verbatim>\<open>driver/stacks/input/keyboard_stack.c\<close>, \<^verbatim>\<open>driver/stacks/input/mouse_stack.c\<close> and
    the interrupt handlers under \<^verbatim>\<open>driver/buildin/input/ps2\<close>): key states, line editing, raw input, terminal
    modes, and mouse packets. A line that is read is the line that was typed, after its editing keys.
  \<^item> \<open>Syscall\<close> (\<^verbatim>\<open>arch/x86_64/syscall/syscall_dispatch.c\<close>): all system calls over the state of the kernel and
    the terminals. Here the components meet: each call keeps the invariant of the scheduler, refuses buffers
    outside the user range, and the loops over pages and the timed wait end.

  \<^item> \<open>Smp\<close> (\<^verbatim>\<open>arch/x86_64/smp/smp.c\<close>): the search of low memory for the tables of the firmware and the list of
    processors. The search ends for any content of memory, and the list is that of the table.
  \<^item> \<open>Boot_Tables\<close> (\<^verbatim>\<open>arch/x86_64/boot/multiboot2.c\<close>, \<^verbatim>\<open>arch/x86_64/inter/gdt.c\<close>,
    \<^verbatim>\<open>arch/x86_64/inter/idt.c\<close>): the information of the boot loader, and the descriptor tables as the processor
    decodes them.

  \<^item> \<open>Kilo\<close> (\<^verbatim>\<open>userspace/kilo/main.c\<close>): the editor among the user programs. Its editing keys refine operations
    on a list of lines, and a file that is opened and written back is the same file.

  Some properties state what the code does where it does not do what it means to: a lookup in a directory that
  fills its cluster does not return, a directory cannot be removed, a full volume leaks clusters, only two
  processes of a queue are ever scheduled, a terminated last process keeps running, a relocation reaches pages of the kernel,
  an escape sequence moves the cursor off the screen, and a listing overruns a buffer of one byte.

  \<^bold>\<open>Bounds.\<close> The recursions that carry a number of steps take it from the source: the removal of directories has
  the 17 levels that the depth check of \<^verbatim>\<open>remove_recursive\<close> allows, the freeing of a chain has the 0x1000000
  steps of the guard of its loop, table scans have the number of entries, and the 16 processors, 16 descriptors,
  4 terminals and 256 input bytes are the sizes of the arrays. The calls that wait take as an argument what
  happens while the processor is halted; the properties about them say what they assume of it.

  \<^bold>\<open>Not modelled.\<close> The boot code, the interrupt and system call stubs, the switch to user mode and the start of
  the processors found by \<open>smp_init\<close> are assembly or sequences of accesses to device registers; so are the controller
  set-up of the serial port, the timer, the interrupt controllers and the PS/2 ports, the PCI, IDE and AHCI
  accesses, and the panic screen. Spin locks have no effect on the
  modelled state: an operation of the model is one that runs under its lock. Interrupts between the steps of
  one system call are modelled only where the call waits. Of the editor, the syntax
  highlighting, the search and the screen output are left out; the other user programs are short calls of a C
  library that is not in the repository, and the system calls they make are modelled.
\<close>

end
